(* ===== verification/Jab_Prelude.thy ===== *)
theory Jab_Prelude
  imports Main "HOL-Library.Word"
begin

text \<open>
  The shared part of the development: bytes and machine sizes, the faults a C program can run
  into, the result type every fallible operation returns, the allocator, and bounded reads and
  writes of memory blocks.

  A block of memory is the list of its cells, so its length is the size it was allocated with.
  An access outside a block is undefined behaviour in C; the model makes it the value
  \<open>Fault Out_Of_Bounds\<close>, so that a lemma whose conclusion is \<open>f x = Ok y\<close> also says that
  the code touched no memory it does not own.
\<close>

section \<open>Bytes and sizes\<close>

type_synonym byte = "8 word"

text \<open>\<open>size_t\<close> is 64 bits wide. It is read as a \<open>nat\<close>, with its wrap-around written out.\<close>

definition SIZE_MOD :: nat where
  "SIZE_MOD = 18446744073709551616"

definition size_add :: "nat \<Rightarrow> nat \<Rightarrow> nat" where
  "size_add a b = (a + b) mod SIZE_MOD"

definition size_sub :: "nat \<Rightarrow> nat \<Rightarrow> nat" where
  "size_sub a b = (a + SIZE_MOD - b mod SIZE_MOD) mod SIZE_MOD"

text \<open>The conversion of an \<open>int\<close> to \<open>size_t\<close>: a negative number becomes a huge one.\<close>

definition size_of_int :: "int \<Rightarrow> nat" where
  "size_of_int i = nat (i mod int SIZE_MOD)"

text \<open>The range of the type \<open>int\<close>, and an \<open>int\<close> operation whose overflow is undefined.\<close>

definition INT_MAX :: int where
  "INT_MAX = 2147483647"

definition in_int_range :: "int \<Rightarrow> bool" where
  "in_int_range i \<longleftrightarrow> - INT_MAX - 1 \<le> i \<and> i \<le> INT_MAX"

section \<open>Faults and results\<close>

datatype fault =
    Out_Of_Bounds      \<comment> \<open>a read or a write outside a block\<close>
  | Null_Pointer       \<comment> \<open>a null pointer is dereferenced\<close>
  | Use_After_Free     \<comment> \<open>a block is used after it was freed\<close>
  | Bad_Format         \<comment> \<open>a conversion of a format string without its argument\<close>
  | No_Return_Value    \<comment> \<open>the value of a function that ended without a return statement\<close>
  | Signed_Overflow    \<comment> \<open>signed arithmetic leaves its type\<close>
  | Uninitialised      \<comment> \<open>a variable is read that was never written\<close>

datatype 'a cres = is_Ok: Ok 'a | Fault fault

fun bindr :: "'a cres \<Rightarrow> ('a \<Rightarrow> 'b cres) \<Rightarrow> 'b cres" where
  "bindr (Ok x) f = f x"
| "bindr (Fault e) f = Fault e"

text \<open>The weakest precondition of a computation: it does not fault and its value satisfies \<open>P\<close>.\<close>

fun okP :: "('a \<Rightarrow> bool) \<Rightarrow> 'a cres \<Rightarrow> bool" where
  "okP P (Ok x) \<longleftrightarrow> P x"
| "okP P (Fault e) \<longleftrightarrow> False"

section \<open>The allocator\<close>

text \<open>
  What \<open>malloc\<close> and \<open>realloc\<close> do is decided by the environment: whether a request of a given
  size is granted, and which indeterminate bytes a fresh block holds. Both are arguments of the
  model. No object is larger than \<open>PTRDIFF_MAX\<close>.
\<close>

record allocator =
  grant :: "nat \<Rightarrow> bool"
  junk :: "nat \<Rightarrow> byte"

definition PTRDIFF_MAX :: nat where
  "PTRDIFF_MAX = 9223372036854775807"

definition granted :: "allocator \<Rightarrow> nat \<Rightarrow> bool" where
  "granted al n \<longleftrightarrow> n \<le> PTRDIFF_MAX \<and> grant al n"

definition malloc_block :: "allocator \<Rightarrow> nat \<Rightarrow> byte list" where
  "malloc_block al n = map (junk al) [0..<n]"

definition realloc_block :: "allocator \<Rightarrow> byte list \<Rightarrow> nat \<Rightarrow> byte list" where
  "realloc_block al old n = take n old @ map (junk al) [length old..<n]"

text \<open>An allocator that never refuses and hands out zeroed blocks, for concrete runs.\<close>

definition zero_alloc :: allocator where
  "zero_alloc = \<lparr>grant = (\<lambda>_. True), junk = (\<lambda>_. 0)\<rparr>"

section \<open>Bounded memory access\<close>

definition mem_read :: "'a list \<Rightarrow> nat \<Rightarrow> nat \<Rightarrow> 'a list cres" where
  "mem_read m off n =
     (if off + n \<le> length m then Ok (take n (drop off m)) else Fault Out_Of_Bounds)"

definition mem_write :: "'a list \<Rightarrow> nat \<Rightarrow> 'a list \<Rightarrow> 'a list cres" where
  "mem_write m off xs =
     (if off + length xs \<le> length m
      then Ok (take off m @ xs @ drop (off + length xs) m) else Fault Out_Of_Bounds)"

definition mem_get :: "'a list \<Rightarrow> nat \<Rightarrow> 'a cres" where
  "mem_get m i = (if i < length m then Ok (m ! i) else Fault Out_Of_Bounds)"

definition mem_set :: "'a list \<Rightarrow> nat \<Rightarrow> 'a \<Rightarrow> 'a list cres" where
  "mem_set m i x = (if i < length m then Ok (m[i := x]) else Fault Out_Of_Bounds)"

section \<open>Lemmas on results\<close>

named_theorems cres_simps \<open>equations of the result type\<close>
named_theorems size_simps \<open>machine sizes that do not wrap\<close>

lemma bindr_eq_Ok [cres_simps]: "bindr r f = Ok y \<longleftrightarrow> (\<exists>x. r = Ok x \<and> f x = Ok y)"
  by (cases r) auto

lemma bindr_eq_Fault [cres_simps]:
  "bindr r f = Fault e \<longleftrightarrow> r = Fault e \<or> (\<exists>x. r = Ok x \<and> f x = Fault e)"
  by (cases r) auto

lemma bindr_cong [fundef_cong]:
  "r = r' \<Longrightarrow> (\<And>x. r' = Ok x \<Longrightarrow> f x = g x) \<Longrightarrow> bindr r f = bindr r' g"
  by (cases r') auto

lemma bindr_assoc [simp]: "bindr (bindr r f) g = bindr r (\<lambda>x. bindr (f x) g)"
  by (cases r) auto

lemma bindr_Ok_right [simp]: "bindr r Ok = r"
  by (cases r) auto

lemma bindr_split:
  "P (bindr r f) \<longleftrightarrow> (\<forall>x. r = Ok x \<longrightarrow> P (f x)) \<and> (\<forall>e. r = Fault e \<longrightarrow> P (Fault e))"
  by (cases r) auto

lemma okP_iff: "okP P r \<longleftrightarrow> (\<exists>x. r = Ok x \<and> P x)"
  by (cases r) auto

lemma okP_bindr [simp]: "okP P (bindr r f) \<longleftrightarrow> okP (\<lambda>x. okP P (f x)) r"
  by (cases r) auto

lemma okP_mono: "okP P r \<Longrightarrow> (\<And>x. P x \<Longrightarrow> Q x) \<Longrightarrow> okP Q r"
  by (cases r) auto

section \<open>Lemmas on sizes and blocks\<close>

lemma SIZE_MOD_pos [simp]: "0 < SIZE_MOD"
  by (simp add: SIZE_MOD_def)

lemma PTRDIFF_MAX_less [simp]: "PTRDIFF_MAX < SIZE_MOD"
  by (simp add: SIZE_MOD_def PTRDIFF_MAX_def)

lemma size_add_less [simp]: "size_add a b < SIZE_MOD"
  by (simp add: size_add_def)

lemma size_sub_less [simp]: "size_sub a b < SIZE_MOD"
  by (simp add: size_sub_def)

lemma size_add_exact [size_simps]: "a + b < SIZE_MOD \<Longrightarrow> size_add a b = a + b"
  by (simp add: size_add_def)

lemma size_sub_exact [size_simps]:
  assumes "b \<le> a" and "a < SIZE_MOD"
  shows "size_sub a b = a - b"
proof -
  have "a + SIZE_MOD - b mod SIZE_MOD = (a - b) + SIZE_MOD"
    using assms by simp
  then have "size_sub a b = ((a - b) + SIZE_MOD) mod SIZE_MOD"
    by (simp only: size_sub_def)
  also have "\<dots> = a - b"
    using assms by (simp only: mod_add_self2) simp
  finally show ?thesis .
qed

lemma size_sub_self [simp]: "a < SIZE_MOD \<Longrightarrow> size_sub a a = 0"
  by (simp add: size_sub_exact)

lemma size_of_int_less [simp]: "size_of_int i < SIZE_MOD"
  by (simp add: size_of_int_def SIZE_MOD_def nat_less_iff)

lemma size_of_int_nonneg [size_simps]:
  assumes "0 \<le> i" and "i \<le> INT_MAX"
  shows "size_of_int i = nat i"
proof -
  have "i mod 18446744073709551616 = i"
    using assms by (intro mod_pos_pos_trivial) (auto simp: INT_MAX_def)
  then show ?thesis by (simp add: size_of_int_def SIZE_MOD_def)
qed

lemma byte_bound: "unat (x :: byte) < 256"
  using unsigned_less [where ?'a = nat, of x] by simp

lemma length_malloc_block [simp]: "length (malloc_block al n) = n"
  by (simp add: malloc_block_def)

lemma length_realloc_block [simp]: "length (realloc_block al old n) = n"
  by (simp add: realloc_block_def)

lemma take_realloc_block:
  "k \<le> n \<Longrightarrow> k \<le> length old \<Longrightarrow> take k (realloc_block al old n) = take k old"
  by (simp add: realloc_block_def min_def)

lemma grantedD: "granted al n \<Longrightarrow> n \<le> PTRDIFF_MAX"
  by (simp add: granted_def)

lemma granted_zero_alloc [simp]: "granted zero_alloc n \<longleftrightarrow> n \<le> PTRDIFF_MAX"
  by (simp add: granted_def zero_alloc_def)

lemma junk_zero_alloc [simp]: "junk zero_alloc = (\<lambda>_. 0)"
  by (simp add: zero_alloc_def)

lemma mem_read_Ok: "off + n \<le> length m \<Longrightarrow> mem_read m off n = Ok (take n (drop off m))"
  by (simp add: mem_read_def)

lemma mem_read_eq_Ok [cres_simps]:
  "mem_read m off n = Ok xs \<longleftrightarrow> off + n \<le> length m \<and> xs = take n (drop off m)"
  by (auto simp: mem_read_def)

lemma mem_write_eq_Ok [cres_simps]:
  "mem_write m off xs = Ok m' \<longleftrightarrow>
     off + length xs \<le> length m \<and> m' = take off m @ xs @ drop (off + length xs) m"
  by (auto simp: mem_write_def)

lemma mem_get_eq_Ok [cres_simps]: "mem_get m i = Ok x \<longleftrightarrow> i < length m \<and> x = m ! i"
  by (auto simp: mem_get_def)

lemma mem_set_behind:
  assumes "length t < length m"
  shows "mem_set (t @ drop (length t) m) (length t) x = Ok (t @ x # drop (Suc (length t)) m)"
proof -
  have "drop (length t) m = m ! length t # drop (Suc (length t)) m"
    using assms by (simp add: Cons_nth_drop_Suc)
  then show ?thesis
    by (simp add: mem_set_def)
qed

lemma mem_set_eq_Ok [cres_simps]: "mem_set m i x = Ok m' \<longleftrightarrow> i < length m \<and> m' = m[i := x]"
  by (auto simp: mem_set_def)

end
