(* ===== verification/C_String.thy ===== *)
theory C_String
  imports Jab_Prelude
begin

text \<open>
  The text functions of the C library the program calls (\<open>string.h\<close>, \<open>strings.h\<close>,
  \<open>ctype.h\<close>, and \<open>vsnprintf\<close> of \<open>stdio.h\<close>), in the C locale.

  A block of text is a \<^typ>\<open>char list\<close>, terminator and everything behind it included. Where the
  code passes a \<open>const char *\<close> that it only reads up to the terminator, the model passes the
  characters before the terminator, a \<^typ>\<open>string\<close> without NUL.
\<close>

section \<open>Characters and terminated strings\<close>

abbreviation NUL :: char where
  "NUL \<equiv> CHR 0x00"

definition nul_free :: "string \<Rightarrow> bool" where
  "nul_free s \<longleftrightarrow> NUL \<notin> set s"

text \<open>
  Reading a block up to its terminator (what \<open>strlen\<close>, \<open>strcmp\<close>, \<open>strdup\<close> and the rest do):
  without a terminator in the block the read runs past its end.
\<close>

definition cstr :: "char list \<Rightarrow> string cres" where
  "cstr m = (if NUL \<in> set m then Ok (takeWhile (\<lambda>c. c \<noteq> NUL) m) else Fault Out_Of_Bounds)"

definition isspace :: "char \<Rightarrow> bool" where
  "isspace c \<longleftrightarrow> c \<in> set [CHR '' '', CHR 0x09, CHR 0x0A, CHR 0x0B, CHR 0x0C, CHR 0x0D]"

definition tolower :: "char \<Rightarrow> char" where
  "tolower c = (let n = of_char c :: nat in if 65 \<le> n \<and> n \<le> 90 then char_of (n + 32) else c)"

definition strcaseeq :: "string \<Rightarrow> string \<Rightarrow> bool" where
  "strcaseeq a b \<longleftrightarrow> map tolower a = map tolower b"

text \<open>\<open>strchr\<close> with a character that is not NUL: the text before and after its first occurrence.\<close>

fun strchr_split :: "char \<Rightarrow> string \<Rightarrow> (string \<times> string) option" where
  "strchr_split c [] = None"
| "strchr_split c (x # xs) =
     (if x = c then Some ([], xs)
      else (case strchr_split c xs of None \<Rightarrow> None | Some (a, b) \<Rightarrow> Some (x # a, b)))"

section \<open>Bytes and characters\<close>

definition byte_of_char :: "char \<Rightarrow> byte" where
  "byte_of_char c = of_char c"

definition char_of_byte :: "byte \<Rightarrow> char" where
  "char_of_byte b = char_of (unat b)"

definition junk_text :: "allocator \<Rightarrow> nat \<Rightarrow> char list" where
  "junk_text al n = map char_of_byte (malloc_block al n)"

section \<open>Formatted output\<close>

text \<open>
  \<open>vsnprintf\<close>. The program's own formats use \<open>%s\<close> and \<open>%d\<close>, and every other format reaches the
  function without arguments: \<open>%%\<close> prints a percent sign, and any other conversion
  specification then asks for an argument that is not there, which is undefined. A number is
  given as its decimal text.
\<close>

fun vformat :: "string \<Rightarrow> string list \<Rightarrow> string cres" where
  "vformat [] args = Ok []"
| "vformat (c # cs) args =
     (if c \<noteq> CHR ''%'' then bindr (vformat cs args) (\<lambda>r. Ok (c # r))
      else (case cs of
              [] \<Rightarrow> Fault Bad_Format
            | d # ds \<Rightarrow>
                if d = CHR ''%'' then bindr (vformat ds args) (\<lambda>r. Ok (CHR ''%'' # r))
                else if d = CHR ''s'' \<or> d = CHR ''d'' then
                  (case args of
                     [] \<Rightarrow> Fault Bad_Format
                   | a # as \<Rightarrow> bindr (vformat ds as) (\<lambda>r. Ok (a @ r)))
                else Fault Bad_Format))"

definition vsnprintf :: "char list \<Rightarrow> nat \<Rightarrow> string \<Rightarrow> string list \<Rightarrow> char list cres" where
  "vsnprintf m cap fmt args =
     bindr (vformat fmt args) (\<lambda>out.
       if cap = 0 then Ok m else mem_write m 0 (take (cap - 1) out @ [NUL]))"

section \<open>strncpy and strtok\<close>

text \<open>\<open>strncpy\<close> pads with NUL up to \<open>n\<close> and writes no terminator behind a longer text.\<close>

definition strncpy :: "char list \<Rightarrow> nat \<Rightarrow> string \<Rightarrow> nat \<Rightarrow> char list cres" where
  "strncpy m off s n = mem_write m off (take n s @ replicate (n - length s) NUL)"

text \<open>
  One call of \<open>strtok_r\<close> on the block \<open>m\<close> with the saved position \<open>p\<close>: the token found and
  the next saved position, or \<open>None\<close>. The delimiter that ends the token is overwritten with NUL.
\<close>

definition strtok_r :: "string \<Rightarrow> char list \<Rightarrow> nat \<Rightarrow> (char list \<times> (string \<times> nat) option) cres" where
  "strtok_r delim m p =
     bindr (cstr (drop p m)) (\<lambda>s.
       let k = length (takeWhile (\<lambda>c. c \<in> set delim) s);
           tok = takeWhile (\<lambda>c. c \<notin> set delim) (drop k s);
           e = p + k + length tok
       in if tok = [] then Ok (m, None)
          else if k + length tok = length s then Ok (m, Some (tok, e))
          else Ok (m[e := NUL], Some (tok, Suc e)))"

text \<open>The list of all tokens of a text, the reference for a complete run of \<open>strtok_r\<close>.\<close>

function tokens :: "string \<Rightarrow> string \<Rightarrow> string list" where
  "tokens delim s =
     (let s' = dropWhile (\<lambda>c. c \<in> set delim) s;
          tok = takeWhile (\<lambda>c. c \<notin> set delim) s'
      in if tok = [] then [] else tok # tokens delim (drop (length tok) s'))"
  by pat_completeness auto
termination
proof (relation "measure (\<lambda>(delim, s). length s)", simp)
  fix delim s s' tok :: string
  assume s': "s' = dropWhile (\<lambda>c. c \<in> set delim) s"
    and tok: "tok = takeWhile (\<lambda>c. c \<notin> set delim) s'" and ne: "tok \<noteq> []"
  have "length s' \<le> length s"
    by (simp add: s' length_dropWhile_le)
  moreover have "0 < length tok" and "length tok \<le> length s'"
    using ne by (simp_all add: tok length_takeWhile_le)
  ultimately have "length s' - length tok < length s"
    by linarith
  then show "((delim, drop (length tok) s'), (delim, s)) \<in> measure (\<lambda>(delim, s). length s)"
    by simp
qed

declare tokens.simps [simp del]

section \<open>Lemmas\<close>

lemma cstr_terminated [simp]: "nul_free s \<Longrightarrow> cstr (s @ NUL # rest) = Ok s"
proof -
  assume "nul_free s"
  then have "takeWhile (\<lambda>c. c \<noteq> NUL) (s @ NUL # rest) = s"
    by (auto simp: nul_free_def takeWhile_tail intro: takeWhile_append2 [THEN trans])
  then show ?thesis by (simp add: cstr_def)
qed

lemma cstr_nul [simp]: "cstr (NUL # rest) = Ok []"
  by (simp add: cstr_def)

lemma cstr_OkE:
  assumes "cstr m = Ok s"
  obtains rest where "m = s @ NUL # rest" and "nul_free s"
proof -
  have in_m: "NUL \<in> set m" and s: "s = takeWhile (\<lambda>c. c \<noteq> NUL) m"
    using assms by (auto simp: cstr_def split: if_splits)
  have "dropWhile (\<lambda>c. c \<noteq> NUL) m \<noteq> []"
    using in_m by (simp add: dropWhile_eq_Nil_conv)
  then obtain c rest where dw: "dropWhile (\<lambda>c. c \<noteq> NUL) m = c # rest"
    by (cases "dropWhile (\<lambda>c. c \<noteq> NUL) m") auto
  then have "c = NUL"
    by (simp add: dropWhile_eq_Cons_conv)
  with dw s have "m = s @ NUL # rest"
    by (metis takeWhile_dropWhile_id)
  moreover have "nul_free s"
    by (auto simp: s nul_free_def dest: set_takeWhileD)
  ultimately show thesis by (rule that)
qed

lemma cstr_nul_free: "cstr m = Ok s \<Longrightarrow> nul_free s"
  by (erule cstr_OkE)

lemma cstr_length: "cstr m = Ok s \<Longrightarrow> length s < length m"
  by (erule cstr_OkE) simp

lemma nul_free_simps [simp]:
  "nul_free []" "nul_free (c # s) \<longleftrightarrow> c \<noteq> NUL \<and> nul_free s"
  "nul_free (a @ b) \<longleftrightarrow> nul_free a \<and> nul_free b"
  by (auto simp: nul_free_def)

lemma nul_free_take [simp]: "nul_free s \<Longrightarrow> nul_free (take n s)"
  by (auto simp: nul_free_def dest: in_set_takeD)

lemma nul_free_drop [simp]: "nul_free s \<Longrightarrow> nul_free (drop n s)"
  by (auto simp: nul_free_def dest: in_set_dropD)

lemma isspace_NUL [simp]: "\<not> isspace NUL"
  by (simp add: isspace_def)

lemma tolower_NUL_iff [simp]: "tolower c = NUL \<longleftrightarrow> c = NUL"
proof
  assume low: "tolower c = NUL"
  show "c = NUL"
  proof (cases "65 \<le> (of_char c :: nat) \<and> (of_char c :: nat) \<le> 90")
    case True
    with low have "char_of (of_char c + 32 :: nat) = NUL"
      by (simp add: tolower_def Let_def)
    then have "(of_char (char_of (of_char c + 32 :: nat)) :: nat) = 0"
      by simp
    with True show ?thesis by (simp add: of_char_of)
  next
    case False
    with low show ?thesis
      by (auto simp: tolower_def Let_def split: if_splits)
  qed
qed (simp add: tolower_def)

lemma strcaseeq_refl [simp]: "strcaseeq s s"
  by (simp add: strcaseeq_def)

lemma strchr_split_Some:
  "strchr_split c s = Some (a, b) \<longleftrightarrow> s = a @ c # b \<and> c \<notin> set a"
proof (induction s arbitrary: a b)
  case Nil
  then show ?case by simp
next
  case (Cons x xs)
  show ?case
  proof (cases "x = c")
    case True
    then show ?thesis by (cases a) auto
  next
    case False
    then have "strchr_split c (x # xs) = Some (a, b) \<longleftrightarrow>
        (\<exists>a'. a = x # a' \<and> strchr_split c xs = Some (a', b))"
      by (auto split: option.splits)
    with False show ?thesis
      by (cases a) (auto simp: Cons.IH)
  qed
qed

lemma strchr_split_None: "strchr_split c s = None \<longleftrightarrow> c \<notin> set s"
  by (induction s) (auto split: option.splits)

lemma byte_of_char_nat: "byte_of_char c = of_nat (of_char c)"
  by (simp add: byte_of_char_def of_nat_of_char)

lemma char_of_byte_inverse [simp]: "byte_of_char (char_of_byte b) = b"
proof -
  have "unat b < 256" by (rule byte_bound)
  then have "(of_char (char_of (unat b)) :: nat) = unat b"
    by simp
  then show ?thesis
    by (simp only: byte_of_char_nat char_of_byte_def of_nat_unat ucast_id)
qed

lemma byte_of_char_inverse [simp]: "char_of_byte (byte_of_char c) = c"
proof -
  have "unat (byte_of_char c) = of_char c"
    by (simp add: byte_of_char_nat unat_of_nat)
  then show ?thesis
    by (simp add: char_of_byte_def)
qed

lemma length_junk_text [simp]: "length (junk_text al n) = n"
  by (simp add: junk_text_def)

lemma vformat_plain: "CHR ''%'' \<notin> set s \<Longrightarrow> vformat s args = Ok s"
  by (induction s) auto

lemma vformat_append_plain:
  "CHR ''%'' \<notin> set s \<Longrightarrow> vformat (s @ t) args = bindr (vformat t args) (\<lambda>r. Ok (s @ r))"
  by (induction s) auto

lemma vsnprintf_plain:
  assumes "CHR ''%'' \<notin> set s" and "0 < cap" and "cap \<le> length m"
  shows "vsnprintf m cap s args =
           Ok (take (cap - 1) s @ NUL # drop (Suc (min (length s) (cap - 1))) m)"
  using assms by (simp add: vsnprintf_def vformat_plain mem_write_def)

end
