(* ===== verification/Util_Str.thy ===== *)
theory Util_Str
  imports C_String
begin

text \<open>
  The string buffer \<open>str_t\<close> of \<open>util.c\<close>: a fixed character array with the length of the
  text in it. \<open>str_ok\<close> is its invariant and \<open>str_val\<close> the text it holds.

  \<open>str_set_string\<close> passes its second argument to \<open>vsnprintf\<close> as the format, as the code does.
\<close>

section \<open>The structure and its operations\<close>

record str_t =
  s_buffer :: "char list"
  s_length :: nat
  s_capacity :: nat

text \<open>\<open>sz_tolower\<close>: the loop over a terminated text, in place.\<close>

fun sz_tolower :: "string \<Rightarrow> string" where
  "sz_tolower [] = []"
| "sz_tolower (c # cs) = tolower c # sz_tolower cs"

definition str_init :: "char list \<Rightarrow> nat \<Rightarrow> str_t cres" where
  "str_init buf sz =
     bindr (mem_set buf 0 NUL) (\<lambda>m. Ok \<lparr>s_buffer = m, s_length = 0, s_capacity = sz\<rparr>)"

definition str_clear :: "str_t \<Rightarrow> str_t cres" where
  "str_clear str =
     bindr (mem_set (s_buffer str) 0 NUL) (\<lambda>m. Ok (str\<lparr>s_buffer := m, s_length := 0\<rparr>))"

definition str_get_length :: "str_t \<Rightarrow> nat" where
  "str_get_length str = s_length str"

definition str_get_capacity :: "str_t \<Rightarrow> nat" where
  "str_get_capacity str = s_capacity str"

definition str_get_string :: "str_t \<Rightarrow> char list" where
  "str_get_string str = s_buffer str"

definition str_set_vstring :: "str_t \<Rightarrow> string \<Rightarrow> string list \<Rightarrow> str_t cres" where
  "str_set_vstring str fmt ap =
     bindr (vsnprintf (s_buffer str) (s_capacity str) fmt ap) (\<lambda>m.
     bindr (cstr m) (\<lambda>s. Ok (str\<lparr>s_buffer := m, s_length := length s\<rparr>)))"

definition str_set_string :: "str_t \<Rightarrow> string \<Rightarrow> string list \<Rightarrow> str_t cres" where
  "str_set_string str fmt args = str_set_vstring str fmt args"

fun str_setn_loop :: "char list \<Rightarrow> string \<Rightarrow> nat \<Rightarrow> nat \<Rightarrow> (char list \<times> nat) cres" where
  "str_setn_loop m [] i maxsize = Ok (m, i)"
| "str_setn_loop m (c # cs) i maxsize =
     (if i < maxsize
      then bindr (mem_set m i c) (\<lambda>m'. str_setn_loop m' cs (Suc i) maxsize)
      else Ok (m, i))"

definition str_setn_string :: "str_t \<Rightarrow> string \<Rightarrow> nat \<Rightarrow> str_t cres" where
  "str_setn_string str str_in maxsize =
     (let n = (if s_capacity str \<le> maxsize then size_sub (s_capacity str) 1 else maxsize) in
      bindr (str_setn_loop (s_buffer str) str_in 0 n) (\<lambda>(m, i).
      bindr (mem_set m i NUL) (\<lambda>m'. Ok (str\<lparr>s_buffer := m', s_length := i\<rparr>))))"

definition str_copy_string :: "str_t \<Rightarrow> str_t \<Rightarrow> str_t cres" where
  "str_copy_string dst src =
     bindr (cstr (str_get_string src)) (\<lambda>s. str_set_string dst s [])"

fun str_trim_beginning :: "str_t \<Rightarrow> string \<Rightarrow> str_t cres" where
  "str_trim_beginning str [] = str_set_string str [] []"
| "str_trim_beginning str (c # cs) =
     (if isspace c then str_trim_beginning str cs else str_set_string str (c # cs) [])"

text \<open>The loop of \<open>str_trim_whitespace\<close>: positions of the first and the last non-space.\<close>

fun trim_scan :: "string \<Rightarrow> nat \<Rightarrow> nat option \<Rightarrow> nat option \<Rightarrow> nat option \<times> nat option" where
  "trim_scan [] i fst_p lst_p = (fst_p, lst_p)"
| "trim_scan (c # cs) i fst_p lst_p =
     (if isspace c then trim_scan cs (Suc i) fst_p lst_p
      else trim_scan cs (Suc i) (if fst_p = None then Some i else fst_p) (Some i))"

definition str_trim_whitespace :: "str_t \<Rightarrow> string \<Rightarrow> str_t cres" where
  "str_trim_whitespace str str_in =
     (case trim_scan str_in 0 None None of
        (Some fst_p, Some lst_p) \<Rightarrow>
          str_setn_string str (drop fst_p str_in) (size_add (size_sub lst_p fst_p) 1)
      | _ \<Rightarrow> str_set_string str [] [])"

definition str_append_char :: "str_t \<Rightarrow> char \<Rightarrow> str_t cres" where
  "str_append_char str ch =
     (if size_add (s_length str) 1 = s_capacity str then Ok str
      else
        bindr (mem_set (s_buffer str) (s_length str) ch) (\<lambda>m.
        bindr (mem_set m (s_length str + 1) NUL) (\<lambda>m'.
        Ok (str\<lparr>s_buffer := m', s_length := size_add (s_length str) 1\<rparr>))))"

fun str_tolower_loop :: "char list \<Rightarrow> nat \<Rightarrow> nat \<Rightarrow> char list cres" where
  "str_tolower_loop m i 0 = Ok m"
| "str_tolower_loop m i (Suc k) =
     bindr (mem_get m i) (\<lambda>c.
     bindr (mem_set m i (tolower c)) (\<lambda>m'. str_tolower_loop m' (Suc i) k))"

definition str_tolower :: "str_t \<Rightarrow> str_t cres" where
  "str_tolower str =
     bindr (str_tolower_loop (s_buffer str) 0 (s_length str)) (\<lambda>m. Ok (str\<lparr>s_buffer := m\<rparr>))"

definition str_is_equal_nocase :: "str_t \<Rightarrow> string \<Rightarrow> bool cres" where
  "str_is_equal_nocase str other =
     bindr (cstr (s_buffer str)) (\<lambda>s. Ok (strcaseeq s other))"

section \<open>The invariant\<close>

text \<open>
  \<open>str_ok\<close>: the array has the recorded capacity and holds a text of the recorded length and
  its terminator. \<open>str_of cap s\<close> builds such a buffer, for concrete runs.
\<close>

definition str_val :: "str_t \<Rightarrow> string" where
  "str_val str = takeWhile (\<lambda>c. c \<noteq> NUL) (s_buffer str)"

definition str_ok :: "str_t \<Rightarrow> bool" where
  "str_ok str \<longleftrightarrow> length (s_buffer str) = s_capacity str \<and> s_capacity str < SIZE_MOD
     \<and> cstr (s_buffer str) = Ok (str_val str) \<and> s_length str = length (str_val str)"

definition str_of :: "nat \<Rightarrow> string \<Rightarrow> str_t" where
  "str_of cap s = \<lparr>s_buffer = s @ replicate (cap - length s) NUL,
     s_length = length s, s_capacity = cap\<rparr>"

text \<open>The text without the white space around it, the reference for \<open>str_trim_whitespace\<close>.\<close>

definition strip :: "string \<Rightarrow> string" where
  "strip s = rev (dropWhile isspace (rev (dropWhile isspace s)))"

section \<open>Lemmas\<close>

lemma str_okE:
  assumes "str_ok str"
  obtains rest where "s_buffer str = str_val str @ NUL # rest"
    and "length (s_buffer str) = s_capacity str" and "nul_free (str_val str)"
    and "s_length str = length (str_val str)" and "s_length str < s_capacity str"
    and "s_capacity str < SIZE_MOD"
proof -
  have c: "cstr (s_buffer str) = Ok (str_val str)"
    and f: "length (s_buffer str) = s_capacity str" "s_length str = length (str_val str)"
      "s_capacity str < SIZE_MOD"
    using assms by (simp_all add: str_ok_def)
  from c obtain rest where "s_buffer str = str_val str @ NUL # rest" "nul_free (str_val str)"
    by (rule cstr_OkE)
  moreover from c f have "s_length str < s_capacity str"
    by (metis cstr_length)
  ultimately show thesis using f that by blast
qed

lemma str_okI:
  assumes "s_buffer str = s @ NUL # rest" and "nul_free s" and "s_length str = length s"
    and "length (s_buffer str) = s_capacity str" and "s_capacity str < SIZE_MOD"
  shows "str_ok str" and "str_val str = s"
proof -
  have c: "cstr (s_buffer str) = Ok s"
    using assms by simp
  then show v: "str_val str = s"
    by (simp add: cstr_def str_val_def split: if_splits)
  show "str_ok str"
    using assms c by (simp add: str_ok_def v)
qed

lemma str_ok_capacity: "str_ok str \<Longrightarrow> 0 < s_capacity str"
  by (erule str_okE) simp

lemma str_of_ok:
  assumes "nul_free s" and "length s < cap" and "cap < SIZE_MOD"
  shows "str_ok (str_of cap s)" and "str_val (str_of cap s) = s"
proof -
  have "replicate (cap - length s) NUL = NUL # replicate (cap - length s - 1) NUL"
    using assms(2) by (metis Suc_diff_1 replicate_Suc zero_less_diff)
  then have buf: "s_buffer (str_of cap s) = s @ NUL # replicate (cap - length s - 1) NUL"
    by (simp add: str_of_def)
  from str_okI [OF buf assms(1)] assms
  show "str_ok (str_of cap s)" and "str_val (str_of cap s) = s"
    by (simp_all add: str_of_def)
qed

lemma str_init_spec:
  assumes "length buf = sz" and "0 < sz" and "sz < SIZE_MOD"
  shows "\<exists>str. str_init buf sz = Ok str \<and> str_ok str \<and> str_val str = [] \<and> s_capacity str = sz"
proof -
  obtain c cs where buf: "buf = c # cs"
    using assms by (cases buf) auto
  let ?str = "\<lparr>s_buffer = NUL # cs, s_length = 0, s_capacity = sz\<rparr>"
  have "s_buffer ?str = [] @ NUL # cs" by simp
  then have "str_ok ?str" and "str_val ?str = []"
    using str_okI [of ?str "[]" cs] assms buf by auto
  moreover have "str_init buf sz = Ok ?str"
    by (simp add: str_init_def mem_set_def buf)
  ultimately show ?thesis by auto
qed

text \<open>Storing a text and its terminator at the front of the array.\<close>

definition str_store :: "str_t \<Rightarrow> string \<Rightarrow> str_t" where
  "str_store str t =
     str\<lparr>s_buffer := t @ NUL # drop (Suc (length t)) (s_buffer str), s_length := length t\<rparr>"

lemma str_store_ok:
  assumes "str_ok str" and "nul_free t" and "length t < s_capacity str"
  shows "str_ok (str_store str t)" and "str_val (str_store str t) = t"
    and "s_capacity (str_store str t) = s_capacity str"
proof -
  have len: "length (s_buffer str) = s_capacity str" and mx: "s_capacity str < SIZE_MOD"
    using assms(1) by (auto elim: str_okE)
  have buf: "s_buffer (str_store str t) = t @ NUL # drop (Suc (length t)) (s_buffer str)"
    by (simp add: str_store_def)
  from str_okI [OF buf assms(2)] len mx assms(3)
  show "str_ok (str_store str t)" and "str_val (str_store str t) = t"
    by (simp_all add: str_store_def)
  show "s_capacity (str_store str t) = s_capacity str"
    by (simp add: str_store_def)
qed

lemma str_clear_eq: "str_ok str \<Longrightarrow> str_clear str = Ok (str_store str [])"
  by (cases "s_buffer str") (auto simp: str_clear_def str_store_def mem_set_def elim: str_okE)

text \<open>What a formatted write stores: the formatted text, cut to the capacity.\<close>

lemma str_set_string_formatted:
  assumes "str_ok str" and "vformat fmt args = Ok out" and "nul_free out"
  shows "str_set_string str fmt args = Ok (str_store str (take (s_capacity str - 1) out))"
proof -
  have len: "length (s_buffer str) = s_capacity str" and cap: "0 < s_capacity str"
    using assms(1) str_ok_capacity by (auto elim: str_okE)
  have "vsnprintf (s_buffer str) (s_capacity str) fmt args
      = Ok (s_buffer (str_store str (take (s_capacity str - 1) out)))"
    using assms(2) len cap by (simp add: vsnprintf_def mem_write_def str_store_def)
  then show ?thesis
    using assms(3) by (simp add: str_set_string_def str_set_vstring_def str_store_def)
qed

lemma str_set_string_plain:
  assumes "str_ok str" and "CHR ''%'' \<notin> set s" and "nul_free s"
  shows "str_set_string str s args = Ok (str_store str (take (s_capacity str - 1) s))"
  using assms by (intro str_set_string_formatted vformat_plain)

lemma str_set_string_empty: "str_ok str \<Longrightarrow> str_set_string str [] args = Ok (str_store str [])"
  using str_set_string_plain [of str "[]"] by simp

lemma str_trim_beginning_eq:
  "str_trim_beginning str s = str_set_string str (dropWhile isspace s) []"
  by (induction s) auto

lemma str_setn_loop_spec:
  assumes "length m = cap" and "maxsize < cap" and "i \<le> maxsize" and "i + length t \<le> maxsize"
    and "t = take (maxsize - i) s"
  shows "str_setn_loop m s i maxsize = Ok (take i m @ t @ drop (i + length t) m, i + length t)"
  using assms
proof (induction s arbitrary: m i t)
  case Nil
  then show ?case by simp
next
  case (Cons c cs)
  show ?case
  proof (cases "i < maxsize")
    case False
    then show ?thesis using Cons.prems by simp
  next
    case True
    then obtain t' where t: "t = c # t'" and t': "t' = take (maxsize - Suc i) cs"
      using Cons.prems(5) by (simp add: Suc_diff_Suc [symmetric])
    have "str_setn_loop (m[i := c]) cs (Suc i) maxsize =
        Ok (take (Suc i) (m[i := c]) @ t' @ drop (Suc i + length t') (m[i := c]), Suc i + length t')"
      using Cons.prems True t t' by (intro Cons.IH) auto
    moreover have "i < length m" using Cons.prems True by simp
    ultimately show ?thesis
      using True by (simp add: mem_set_def t take_Suc_conv_app_nth)
  qed
qed

lemma str_setn_string_eq:
  assumes "str_ok str"
  shows "str_setn_string str s maxsize
           = Ok (str_store str (take (min maxsize (s_capacity str - 1)) s))"
proof -
  let ?n = "min maxsize (s_capacity str - 1)"
  let ?t = "take ?n s"
  have len: "length (s_buffer str) = s_capacity str" and cap: "0 < s_capacity str"
    and mx: "s_capacity str < SIZE_MOD"
    using assms(1) str_ok_capacity by (auto elim: str_okE)
  have n: "(if s_capacity str \<le> maxsize then size_sub (s_capacity str) 1 else maxsize) = ?n"
    using cap mx by (auto simp: size_sub_exact)
  have "str_setn_loop (s_buffer str) s 0 ?n
      = Ok (take 0 (s_buffer str) @ ?t @ drop (0 + length ?t) (s_buffer str), 0 + length ?t)"
    using len cap by (intro str_setn_loop_spec) auto
  moreover have "length ?t < length (s_buffer str)"
    using len cap by auto
  then have "mem_set (?t @ drop (length ?t) (s_buffer str)) (length ?t) NUL
      = Ok (?t @ NUL # drop (Suc (length ?t)) (s_buffer str))"
    by (rule mem_set_behind)
  ultimately show ?thesis
    by (simp add: str_setn_string_def n Let_def str_store_def)
qed

text \<open>Storing over the text the buffer already holds keeps what is behind the terminator.\<close>

lemma str_copy_string_eq:
  assumes "str_ok dst" and "str_ok src" and "CHR ''%'' \<notin> set (str_val src)"
  shows "str_copy_string dst src = Ok (str_store dst (take (s_capacity dst - 1) (str_val src)))"
proof -
  have c: "cstr (s_buffer src) = Ok (str_val src)"
    using assms(2) by (simp add: str_ok_def)
  then have "nul_free (str_val src)"
    by (rule cstr_nul_free)
  with c show ?thesis
    using assms by (simp add: str_copy_string_def str_get_string_def str_set_string_plain)
qed

lemma str_append_char_eq:
  assumes "str_ok str" and "ch \<noteq> NUL"
  shows "str_append_char str ch =
     Ok (if Suc (s_length str) = s_capacity str then str else str_store str (str_val str @ [ch]))"
proof -
  obtain rest where buf: "s_buffer str = str_val str @ NUL # rest"
    and len: "length (s_buffer str) = s_capacity str" and ln: "s_length str = length (str_val str)"
    and lt: "s_length str < s_capacity str" and mx: "s_capacity str < SIZE_MOD"
    using assms(1) by (elim str_okE)
  have plus: "size_add (s_length str) (Suc 0) = Suc (s_length str)"
    using lt mx by (simp add: size_add_exact)
  show ?thesis
  proof (cases "Suc (s_length str) = s_capacity str")
    case True
    then show ?thesis by (simp add: str_append_char_def plus)
  next
    case False
    then have "rest \<noteq> []"
      using buf len ln lt by auto
    then obtain r rs where rest: "rest = r # rs"
      by (cases rest) auto
    have 1: "mem_set (s_buffer str) (s_length str) ch = Ok (str_val str @ ch # rest)"
      by (simp add: mem_set_def buf ln)
    have 2: "mem_set (str_val str @ ch # rest) (s_length str + 1) NUL
        = Ok ((str_val str @ [ch]) @ NUL # rs)"
      by (simp add: mem_set_def rest ln list_update_append)
    have "str\<lparr>s_buffer := (str_val str @ [ch]) @ NUL # rs, s_length := Suc (s_length str)\<rparr>
        = str_store str (str_val str @ [ch])"
      by (simp add: str_store_def buf ln rest)
    then show ?thesis
      using False plus by (simp add: str_append_char_def 1 2 [simplified])
  qed
qed

lemma str_tolower_loop_eq:
  "str_tolower_loop (a @ b @ r) (length a) (length b) = Ok (a @ map tolower b @ r)"
proof (induction b arbitrary: a)
  case Nil
  then show ?case by simp
next
  case (Cons c cs)
  have "str_tolower_loop ((a @ [tolower c]) @ cs @ r) (length (a @ [tolower c])) (length cs)
      = Ok ((a @ [tolower c]) @ map tolower cs @ r)"
    by (rule Cons.IH)
  then show ?case
    by (simp add: mem_get_def mem_set_def)
qed

lemma str_tolower_eq:
  assumes "str_ok str"
  shows "str_tolower str = Ok (str_store str (map tolower (str_val str)))"
proof -
  obtain rest where buf: "s_buffer str = str_val str @ NUL # rest"
    and ln: "s_length str = length (str_val str)"
    using assms by (elim str_okE)
  have "str_tolower_loop (s_buffer str) 0 (s_length str)
      = Ok (map tolower (str_val str) @ NUL # rest)"
    using str_tolower_loop_eq [of "[]" "str_val str" "NUL # rest"] by (simp add: buf ln)
  then show ?thesis
    using ln by (simp add: str_tolower_def str_store_def buf)
qed

lemma nul_free_map_tolower [simp]: "nul_free (map tolower s) = nul_free s"
  by (induction s) auto

lemma str_is_equal_nocase_eq:
  "str_ok str \<Longrightarrow> str_is_equal_nocase str other = Ok (strcaseeq (str_val str) other)"
  by (simp add: str_is_equal_nocase_def str_ok_def)

section \<open>Trimming\<close>

lemma trim_scan_spaces:
  "\<forall>c \<in> set a. isspace c \<Longrightarrow> trim_scan (a @ s) i f l = trim_scan s (i + length a) f l"
  by (induction a arbitrary: i) auto

lemma trim_scan_last:
  "\<not> isspace c \<Longrightarrow> trim_scan (w @ [c]) i (Some f) l = (Some f, Some (i + length w))"
  by (induction w arbitrary: i l) auto

lemma trim_scan_word:
  assumes "w \<noteq> []" and "\<not> isspace (hd w)" and "\<not> isspace (last w)"
    and "\<forall>c \<in> set a. isspace c" and "\<forall>c \<in> set b. isspace c"
  shows "trim_scan (a @ w @ b) 0 None None = (Some (length a), Some (length a + length w - 1))"
proof -
  have scan: "trim_scan w i None None = (Some i, Some (i + length w - 1))" for i
  proof (cases w)
    case (Cons c cs)
    with assms(2) have c: "\<not> isspace c" by simp
    show ?thesis
    proof (cases "cs = []")
      case True
      then show ?thesis using Cons c by simp
    next
      case False
      then have cs: "cs = butlast cs @ [last cs]" and "last w = last cs"
        using Cons by simp_all
      with assms(3) have "trim_scan cs (Suc i) (Some i) (Some i)
          = (Some i, Some (Suc i + length (butlast cs)))"
        by (metis trim_scan_last)
      then show ?thesis
        using Cons c False by (simp add: Suc_le_eq)
    qed
  qed (use assms(1) in simp)
  have tail: "trim_scan (w @ b) i f l = trim_scan w i f l" for i f l
  proof (induction w arbitrary: i f l)
    case Nil
    then show ?case using trim_scan_spaces [OF assms(5), of "[]"] by simp
  qed auto
  show ?thesis
    using trim_scan_spaces [OF assms(4), of "w @ b" 0 None None] scan [of "length a"] tail
    by simp
qed

lemma strip_decomp:
  obtains a b where "s = a @ strip s @ b" and "\<forall>c \<in> set a. isspace c" and "\<forall>c \<in> set b. isspace c"
proof
  let ?u = "dropWhile isspace s"
  have "?u = strip s @ rev (takeWhile isspace (rev ?u))"
    by (metis rev_append rev_rev_ident strip_def takeWhile_dropWhile_id)
  then show "s = takeWhile isspace s @ strip s @ rev (takeWhile isspace (rev ?u))"
    by (metis takeWhile_dropWhile_id)
qed (auto dest: set_takeWhileD)

lemma strip_ends:
  assumes "strip s \<noteq> []"
  shows "\<not> isspace (hd (strip s))" and "\<not> isspace (last (strip s))"
proof -
  let ?u = "dropWhile isspace s"
  have ne: "dropWhile isspace (rev ?u) \<noteq> []"
    using assms by (simp add: strip_def)
  then show "\<not> isspace (last (strip s))"
    by (simp add: strip_def last_rev hd_dropWhile)
  have u: "?u = strip s @ rev (takeWhile isspace (rev ?u))"
    by (metis rev_append rev_rev_ident strip_def takeWhile_dropWhile_id)
  then have "?u \<noteq> []" using assms by (metis Nil_is_append_conv)
  then have "\<not> isspace (hd ?u)" by (rule hd_dropWhile)
  then show "\<not> isspace (hd (strip s))"
    using u assms by (metis hd_append2)
qed

lemma str_trim_whitespace_eq:
  assumes ok: "str_ok str" and len: "length s < SIZE_MOD"
  shows "str_trim_whitespace str s = Ok (str_store str (take (s_capacity str - 1) (strip s)))"
proof -
  obtain a b where s: "s = a @ strip s @ b" and sp: "\<forall>c \<in> set a. isspace c" "\<forall>c \<in> set b. isspace c"
    by (rule strip_decomp)
  show ?thesis
  proof (cases "strip s = []")
    case True
    with s sp have "trim_scan s 0 None None = (None, None)"
      using trim_scan_spaces [of "a @ b" "[]" 0 None None] by auto
    then show ?thesis
      using ok True by (simp add: str_trim_whitespace_def str_set_string_empty)
  next
    case False
    let ?w = "strip s"
    have scan: "trim_scan s 0 None None = (Some (length a), Some (length a + length ?w - 1))"
      by (subst s) (intro trim_scan_word False strip_ends sp)
    have tot: "length s = length a + length ?w + length b"
      by (subst s) simp
    have pos: "0 < length ?w" using False by simp
    have "size_sub (length a + length ?w - 1) (length a) = length ?w - 1"
      using pos tot len by (subst size_sub_exact) arith+
    moreover have "size_add (length ?w - 1) 1 = length ?w"
      using pos tot len by (subst size_add_exact) arith+
    ultimately have n: "size_add (size_sub (length a + length ?w - 1) (length a)) 1 = length ?w"
      by simp
    have "drop (length a) s = ?w @ b"
      using s by (metis append_eq_conv_conj)
    then have "take (min (length ?w) k) (drop (length a) s) = take k ?w" for k
      by (simp add: min_def)
    then show ?thesis
      using ok by (simp add: str_trim_whitespace_def scan n [simplified] str_setn_string_eq)
  qed
qed

end
