(* ===== verification/ParseConfig.thy ===== *)
theory ParseConfig
  imports Util_Str
begin

text \<open>
  \<open>parseconfig.c\<close>, the configuration.

  libyaml is not part of the program: \<open>config_parse\<close> takes the sequence of tokens its scanner
  delivers (\<open>None\<close> when the file cannot be opened or the parser cannot be set up). When the
  scanner fails it delivers a token of type \<open>YAML_NO_TOKEN\<close>, here the end of the list.
  \<open>fnmatch\<close> is the parameter of \<open>config_check_origin\<close>.
\<close>

section \<open>Log levels\<close>

datatype log_level =
  LOG_EMERG | LOG_ALERT | LOG_CRIT | LOG_ERR | LOG_WARNING | LOG_NOTICE | LOG_INFO | LOG_DEBUG

fun log_number :: "log_level \<Rightarrow> nat" where
  "log_number LOG_EMERG = 0"
| "log_number LOG_ALERT = 1"
| "log_number LOG_CRIT = 2"
| "log_number LOG_ERR = 3"
| "log_number LOG_WARNING = 4"
| "log_number LOG_NOTICE = 5"
| "log_number LOG_INFO = 6"
| "log_number LOG_DEBUG = 7"

instantiation log_level :: linorder
begin

definition less_eq_log_level :: "log_level \<Rightarrow> log_level \<Rightarrow> bool" where
  "less_eq_log_level a b \<longleftrightarrow> log_number a \<le> log_number b"

definition less_log_level :: "log_level \<Rightarrow> log_level \<Rightarrow> bool" where
  "less_log_level a b \<longleftrightarrow> log_number a < log_number b"

instance
proof
  fix x y :: log_level
  assume "x \<le> y" and "y \<le> x"
  then show "x = y"
    by (cases x; cases y) (simp_all add: less_eq_log_level_def)
qed (auto simp: less_eq_log_level_def less_log_level_def)

end

section \<open>The configuration\<close>

record jsconf_t =
  cf_port :: "string option"
  cf_origin_list :: "string list"
  cf_cidr :: "string option"
  cf_host :: "string option"
  cf_resource :: "string option"
  cf_log_level :: log_level
  cf_max_message_size :: int
  cf_max_frame_size :: int

definition sizeof_jsconf_t :: nat where
  "sizeof_jsconf_t = 56"

definition sizeof_origin_t :: nat where
  "sizeof_origin_t = 16"

definition empty_conf :: jsconf_t where
  "empty_conf = \<lparr>cf_port = None, cf_origin_list = [], cf_cidr = None, cf_host = None,
     cf_resource = None, cf_log_level = LOG_ERR, cf_max_message_size = 0, cf_max_frame_size = 0\<rparr>"

definition config_create :: "allocator \<Rightarrow> jsconf_t option" where
  "config_create al = (if granted al sizeof_jsconf_t then Some empty_conf else None)"

datatype yaml_token =
    YAML_STREAM_START_TOKEN
  | YAML_STREAM_END_TOKEN
  | YAML_KEY_TOKEN
  | YAML_VALUE_TOKEN
  | YAML_BLOCK_SEQUENCE_START_TOKEN
  | YAML_BLOCK_ENTRY_TOKEN
  | YAML_BLOCK_END_TOKEN
  | YAML_BLOCK_MAPPING_START_TOKEN
  | YAML_SCALAR_TOKEN string
  | YAML_OTHER_TOKEN nat

section \<open>Numbers and keys\<close>

text \<open>\<open>atoi\<close>: white space, an optional sign, digits; the behaviour on overflow is undefined.\<close>

definition isdigit :: "char \<Rightarrow> bool" where
  "isdigit c \<longleftrightarrow> 48 \<le> (of_char c :: nat) \<and> (of_char c :: nat) \<le> 57"

fun digits_val :: "int \<Rightarrow> string \<Rightarrow> int" where
  "digits_val acc [] = acc"
| "digits_val acc (c # cs) =
     (if isdigit c then digits_val (10 * acc + (of_char c - 48)) cs else acc)"

definition atoi :: "string \<Rightarrow> int cres" where
  "atoi s =
     (let t = dropWhile isspace s;
          v = (case t of
                 [] \<Rightarrow> 0
               | c # cs \<Rightarrow>
                   if c = CHR ''-'' then - digits_val 0 cs
                   else if c = CHR ''+'' then digits_val 0 cs
                   else digits_val 0 t)
      in if in_int_range v then Ok v else Fault Signed_Overflow)"

text \<open>
  \<open>strcmp(key, literal) == 0\<close> for the array \<open>key\<close>. The comparison stops at the first
  difference, so it never reads behind the literal's terminator.
\<close>

definition key_is :: "char list \<Rightarrow> string \<Rightarrow> bool" where
  "key_is key lit \<longleftrightarrow> take (Suc (length lit)) key = lit @ [NUL]"

definition strdup_ok :: "allocator \<Rightarrow> string \<Rightarrow> bool" where
  "strdup_ok al s \<longleftrightarrow> granted al (Suc (length s))"

section \<open>Parsing\<close>

definition log_level_of :: "string \<Rightarrow> log_level \<Rightarrow> log_level" where
  "log_level_of value old =
     (if value = ''LOG_EMERG'' then LOG_EMERG
      else if value = ''LOG_ALERT'' then LOG_ALERT
      else if value = ''LOG_CRIT'' then LOG_CRIT
      else if value = ''LOG_ERR'' then LOG_ERR
      else if value = ''LOG_WARNING'' then LOG_WARNING
      else if value = ''LOG_NOTICE'' then LOG_NOTICE
      else if value = ''LOG_INFO'' then LOG_INFO
      else if value = ''LOG_DEBUG'' then LOG_DEBUG
      else old)"

text \<open>The scalar of a mapping entry at level 1, stored under its key.\<close>

definition config_value :: "allocator \<Rightarrow> char list \<Rightarrow> string \<Rightarrow> jsconf_t \<Rightarrow> jsconf_t cres" where
  "config_value al key value conf =
     (if key_is key ''port'' then
        Ok (if strdup_ok al value then conf\<lparr>cf_port := Some value\<rparr> else conf)
      else if key_is key ''listen'' then
        Ok (if strdup_ok al value then conf\<lparr>cf_cidr := Some value\<rparr> else conf)
      else if key_is key ''host'' then
        Ok (if strdup_ok al value then conf\<lparr>cf_host := Some value\<rparr> else conf)
      else if key_is key ''resource'' then
        Ok (if strdup_ok al value then conf\<lparr>cf_resource := Some value\<rparr> else conf)
      else if key_is key ''log_level'' then
        Ok (conf\<lparr>cf_log_level := log_level_of value (cf_log_level conf)\<rparr>)
      else if key_is key ''max_message_size'' then
        bindr (atoi value) (\<lambda>v. Ok (conf\<lparr>cf_max_message_size := v\<rparr>))
      else if key_is key ''max_frame_size'' then
        bindr (atoi value) (\<lambda>v. Ok (conf\<lparr>cf_max_frame_size := v\<rparr>))
      else Ok conf)"

text \<open>
  The scalar branch of the loop: the key array after \<open>strncpy\<close>, then the origin list, then the
  values. \<open>None\<close> is the jump to \<open>Exit\<close> when the new list element cannot be allocated.
\<close>

definition config_scalar ::
  "allocator \<Rightarrow> yaml_token option \<Rightarrow> int \<Rightarrow> char list \<Rightarrow> string \<Rightarrow> jsconf_t
     \<Rightarrow> (char list \<times> jsconf_t) option cres" where
  "config_scalar al prev level key value conf =
     bindr (if prev = Some YAML_KEY_TOKEN then strncpy key 0 value 128 else Ok key) (\<lambda>key'.
     bindr (if prev = Some YAML_BLOCK_ENTRY_TOKEN \<and> level = 2 \<and> key_is key' ''origin''
            then if \<not> granted al sizeof_origin_t then Ok None
                 else if \<not> strdup_ok al value then Fault Null_Pointer
                 else Ok (Some (conf\<lparr>cf_origin_list := sz_tolower value # cf_origin_list conf\<rparr>))
            else Ok (Some conf)) (\<lambda>oc.
     case oc of
       None \<Rightarrow> Ok None
     | Some conf' \<Rightarrow>
         if prev = Some YAML_VALUE_TOKEN \<and> level = 1
         then bindr (config_value al key' value conf') (\<lambda>conf''. Ok (Some (key', conf'')))
         else Ok (Some (key', conf'))))"

fun config_loop ::
  "allocator \<Rightarrow> yaml_token list \<Rightarrow> yaml_token option \<Rightarrow> int \<Rightarrow> char list \<Rightarrow> jsconf_t
     \<Rightarrow> (bool \<times> jsconf_t) cres" where
  "config_loop al [] prev level key conf = Ok (False, conf)"
| "config_loop al (token # ts) prev level key conf =
     (case token of
        YAML_STREAM_START_TOKEN \<Rightarrow> config_loop al ts (Some token) level key conf
      | YAML_STREAM_END_TOKEN \<Rightarrow> Ok (True, conf)
      | YAML_KEY_TOKEN \<Rightarrow> config_loop al ts (Some token) level key conf
      | YAML_VALUE_TOKEN \<Rightarrow> config_loop al ts (Some token) level key conf
      | YAML_BLOCK_SEQUENCE_START_TOKEN \<Rightarrow> config_loop al ts (Some token) (level + 1) key conf
      | YAML_BLOCK_ENTRY_TOKEN \<Rightarrow> config_loop al ts (Some token) level key conf
      | YAML_BLOCK_END_TOKEN \<Rightarrow> config_loop al ts (Some token) (level - 1) key conf
      | YAML_BLOCK_MAPPING_START_TOKEN \<Rightarrow> config_loop al ts (Some token) (level + 1) key conf
      | YAML_SCALAR_TOKEN value \<Rightarrow>
          bindr (config_scalar al prev level key value conf) (\<lambda>r.
          case r of
            None \<Rightarrow> Ok (False, conf)
          | Some (key', conf') \<Rightarrow> config_loop al ts (Some token) level key' conf')
      | YAML_OTHER_TOKEN t \<Rightarrow> Ok (False, conf))"

text \<open>The array \<open>key\<close> is not initialised: \<open>key0\<close> is what the stack holds.\<close>

definition config_parse ::
  "allocator \<Rightarrow> char list \<Rightarrow> yaml_token list option \<Rightarrow> jsconf_t \<Rightarrow> (bool \<times> jsconf_t) cres" where
  "config_parse al key0 yaml conf =
     (case yaml of None \<Rightarrow> Ok (False, conf) | Some ts \<Rightarrow> config_loop al ts None 0 key0 conf)"

fun check_origin_loop :: "(string \<Rightarrow> string \<Rightarrow> bool) \<Rightarrow> string list \<Rightarrow> string \<Rightarrow> bool" where
  "check_origin_loop fnm [] origin = False"
| "check_origin_loop fnm (url # urls) origin =
     (if fnm url origin then True else check_origin_loop fnm urls origin)"

definition config_check_origin :: "(string \<Rightarrow> string \<Rightarrow> bool) \<Rightarrow> jsconf_t \<Rightarrow> string \<Rightarrow> bool" where
  "config_check_origin fnm conf origin =
     (if cf_origin_list conf = [] then True
      else check_origin_loop fnm (cf_origin_list conf) origin)"

section \<open>Configuration documents\<close>

text \<open>
  What a block-style YAML document of the shape the manual shows means: a mapping whose values
  are scalars or indented sequences of scalars, and the tokens libyaml documents for it.
\<close>

datatype yaml_value = Scalar string | Sequence "string list"

type_synonym yaml_doc = "(string \<times> yaml_value) list"

fun value_tokens :: "yaml_value \<Rightarrow> yaml_token list" where
  "value_tokens (Scalar v) = [YAML_SCALAR_TOKEN v]"
| "value_tokens (Sequence vs) =
     YAML_BLOCK_SEQUENCE_START_TOKEN
     # concat (map (\<lambda>v. [YAML_BLOCK_ENTRY_TOKEN, YAML_SCALAR_TOKEN v]) vs)
     @ [YAML_BLOCK_END_TOKEN]"

fun entry_tokens :: "string \<times> yaml_value \<Rightarrow> yaml_token list" where
  "entry_tokens (k, v) = [YAML_KEY_TOKEN, YAML_SCALAR_TOKEN k, YAML_VALUE_TOKEN] @ value_tokens v"

definition doc_tokens :: "yaml_doc \<Rightarrow> yaml_token list" where
  "doc_tokens doc =
     [YAML_STREAM_START_TOKEN, YAML_BLOCK_MAPPING_START_TOKEN] @ concat (map entry_tokens doc)
     @ [YAML_BLOCK_END_TOKEN, YAML_STREAM_END_TOKEN]"

fun entry_meaning :: "string \<times> yaml_value \<Rightarrow> jsconf_t \<Rightarrow> jsconf_t" where
  "entry_meaning (k, Scalar v) conf =
     (if k = ''port'' then conf\<lparr>cf_port := Some v\<rparr>
      else if k = ''listen'' then conf\<lparr>cf_cidr := Some v\<rparr>
      else if k = ''host'' then conf\<lparr>cf_host := Some v\<rparr>
      else if k = ''resource'' then conf\<lparr>cf_resource := Some v\<rparr>
      else if k = ''log_level'' then conf\<lparr>cf_log_level := log_level_of v (cf_log_level conf)\<rparr>
      else if k = ''max_message_size'' then
        (case atoi v of Ok n \<Rightarrow> conf\<lparr>cf_max_message_size := n\<rparr> | Fault _ \<Rightarrow> conf)
      else if k = ''max_frame_size'' then
        (case atoi v of Ok n \<Rightarrow> conf\<lparr>cf_max_frame_size := n\<rparr> | Fault _ \<Rightarrow> conf)
      else conf)"
| "entry_meaning (k, Sequence vs) conf =
     (if k = ''origin''
      then conf\<lparr>cf_origin_list := rev (map (map tolower) vs) @ cf_origin_list conf\<rparr> else conf)"

fun doc_meaning :: "yaml_doc \<Rightarrow> jsconf_t \<Rightarrow> jsconf_t" where
  "doc_meaning [] conf = conf"
| "doc_meaning (e # es) conf = doc_meaning es (entry_meaning e conf)"

text \<open>The documents the theorem is about: keys that fit, numbers in range, enough memory.\<close>

fun entry_fits :: "allocator \<Rightarrow> string \<times> yaml_value \<Rightarrow> bool" where
  "entry_fits al (k, Scalar v) \<longleftrightarrow> nul_free k \<and> length k < 128 \<and> strdup_ok al v
     \<and> (k = ''max_message_size'' \<or> k = ''max_frame_size'' \<longrightarrow> is_Ok (atoi v))"
| "entry_fits al (k, Sequence vs) \<longleftrightarrow> nul_free k \<and> length k < 128
     \<and> granted al sizeof_origin_t \<and> (\<forall>v \<in> set vs. strdup_ok al v)"

text \<open>The patterns of the \<open>origin\<close> sequences of a document, in file order.\<close>

fun doc_origins :: "yaml_doc \<Rightarrow> string list" where
  "doc_origins [] = []"
| "doc_origins ((k, Sequence vs) # es) = (if k = ''origin'' then vs else []) @ doc_origins es"
| "doc_origins ((k, Scalar v) # es) = doc_origins es"

text \<open>
  The tokens of a document whose only entry is an \<open>origin\<close> list that is not indented under its
  key, which YAML allows: libyaml delivers no \<open>BLOCK-SEQUENCE-START\<close> and no \<open>BLOCK-END\<close> for it.
\<close>

definition flat_origin_tokens :: "string list \<Rightarrow> yaml_token list" where
  "flat_origin_tokens vs =
     [YAML_STREAM_START_TOKEN, YAML_BLOCK_MAPPING_START_TOKEN,
      YAML_KEY_TOKEN, YAML_SCALAR_TOKEN ''origin'', YAML_VALUE_TOKEN]
     @ concat (map (\<lambda>v. [YAML_BLOCK_ENTRY_TOKEN, YAML_SCALAR_TOKEN v]) vs)
     @ [YAML_BLOCK_END_TOKEN, YAML_STREAM_END_TOKEN]"

text \<open>A document like the one the tests use.\<close>

definition sample_doc :: yaml_doc where
  "sample_doc =
     [(''port'', Scalar ''5000''), (''listen'', Scalar ''0.0.0.0''),
      (''origin'', Sequence [''http://FirstDomain.com'', ''*seconddomain.com'']),
      (''log_level'', Scalar ''LOG_INFO''), (''max_frame_size'', Scalar ''64'')]"

section \<open>Lemmas\<close>

lemma sz_tolower_eq: "sz_tolower s = map tolower s"
  by (induction s) auto

lemma key_is_padded:
  assumes "nul_free k" and "length k < n" and "nul_free lit"
  shows "key_is (k @ replicate (n - length k) NUL) lit \<longleftrightarrow> k = lit"
proof
  have pad: "replicate (n - length k) NUL = NUL # replicate (n - length k - 1) NUL"
    using assms(2) by (metis Suc_diff_1 replicate_Suc zero_less_diff)
  let ?key = "k @ replicate (n - length k) NUL"
  have k: "cstr ?key = Ok k"
    unfolding pad using assms(1) by simp
  show "k = lit" if "key_is ?key lit"
  proof -
    have "?key = lit @ NUL # drop (Suc (length lit)) ?key"
      using that by (metis append_Cons append_Nil append_assoc append_take_drop_id key_is_def)
    then have "cstr ?key = Ok lit"
      using assms(3) by (metis cstr_terminated)
    with k show ?thesis by simp
  qed
  show "key_is ?key lit" if "k = lit"
    using that assms(2) by (simp add: key_is_def min_def)
qed

lemma strncpy_key:
  assumes "length key = 128" and "length k < 128"
  shows "strncpy key 0 k 128 = Ok (k @ replicate (128 - length k) NUL)"
  using assms by (simp add: strncpy_def mem_write_def)

text \<open>The literals the parser compares its key with.\<close>

lemma config_value_padded:
  assumes "nul_free k" and "length k < 128" and "strdup_ok al v"
    and "k = ''max_message_size'' \<or> k = ''max_frame_size'' \<longrightarrow> is_Ok (atoi v)"
  shows "config_value al (k @ replicate (128 - length k) NUL) v conf
           = Ok (entry_meaning (k, Scalar v) conf)"
proof -
  have key: "key_is (k @ replicate (128 - length k) NUL) lit \<longleftrightarrow> k = lit" if "nul_free lit" for lit
    using key_is_padded [OF assms(1,2) that] .
  show ?thesis
    using assms(3,4) by (cases "atoi v") (simp_all add: config_value_def key)
qed

lemma config_sequence:
  assumes "\<forall>v \<in> set vs. strdup_ok al v" and "granted al sizeof_origin_t"
  shows "\<exists>prev'. \<forall>ts. config_loop al
           (concat (map (\<lambda>v. [YAML_BLOCK_ENTRY_TOKEN, YAML_SCALAR_TOKEN v]) vs) @ ts) prev 2 key conf
         = config_loop al ts prev' 2 key
             (if key_is key ''origin''
              then conf\<lparr>cf_origin_list := rev (map (map tolower) vs) @ cf_origin_list conf\<rparr> else conf)"
  using assms(1)
proof (induction vs arbitrary: prev conf)
  case Nil
  then show ?case by auto
next
  case (Cons v vs)
  let ?c = "if key_is key ''origin''
    then conf\<lparr>cf_origin_list := map tolower v # cf_origin_list conf\<rparr> else conf"
  obtain prev' where "\<forall>ts. config_loop al
      (concat (map (\<lambda>v. [YAML_BLOCK_ENTRY_TOKEN, YAML_SCALAR_TOKEN v]) vs) @ ts)
      (Some (YAML_SCALAR_TOKEN v)) 2 key ?c
    = config_loop al ts prev' 2 key
        (if key_is key ''origin''
         then ?c\<lparr>cf_origin_list := rev (map (map tolower) vs) @ cf_origin_list ?c\<rparr> else ?c)"
    using Cons.IH Cons.prems by force
  then show ?case
    using assms(2) Cons.prems
    by (intro exI [of _ prev']) (auto simp: config_scalar_def sz_tolower_eq)
qed

lemma config_entry:
  assumes "entry_fits al e" and "length key = 128"
  shows "\<exists>prev' key'. length key' = 128 \<and> (\<forall>ts. config_loop al (entry_tokens e @ ts) prev 1 key conf
           = config_loop al ts prev' 1 key' (entry_meaning e conf))"
proof (cases e)
  case (Pair k v)
  let ?key = "k @ replicate (128 - length k) NUL"
  show ?thesis
  proof (cases v)
    case (Scalar t)
    have fits: "nul_free k" "length k < 128" "strdup_ok al t"
      "k = ''max_message_size'' \<or> k = ''max_frame_size'' \<longrightarrow> is_Ok (atoi t)"
      using assms(1) Pair Scalar by auto
    then show ?thesis
      using Pair Scalar assms(2) config_value_padded [OF fits, of conf]
      by (intro exI [of _ "Some (YAML_SCALAR_TOKEN t)"] exI [of _ ?key])
        (simp add: config_scalar_def strncpy_key)
  next
    case (Sequence vs)
    have fits: "nul_free k" "length k < 128" "granted al sizeof_origin_t"
      "\<forall>v \<in> set vs. strdup_ok al v"
      using assms(1) Pair Sequence by auto
    obtain prev' where step: "\<forall>ts. config_loop al
        (concat (map (\<lambda>v. [YAML_BLOCK_ENTRY_TOKEN, YAML_SCALAR_TOKEN v]) vs) @ ts)
        (Some YAML_BLOCK_SEQUENCE_START_TOKEN) 2 ?key conf
      = config_loop al ts prev' 2 ?key (entry_meaning (k, Sequence vs) conf)"
      using config_sequence [OF fits(4,3), of _ ?key conf] fits(1,2) by (auto simp: key_is_padded)
    show ?thesis
      using Pair Sequence assms(2) fits(2) step
      by (intro exI [of _ "Some YAML_BLOCK_END_TOKEN"] exI [of _ ?key])
        (simp add: config_scalar_def strncpy_key)
  qed
qed

lemma config_entries:
  assumes "\<forall>e \<in> set doc. entry_fits al e" and "length key = 128"
  shows "\<exists>prev' key'. \<forall>ts. config_loop al (concat (map entry_tokens doc) @ ts) prev 1 key conf
           = config_loop al ts prev' 1 key' (doc_meaning doc conf)"
  using assms
proof (induction doc arbitrary: prev key conf)
  case Nil
  then show ?case by auto
next
  case (Cons e es)
  obtain prev' key' where k: "length key' = 128"
    and step: "\<And>ts. config_loop al (entry_tokens e @ ts) prev 1 key conf
           = config_loop al ts prev' 1 key' (entry_meaning e conf)"
    using config_entry [of al e key prev conf] Cons.prems by auto
  obtain prev'' key'' where "\<And>ts. config_loop al (concat (map entry_tokens es) @ ts) prev' 1 key'
      (entry_meaning e conf) = config_loop al ts prev'' 1 key'' (doc_meaning es (entry_meaning e conf))"
    using Cons.IH [of key' prev' "entry_meaning e conf"] Cons.prems k by auto
  then show ?case
    using step by (intro exI [of _ prev''] exI [of _ key'']) simp
qed

lemma check_origin_loop_iff: "check_origin_loop fnm urls origin \<longleftrightarrow> (\<exists>url \<in> set urls. fnm url origin)"
  by (induction urls) auto

lemma config_loop_document:
  assumes "\<forall>e \<in> set doc. entry_fits al e" and "length key0 = 128"
  shows "config_loop al (doc_tokens doc) None 0 key0 conf = Ok (True, doc_meaning doc conf)"
proof -
  obtain prev' key' where "\<And>ts. config_loop al (concat (map entry_tokens doc) @ ts)
      (Some YAML_BLOCK_MAPPING_START_TOKEN) 1 key0 conf
    = config_loop al ts prev' 1 key' (doc_meaning doc conf)"
    using config_entries [OF assms] by blast
  then show ?thesis
    by (simp add: doc_tokens_def)
qed

lemma doc_meaning_origins:
  "cf_origin_list (doc_meaning doc conf) = rev (map (map tolower) (doc_origins doc)) @ cf_origin_list conf"
proof (induction doc arbitrary: conf)
  case Nil
  then show ?case by simp
next
  case (Cons e es)
  show ?case
  proof (cases e)
    case (Pair k v)
    have "cf_origin_list (entry_meaning (k, Scalar t) conf) = cf_origin_list conf" for t
      by (simp split: cres.splits)
    then show ?thesis
      using Pair by (cases v) (simp_all add: Cons.IH)
  qed
qed

lemma config_flat_sequence:
  "level \<noteq> 2 \<Longrightarrow> \<exists>prev'. \<forall>ts. config_loop al
       (concat (map (\<lambda>v. [YAML_BLOCK_ENTRY_TOKEN, YAML_SCALAR_TOKEN v]) vs) @ ts) prev level key conf
     = config_loop al ts prev' level key conf"
proof (induction vs arbitrary: prev)
  case Nil
  then show ?case by auto
next
  case (Cons v vs)
  then obtain prev' where "\<forall>ts. config_loop al
      (concat (map (\<lambda>v. [YAML_BLOCK_ENTRY_TOKEN, YAML_SCALAR_TOKEN v]) vs) @ ts)
      (Some (YAML_SCALAR_TOKEN v)) level key conf = config_loop al ts prev' level key conf"
    by blast
  then show ?case
    using Cons.prems by (intro exI [of _ prev']) (simp add: config_scalar_def)
qed

lemma sample_doc_fits: "\<forall>e \<in> set sample_doc. entry_fits zero_alloc e"
  by (simp add: sample_doc_def strdup_ok_def PTRDIFF_MAX_def sizeof_origin_t_def nul_free_def
      atoi_def isspace_def isdigit_def in_int_range_def INT_MAX_def)

section \<open>Properties\<close>

text \<open>C25: for every block-style document whose keys fit the key array, whose numbers are in the range
  of \<open>int\<close> and for which memory is available, \<open>config_parse\<close> succeeds and yields the
  configuration the document means, whatever the uninitialised key array held.\<close>

theorem config_parse_document:
  assumes "\<forall>e \<in> set doc. entry_fits al e" and "length key0 = 128"
  shows "config_parse al key0 (Some (doc_tokens doc)) conf = Ok (True, doc_meaning doc conf)"
  using config_loop_document [OF assms] by (simp add: config_parse_def)

theorem config_parse_document_witness:
  "config_parse zero_alloc (replicate 128 CHR ''x'') (Some (doc_tokens sample_doc)) empty_conf
     = Ok (True, \<lparr>cf_port = Some ''5000'',
         cf_origin_list = [''*seconddomain.com'', ''http://firstdomain.com''],
         cf_cidr = Some ''0.0.0.0'', cf_host = None, cf_resource = None,
         cf_log_level = LOG_INFO, cf_max_message_size = 0, cf_max_frame_size = 64\<rparr>)"
proof -
  have "doc_meaning sample_doc empty_conf = \<lparr>cf_port = Some ''5000'',
         cf_origin_list = [''*seconddomain.com'', ''http://firstdomain.com''],
         cf_cidr = Some ''0.0.0.0'', cf_host = None, cf_resource = None,
         cf_log_level = LOG_INFO, cf_max_message_size = 0, cf_max_frame_size = 64\<rparr>"
    by code_simp
  then show ?thesis
    using config_parse_document [OF sample_doc_fits, of "replicate 128 CHR ''x''" empty_conf] by simp
qed

text \<open>C26: an origin is accepted under a parsed document exactly when the document lists no origin
  pattern, or some listed pattern, in lower case, matches it.\<close>

theorem config_origin_policy:
  assumes "\<forall>e \<in> set doc. entry_fits al e" and "length key0 = 128"
  shows "\<exists>conf. config_parse al key0 (Some (doc_tokens doc)) empty_conf = Ok (True, conf)
     \<and> (\<forall>origin. config_check_origin fnm conf origin \<longleftrightarrow>
           doc_origins doc = [] \<or> (\<exists>pat \<in> set (doc_origins doc). fnm (map tolower pat) origin))"
proof -
  have "config_parse al key0 (Some (doc_tokens doc)) empty_conf
      = Ok (True, doc_meaning doc empty_conf)"
    using config_loop_document [OF assms] by (simp add: config_parse_def)
  moreover have "cf_origin_list empty_conf = []"
    by (simp add: empty_conf_def)
  ultimately show ?thesis
    by (auto simp: config_check_origin_def check_origin_loop_iff doc_meaning_origins)
qed

theorem config_origin_policy_witness:
  "\<exists>conf. config_parse zero_alloc (replicate 128 NUL) (Some (doc_tokens sample_doc)) empty_conf
      = Ok (True, conf)
    \<and> config_check_origin (=) conf ''http://firstdomain.com''
    \<and> \<not> config_check_origin (=) conf ''http://other.com''"
proof -
  have o: "map (map tolower) (doc_origins sample_doc) = [''http://firstdomain.com'', ''*seconddomain.com'']"
    by code_simp
  then have mem: "(\<exists>pat \<in> set (doc_origins sample_doc). map tolower pat = u)
      \<longleftrightarrow> u \<in> set [''http://firstdomain.com'', ''*seconddomain.com'']" for u
    by (metis (no_types, lifting) image_iff list.set_map)
  show ?thesis
    using config_origin_policy [OF sample_doc_fits, of "replicate 128 NUL" "(=)"] mem o by fastforce
qed

text \<open>An origin list written without indentation, as YAML allows, is skipped without an error: the
  parsed configuration has no origin pattern and accepts every origin.\<close>

theorem config_flat_origin_ignored:
  assumes "length key0 = 128"
  shows "config_parse al key0 (Some (flat_origin_tokens vs)) empty_conf = Ok (True, empty_conf)
           \<and> config_check_origin fnm empty_conf origin"
proof -
  let ?key = "''origin'' @ replicate (128 - length ''origin'') NUL"
  have "strncpy key0 0 ''origin'' 128 = Ok ?key"
    using assms by (intro strncpy_key) auto
  moreover obtain prev' where "\<forall>ts. config_loop al
      (concat (map (\<lambda>v. [YAML_BLOCK_ENTRY_TOKEN, YAML_SCALAR_TOKEN v]) vs) @ ts)
      (Some YAML_VALUE_TOKEN) 1 ?key empty_conf = config_loop al ts prev' 1 ?key empty_conf"
    using config_flat_sequence [of 1] by force
  ultimately show ?thesis
    by (simp add: config_parse_def flat_origin_tokens_def config_scalar_def config_check_origin_def
        empty_conf_def)
qed

theorem config_flat_origin_ignored_witness:
  "config_parse zero_alloc (replicate 128 NUL) (Some (flat_origin_tokens [''http://a.com''])) empty_conf
     = Ok (True, empty_conf) \<and> config_check_origin (=) empty_conf ''http://b.com''"
  using config_flat_origin_ignored [of "replicate 128 NUL" zero_alloc "[''http://a.com'']" "(=)"]
  by simp

section \<open>Every sequence of tokens\<close>

text \<open>The scalars of a token sequence, and a configuration that holds nothing but such scalars, with its origins
  in lower case and its numbers in the range of \<open>int\<close>.\<close>

fun scalars :: "yaml_token list \<Rightarrow> string list" where
  "scalars [] = []"
| "scalars (YAML_SCALAR_TOKEN s # ts) = s # scalars ts"
| "scalars (_ # ts) = scalars ts"

definition conf_from :: "string list \<Rightarrow> jsconf_t \<Rightarrow> bool" where
  "conf_from ss conf \<longleftrightarrow>
     (\<forall>s \<in> set_option (cf_port conf) \<union> set_option (cf_cidr conf) \<union> set_option (cf_host conf) \<union> set_option (cf_resource conf). s \<in> set ss)
     \<and> (\<forall>url \<in> set (cf_origin_list conf). url \<in> sz_tolower ` set ss)
     \<and> in_int_range (cf_max_message_size conf) \<and> in_int_range (cf_max_frame_size conf)"

text \<open>What an operation on scalars \<open>ss\<close> may give: a good result, the overflow of a number among them, or a null
  pointer for one of them for which \<open>strdup\<close> finds no memory.\<close>

definition conf_result :: "allocator \<Rightarrow> string list \<Rightarrow> ('a \<Rightarrow> bool) \<Rightarrow> 'a cres \<Rightarrow> bool" where
  "conf_result al ss P r = (case r of Ok x \<Rightarrow> P x
     | Fault f \<Rightarrow> f = Signed_Overflow \<and> (\<exists>s \<in> set ss. \<not> is_Ok (atoi s)) \<or> f = Null_Pointer \<and> (\<exists>s \<in> set ss. \<not> strdup_ok al s))"

lemma conf_result_simps [simp]:
  "conf_result al ss P (Ok x) = P x"
  "conf_result al ss P (bindr r f) = conf_result al ss (\<lambda>x. conf_result al ss P (f x)) r"
  "conf_result al ss P (Fault Null_Pointer) = (\<exists>s \<in> set ss. \<not> strdup_ok al s)"
  by (cases r; simp add: conf_result_def; blast)+

lemma conf_result_mono: "conf_result al ss P r \<Longrightarrow> (\<And>x. P x \<Longrightarrow> Q x) \<Longrightarrow> conf_result al ss Q r"
  by (simp add: conf_result_def split: cres.splits)

lemma conf_result_atoi:
  assumes "s \<in> set ss" and "\<And>n. in_int_range n \<Longrightarrow> P n"
  shows "conf_result al ss P (atoi s)"
proof (cases "atoi s")
  case (Ok n)
  then have "in_int_range n" by (auto simp: atoi_def Let_def split: if_split_asm)
  then show ?thesis using Ok assms(2) by (simp add: conf_result_def)
next
  case (Fault f)
  then have "f = Signed_Overflow" by (auto simp: atoi_def Let_def split: if_split_asm)
  then show ?thesis using Fault assms(1) by (auto simp: conf_result_def intro!: bexI [of _ s])
qed

lemma config_value_from:
  assumes "conf_from ss conf" and "s \<in> set ss"
  shows "conf_result al ss (conf_from ss) (config_value al key s conf)"
  using assms by (auto simp: config_value_def conf_from_def intro!: conf_result_atoi)

lemma config_scalar_from:
  assumes "conf_from ss conf" and "s \<in> set ss" and "length key = 128"
  shows "conf_result al ss (\<lambda>r. \<forall>key' conf'. r = Some (key', conf') \<longrightarrow> length key' = 128 \<and> conf_from ss conf')
     (config_scalar al prev level key s conf)"
proof -
  define key' where "key' = (if prev = Some YAML_KEY_TOKEN then take 128 s @ replicate (128 - length s) NUL else key)"
  have k: "(if prev = Some YAML_KEY_TOKEN then strncpy key 0 s 128 else Ok key) = Ok key'" "length key' = 128"
    using assms(3) by (auto simp: key'_def strncpy_def mem_write_def)
  have origin: "conf_from ss (conf\<lparr>cf_origin_list := sz_tolower s # cf_origin_list conf\<rparr>)"
    using assms(1,2) by (auto simp: conf_from_def)
  show ?thesis
    using config_value_from [OF assms(1,2), of al key'] config_value_from [OF origin assms(2), of al key'] assms(1,2) k(2) origin
    unfolding config_scalar_def k(1) by auto
qed

lemma config_loop_from:
  assumes "conf_from ss conf" and "set (scalars ts) \<subseteq> set ss" and "length key = 128"
  shows "conf_result al ss (\<lambda>(res, conf'). conf_from ss conf') (config_loop al ts prev level key conf)"
  using assms
proof (induction ts arbitrary: prev level key conf)
  case (Cons t ts)
  show ?case
  proof (cases t)
    case (YAML_SCALAR_TOKEN s)
    then have "conf_result al ss (\<lambda>r. \<forall>key' conf'. r = Some (key', conf') \<longrightarrow> length key' = 128 \<and> conf_from ss conf')
        (config_scalar al prev level key s conf)"
      using config_scalar_from Cons.prems by simp
    then show ?thesis
      using YAML_SCALAR_TOKEN Cons.IH Cons.prems(1,2) by (auto elim!: conf_result_mono split: option.split)
  qed (use Cons in simp_all)
qed simp

text \<open>The array of the key is not initialised. No value is read with it when the first scalar behind a value or
  entry token comes after a key.\<close>

fun key_first :: "yaml_token option \<Rightarrow> yaml_token list \<Rightarrow> bool" where
  "key_first prev [] \<longleftrightarrow> True"
| "key_first prev (t # ts) \<longleftrightarrow>
     (case t of
        YAML_SCALAR_TOKEN s \<Rightarrow> prev = Some YAML_KEY_TOKEN
          \<or> prev \<noteq> Some YAML_VALUE_TOKEN \<and> prev \<noteq> Some YAML_BLOCK_ENTRY_TOKEN \<and> key_first (Some t) ts
      | _ \<Rightarrow> key_first (Some t) ts)"

lemma config_loop_key_first:
  assumes "key_first prev ts" and "length key = 128" and "length key' = 128"
  shows "config_loop al ts prev level key conf = config_loop al ts prev level key' conf"
  using assms
proof (induction ts arbitrary: prev level conf)
  case (Cons t ts)
  show ?case
  proof (cases t)
    case (YAML_SCALAR_TOKEN s)
    show ?thesis
    proof (cases "prev = Some YAML_KEY_TOKEN")
      case True
      have "strncpy key 0 s 128 = strncpy key' 0 s 128"
        using Cons.prems(2,3) by (simp add: strncpy_def mem_write_def)
      then show ?thesis by (simp add: YAML_SCALAR_TOKEN True config_scalar_def)
    next
      case False
      then show ?thesis using Cons by (simp add: YAML_SCALAR_TOKEN config_scalar_def)
    qed
  qed (use Cons in simp_all)
qed simp

text \<open>C30: every token sequence libyaml can deliver gives a well-formed configuration: whatever the tokens and
  their order, the parser reads and writes inside its key array, every string of the result is a scalar of the
  file, its origins are in lower case, and its numbers are in the range of \<open>int\<close>. There are two exceptions: a number
  that overflows \<open>int\<close> in \<open>atoi\<close>, and a scalar for which \<open>strdup\<close> finds no memory, whose null pointer may be written
  through. The key array is not initialised and taken to hold anything; a sequence with a key before its first
  value gives the same result whatever it holds.\<close>

theorem config_parse_wellformed:
  assumes "length key = 128"
  shows "(case config_parse al key (Some ts) empty_conf of
      Ok (res, conf) \<Rightarrow> conf_from (scalars ts) conf
    | Fault f \<Rightarrow> f = Signed_Overflow \<and> (\<exists>s \<in> set (scalars ts). \<not> is_Ok (atoi s))
                 \<or> f = Null_Pointer \<and> (\<exists>s \<in> set (scalars ts). \<not> strdup_ok al s))
    \<and> (\<forall>key'. length key' = 128 \<and> key_first None ts
          \<longrightarrow> config_parse al key' (Some ts) empty_conf = config_parse al key (Some ts) empty_conf)"
proof -
  have "conf_from (scalars ts) empty_conf" by (simp add: conf_from_def empty_conf_def in_int_range_def INT_MAX_def)
  from config_loop_from [OF this _ assms, of ts al None 0]
  show ?thesis
    using config_loop_key_first [OF _ _ assms] by (auto simp: config_parse_def conf_result_def split: cres.splits)
qed

theorem config_parse_wellformed_witness:
  "\<exists>conf. config_parse zero_alloc (replicate 128 NUL) (Some (doc_tokens sample_doc)) empty_conf = Ok (True, conf)
     \<and> conf_from (scalars (doc_tokens sample_doc)) conf
     \<and> config_parse zero_alloc (replicate 128 CHR ''x'') (Some (doc_tokens sample_doc)) empty_conf = Ok (True, conf)"
proof -
  have h: "length (replicate 128 NUL) = 128" "length (replicate 128 CHR ''x'') = 128" by simp_all
  have k: "key_first None (doc_tokens sample_doc)" by code_simp
  show ?thesis
    using config_parse_wellformed [OF h(1), of "doc_tokens sample_doc" zero_alloc] h(2) k
      config_loop_document [OF sample_doc_fits h(1)] by (simp add: config_parse_def)
qed

end
