(* ===== verification/Util_Buffer.thy ===== *)
theory Util_Buffer
  imports Jab_Prelude
begin

unbundle bit_operations_syntax

text \<open>
  The byte buffers of \<open>util.c\<close>: \<open>data_t\<close>, a wrapper around a fixed array; \<open>unmask\<close>, the
  WebSocket masking; and \<open>buffer_t\<close>, the growing buffer every stream of the program goes
  through. \<open>buf_ok\<close> is the invariant of \<open>buffer_t\<close> and \<open>contents\<close> the bytes it holds.

  The locale \<open>byte_fifo\<close> states what the clients of a buffer rely on: bytes appended at the
  end come out at the front, in order. Its interpretation \<open>buf\<close> shows it for \<open>buffer_t\<close>.
\<close>

section \<open>Fixed data buffers\<close>

record data_t =
  d_buffer :: "byte list"
  d_length :: nat
  d_capacity :: nat

definition data_init :: "byte list \<Rightarrow> nat \<Rightarrow> data_t" where
  "data_init buf sz = \<lparr>d_buffer = buf, d_length = 0, d_capacity = sz\<rparr>"

definition data_get_length :: "data_t \<Rightarrow> nat" where
  "data_get_length d = d_length d"

definition data_get_capacity :: "data_t \<Rightarrow> nat" where
  "data_get_capacity d = d_capacity d"

definition data_get_buffer :: "data_t \<Rightarrow> byte list" where
  "data_get_buffer d = d_buffer d"

text \<open>The copying loop, with \<open>k\<close> rounds left: \<open>data->buffer[i] = data_in[i]\<close>.\<close>

fun data_copy_loop :: "byte list \<Rightarrow> byte list \<Rightarrow> nat \<Rightarrow> nat \<Rightarrow> byte list cres" where
  "data_copy_loop m src i 0 = Ok m"
| "data_copy_loop m src i (Suc k) =
     bindr (mem_get src i) (\<lambda>x.
     bindr (mem_set m i x) (\<lambda>m'. data_copy_loop m' src (Suc i) k))"

definition data_set_data :: "data_t \<Rightarrow> byte list \<Rightarrow> nat \<Rightarrow> data_t cres" where
  "data_set_data d data_in sz =
     (let n = (if d_capacity d \<le> sz then d_capacity d else sz) in
      bindr (data_copy_loop (d_buffer d) data_in 0 n) (\<lambda>m.
      Ok (d\<lparr>d_buffer := m, d_length := n\<rparr>)))"

section \<open>Unmasking\<close>

fun unmask_loop :: "byte list \<Rightarrow> byte list \<Rightarrow> nat \<Rightarrow> nat \<Rightarrow> nat \<Rightarrow> byte list cres" where
  "unmask_loop m msk i index 0 = Ok m"
| "unmask_loop m msk i index (Suc k) =
     bindr (mem_get m i) (\<lambda>d.
     bindr (mem_get msk index) (\<lambda>q.
     bindr (mem_set m i (d XOR q)) (\<lambda>m'.
     unmask_loop m' msk (Suc i) (if Suc index = 4 then 0 else Suc index) k)))"

definition unmask :: "byte list \<Rightarrow> nat \<Rightarrow> byte list \<Rightarrow> byte list cres" where
  "unmask m len msk = unmask_loop m msk 0 0 len"

text \<open>RFC 6455, 5.3: byte \<open>i\<close> of the payload is combined with byte \<open>i mod 4\<close> of the key.\<close>

definition mask_bytes :: "byte list \<Rightarrow> byte list \<Rightarrow> byte list" where
  "mask_bytes msk xs = map (\<lambda>i. xs ! i XOR msk ! (i mod 4)) [0..<length xs]"

section \<open>Growing buffers\<close>

record buffer_t =
  b_data :: "byte list"
  b_length :: nat
  b_capacity :: nat
  b_max_length :: nat

definition INIT_BUFFER_SIZE :: nat where
  "INIT_BUFFER_SIZE = 128"

text \<open>The size of the structure itself: a pointer and three \<open>size_t\<close>.\<close>

definition sizeof_buffer_t :: nat where
  "sizeof_buffer_t = 32"

definition buffer_create :: "allocator \<Rightarrow> nat \<Rightarrow> buffer_t option" where
  "buffer_create al max_length =
     (let init_capacity =
        (if 0 < max_length \<and> max_length < INIT_BUFFER_SIZE then max_length else INIT_BUFFER_SIZE)
      in if granted al sizeof_buffer_t then
           if granted al init_capacity then
             Some \<lparr>b_data = malloc_block al init_capacity, b_length = 0,
                   b_capacity = init_capacity, b_max_length = max_length\<rparr>
           else None
         else None)"

definition buffer_clear :: "buffer_t \<Rightarrow> buffer_t" where
  "buffer_clear b = b\<lparr>b_length := 0\<rparr>"

text \<open>The end of \<open>buffer_append\<close>: \<open>memcpy\<close> behind the current bytes.\<close>

definition buffer_put :: "buffer_t \<Rightarrow> byte list \<Rightarrow> nat \<Rightarrow> (bool \<times> buffer_t) cres" where
  "buffer_put b src n =
     bindr (mem_read src 0 n) (\<lambda>xs.
     bindr (mem_write (b_data b) (b_length b) xs) (\<lambda>m.
     Ok (True, b\<lparr>b_data := m, b_length := size_add (b_length b) n\<rparr>)))"

definition buffer_resize :: "allocator \<Rightarrow> buffer_t \<Rightarrow> nat \<Rightarrow> buffer_t" where
  "buffer_resize al b new_cap =
     b\<lparr>b_data := realloc_block al (b_data b) new_cap, b_capacity := new_cap\<rparr>"

definition buffer_append :: "allocator \<Rightarrow> buffer_t \<Rightarrow> byte list \<Rightarrow> nat \<Rightarrow> (bool \<times> buffer_t) cres" where
  "buffer_append al b src n =
     (if n = 0 then Ok (True, b)
      else if b_max_length b = 0 then
        (if b_capacity b < size_add (b_length b) n then
           (let new_cap = size_add (size_add (b_length b) n) 1024 in
            if granted al new_cap then
              (let b' = buffer_resize al b new_cap;
                   n' = (if b_capacity b' < size_add (b_length b') n
                         then size_sub (b_capacity b') (b_length b') else n)
               in buffer_put b' src n')
            else Ok (False, b))
         else buffer_put b src n)
      else
        (let n1 = (if b_max_length b < size_add (b_length b) n
                   then size_sub (b_max_length b) (b_length b) else n)
         in if n1 = 0 then Ok (False, b)
            else if b_capacity b < size_add (b_length b) n1 then
              (let want = size_add (size_add (b_length b) n1) 1024;
                   new_cap = (if b_max_length b < want then b_max_length b else want)
               in if granted al new_cap then buffer_put (buffer_resize al b new_cap) src n1
                  else Ok (False, b))
            else buffer_put b src n1))"

definition buffer_set_data :: "allocator \<Rightarrow> buffer_t \<Rightarrow> byte list \<Rightarrow> nat \<Rightarrow> (bool \<times> buffer_t) cres" where
  "buffer_set_data al b input n = buffer_append al (b\<lparr>b_length := 0\<rparr>) input n"

definition buffer_get_length :: "buffer_t \<Rightarrow> nat" where
  "buffer_get_length b = b_length b"

definition buffer_get_data :: "buffer_t \<Rightarrow> nat \<Rightarrow> byte list cres" where
  "buffer_get_data b n = mem_read (b_data b) 0 n"

definition buffer_get_data2 :: "buffer_t \<Rightarrow> data_t \<Rightarrow> nat \<Rightarrow> data_t cres" where
  "buffer_get_data2 b d n = data_set_data d (b_data b) n"

definition buffer_peek_data :: "buffer_t \<Rightarrow> byte list \<times> nat" where
  "buffer_peek_data b = (b_data b, b_length b)"

text \<open>\<open>memmove(data, data + length, capacity - length)\<close>, with the subtraction in \<open>size_t\<close>.\<close>

definition buffer_remove_data :: "buffer_t \<Rightarrow> nat \<Rightarrow> buffer_t cres" where
  "buffer_remove_data b n =
     bindr (mem_read (b_data b) n (size_sub (b_capacity b) n)) (\<lambda>xs.
     bindr (mem_write (b_data b) 0 xs) (\<lambda>m.
     Ok (b\<lparr>b_data := m, b_length := size_sub (b_length b) n\<rparr>)))"

text \<open>\<open>buffer_move\<close> returns its result and both buffers, source first.\<close>

definition buffer_move :: "allocator \<Rightarrow> buffer_t \<Rightarrow> buffer_t \<Rightarrow> (bool \<times> buffer_t \<times> buffer_t) cres" where
  "buffer_move al src dst =
     bindr (buffer_append al (buffer_clear dst) (b_data src) (b_length src)) (\<lambda>(res, dst').
       if \<not> res then Ok (False, src, dst') else Ok (True, buffer_clear src, dst'))"

section \<open>The invariant\<close>

definition contents :: "buffer_t \<Rightarrow> byte list" where
  "contents b = take (b_length b) (b_data b)"

definition buf_ok :: "buffer_t \<Rightarrow> bool" where
  "buf_ok b \<longleftrightarrow> length (b_data b) = b_capacity b \<and> b_length b \<le> b_capacity b
     \<and> b_capacity b \<le> PTRDIFF_MAX \<and> b_max_length b < SIZE_MOD
     \<and> (0 < b_max_length b \<longrightarrow> b_capacity b \<le> b_max_length b)"

text \<open>The bytes a buffer may still take before its maximum, \<open>n\<close> when it has no maximum.\<close>

definition buf_room :: "buffer_t \<Rightarrow> nat \<Rightarrow> nat" where
  "buf_room b n = (if b_max_length b = 0 then n else min n (b_max_length b - b_length b))"

text \<open>A request that leaves the arithmetic of \<open>buffer_append\<close> inside \<open>size_t\<close>.\<close>

definition small_request :: "buffer_t \<Rightarrow> nat \<Rightarrow> bool" where
  "small_request b n \<longleftrightarrow> b_length b + n + 1024 < SIZE_MOD"

section \<open>Lemmas on fixed buffers and masks\<close>

lemma data_copy_loop_eq:
  assumes "i + k \<le> length m" and "i + k \<le> length src"
  shows "data_copy_loop m src i k = Ok (take i m @ take k (drop i src) @ drop (i + k) m)"
  using assms
proof (induction k arbitrary: m i)
  case 0
  then show ?case by simp
next
  case (Suc k)
  then have "data_copy_loop (m[i := src ! i]) src (Suc i) k =
      Ok (take (Suc i) (m[i := src ! i]) @ take k (drop (Suc i) src)
            @ drop (Suc i + k) (m[i := src ! i]))"
    by (intro Suc.IH) auto
  moreover have "take (Suc k) (drop i src) = src ! i # take k (drop (Suc i) src)"
    using Suc.prems by (simp add: Cons_nth_drop_Suc [symmetric])
  ultimately show ?case
    using Suc.prems by (simp add: mem_get_def mem_set_def take_Suc_conv_app_nth)
qed

lemma data_set_data_eq:
  assumes "length (d_buffer d) = d_capacity d" and "min n (d_capacity d) \<le> length src"
  shows "data_set_data d src n =
     Ok (d\<lparr>d_buffer := take (min n (d_capacity d)) src @ drop (min n (d_capacity d)) (d_buffer d),
           d_length := min n (d_capacity d)\<rparr>)"
proof -
  have "(if d_capacity d \<le> n then d_capacity d else n) = min n (d_capacity d)"
    by simp
  then show ?thesis
    using assms data_copy_loop_eq [of 0 "min n (d_capacity d)" "d_buffer d" src]
    by (simp add: data_set_data_def Let_def)
qed

lemma unmask_loop_eq:
  assumes "4 \<le> length msk" and "i + k \<le> length m" and "index = i mod 4"
  shows "unmask_loop m msk i index k =
     Ok (take i m @ map (\<lambda>j. m ! j XOR msk ! (j mod 4)) [i..<i + k] @ drop (i + k) m)"
  using assms(2,3)
proof (induction k arbitrary: m i index)
  case 0
  then show ?case by simp
next
  case (Suc k)
  let ?m = "m[i := m ! i XOR msk ! (i mod 4)]"
  let ?f = "\<lambda>m j. m ! j XOR msk ! (j mod 4)"
  have "index < length msk"
    using assms(1) Suc.prems(2) mod_less_divisor [of 4 i] by linarith
  then have "unmask_loop m msk i index (Suc k)
      = unmask_loop ?m msk (Suc i) (if Suc index = 4 then 0 else Suc index) k"
    using Suc.prems by (simp add: mem_get_def mem_set_def)
  also have "\<dots> = Ok (take (Suc i) ?m @ map (?f ?m) [Suc i..<Suc i + k] @ drop (Suc i + k) ?m)"
    using Suc.prems by (intro Suc.IH) (auto simp: mod_Suc)
  also have "map (?f ?m) [Suc i..<Suc i + k] = map (?f m) [Suc i..<Suc i + k]"
    by (rule map_cong) auto
  also have "take (Suc i) ?m = take i m @ [?f m i]"
    using Suc.prems by (simp add: take_Suc_conv_app_nth)
  also have "drop (Suc i + k) ?m = drop (i + Suc k) m"
    by simp
  also have "(take i m @ [?f m i]) @ map (?f m) [Suc i..<Suc i + k] @ drop (i + Suc k) m
      = take i m @ map (?f m) (i # [Suc i..<Suc i + k]) @ drop (i + Suc k) m"
    by simp
  also have "i # [Suc i..<Suc i + k] = [i..<i + Suc k]"
    by (simp add: upt_rec [of i])
  finally show ?case .
qed

lemma length_mask_bytes [simp]: "length (mask_bytes msk xs) = length xs"
  by (simp add: mask_bytes_def)

lemma unmask_eq:
  assumes "4 \<le> length msk" and "n \<le> length m"
  shows "unmask m n msk = Ok (mask_bytes msk (take n m) @ drop n m)"
  using unmask_loop_eq [of msk 0 n m 0] assms by (simp add: unmask_def mask_bytes_def)

lemma xor_cancel_right: "(x XOR y) XOR y = (x :: byte)"
  by (simp add: xor.assoc)

lemma mask_bytes_involution [simp]: "mask_bytes msk (mask_bytes msk xs) = xs"
  by (auto simp: mask_bytes_def xor_cancel_right intro: nth_equalityI)

lemma mask_bytes_cong:
  assumes "take 4 a = take 4 b" and "4 \<le> length a" and "4 \<le> length b"
  shows "mask_bytes a xs = mask_bytes b xs"
proof -
  have "a ! (i mod 4) = b ! (i mod 4)" for i
    using assms(1) by (metis mod_less_divisor nth_take zero_less_numeral)
  then show ?thesis by (simp add: mask_bytes_def)
qed

section \<open>Lemmas on growing buffers\<close>

lemma buf_okD:
  assumes "buf_ok b"
  shows "length (b_data b) = b_capacity b" and "b_length b \<le> b_capacity b"
    and "b_capacity b \<le> PTRDIFF_MAX" and "b_length b < SIZE_MOD" and "b_capacity b < SIZE_MOD"
    and "0 < b_max_length b \<Longrightarrow> b_capacity b \<le> b_max_length b" and "b_max_length b < SIZE_MOD"
  using assms PTRDIFF_MAX_less by (auto simp: buf_ok_def simp del: PTRDIFF_MAX_less)

lemma length_contents [simp]: "buf_ok b \<Longrightarrow> length (contents b) = b_length b"
  by (simp add: contents_def buf_ok_def)

lemma buffer_create_ok:
  assumes "buffer_create al n = Some b" and "n < SIZE_MOD"
  shows "buf_ok b" and "contents b = []" and "b_max_length b = n"
  using assms
  by (auto simp: buffer_create_def buf_ok_def contents_def Let_def INIT_BUFFER_SIZE_def
      PTRDIFF_MAX_def split: if_splits)

lemma buffer_clear_ok [simp]:
  "buf_ok b \<Longrightarrow> buf_ok (buffer_clear b)" "contents (buffer_clear b) = []"
  "b_length (buffer_clear b) = 0" "b_max_length (buffer_clear b) = b_max_length b"
  "b_data (buffer_clear b) = b_data b" "b_capacity (buffer_clear b) = b_capacity b"
  by (auto simp: buf_ok_def buffer_clear_def contents_def)

lemma buffer_put_ok:
  assumes "buf_ok b" and "b_length b + n \<le> b_capacity b" and "n \<le> length src"
  shows "\<exists>b'. buffer_put b src n = Ok (True, b') \<and> buf_ok b' \<and> contents b' = contents b @ take n src
           \<and> b_max_length b' = b_max_length b \<and> b_capacity b' = b_capacity b"
proof -
  let ?m = "take (b_length b) (b_data b) @ take n src @ drop (b_length b + n) (b_data b)"
  let ?b = "b\<lparr>b_data := ?m, b_length := b_length b + n\<rparr>"
  note d = buf_okD [OF assms(1)]
  have "buffer_put b src n = Ok (True, ?b)"
    using assms d by (simp add: buffer_put_def mem_read_def mem_write_def size_add_exact min_def)
  moreover have "buf_ok ?b"
    using assms by (simp add: buf_ok_def)
  moreover have "contents ?b = contents b @ take n src"
    using assms d by (simp add: contents_def)
  ultimately show ?thesis by auto
qed

lemma buffer_resize_ok:
  assumes "buf_ok b" and "b_length b \<le> cap" and "cap \<le> PTRDIFF_MAX"
    and "0 < b_max_length b \<Longrightarrow> cap \<le> b_max_length b"
  shows "buf_ok (buffer_resize al b cap)" and "contents (buffer_resize al b cap) = contents b"
    and "b_length (buffer_resize al b cap) = b_length b"
    and "b_capacity (buffer_resize al b cap) = cap"
    and "b_max_length (buffer_resize al b cap) = b_max_length b"
  using assms by (auto simp: buffer_resize_def buf_ok_def contents_def take_realloc_block)

text \<open>
  The specification of \<open>buffer_append\<close>: on success the bytes that fit are at the end, on failure
  (no room at all, or no memory) the buffer is unchanged; the invariant is kept either way.
\<close>

definition appended :: "buffer_t \<Rightarrow> byte list \<Rightarrow> nat \<Rightarrow> bool \<Rightarrow> buffer_t \<Rightarrow> bool" where
  "appended b src n res b' \<longleftrightarrow> buf_ok b' \<and> b_max_length b' = b_max_length b
     \<and> b_capacity b \<le> b_capacity b'
     \<and> (if res then contents b' = contents b @ take (buf_room b n) src else b' = b)"

lemma buffer_put_appended:
  assumes "buf_ok b" and "b_length b + r \<le> b_capacity b" and "r \<le> length src"
    and "r = buf_room b n"
  shows "\<exists>b'. buffer_put b src r = Ok (True, b') \<and> appended b src n True b'"
  using buffer_put_ok [OF assms(1-3)] assms(4) by (auto simp: appended_def)

lemma buffer_put_resized:
  assumes "buf_ok b" and "b_length b + r \<le> cap" and "b_capacity b \<le> cap" and "cap \<le> PTRDIFF_MAX"
    and "r \<le> length src" and "r = buf_room b n" and "0 < b_max_length b \<Longrightarrow> cap \<le> b_max_length b"
  shows "\<exists>b'. buffer_put (buffer_resize al b cap) src r = Ok (True, b') \<and> appended b src n True b'"
proof -
  have rs: "buf_ok (buffer_resize al b cap)" "contents (buffer_resize al b cap) = contents b"
    "b_length (buffer_resize al b cap) = b_length b" "b_capacity (buffer_resize al b cap) = cap"
    "b_max_length (buffer_resize al b cap) = b_max_length b"
    using buffer_resize_ok [OF assms(1), of cap al] assms by auto
  then obtain b' where "buffer_put (buffer_resize al b cap) src r = Ok (True, b')" "buf_ok b'"
    "contents b' = contents b @ take r src" "b_max_length b' = b_max_length b" "b_capacity b' = cap"
    using buffer_put_ok [of "buffer_resize al b cap" r src] assms(2,5) by auto
  then show ?thesis
    using assms(3,6) by (auto simp: appended_def)
qed

text \<open>The end of \<open>buffer_append\<close> in both cases: the bytes are put where they fit, behind a larger block otherwise.\<close>

lemma put_or_grow:
  assumes ok: "buf_ok b" and cap: "b_length b + r \<le> cap" "0 < b_max_length b \<Longrightarrow> cap \<le> b_max_length b"
    and rd: "r \<le> length src" "r = buf_room b n"
  shows "\<exists>res b'. (if b_capacity b < b_length b + r then
         (if granted al cap then buffer_put (buffer_resize al b cap) src r else Ok (False, b))
       else buffer_put b src r) = Ok (res, b')
     \<and> appended b src n res b' \<and> (res \<longleftrightarrow> b_length b + r \<le> b_capacity b \<or> granted al cap)"
proof -
  consider (put) "b_length b + r \<le> b_capacity b" | (grow) "b_capacity b < b_length b + r" "granted al cap"
    | (none) "b_capacity b < b_length b + r" "\<not> granted al cap" by linarith
  then show ?thesis
  proof cases
    case put
    then show ?thesis using buffer_put_appended [OF ok put rd] by auto
  next
    case grow
    then have "cap \<le> PTRDIFF_MAX" by (auto dest: grantedD)
    then show ?thesis using buffer_put_resized [OF ok cap(1) _ _ rd cap(2), of al] cap(1) grow by auto
  next
    case none
    then show ?thesis using ok by (auto simp: appended_def)
  qed
qed

lemma buffer_append_unlimited:
  assumes ok: "buf_ok b" and small: "small_request b n" and rd: "n \<le> length src"
    and unl: "b_max_length b = 0"
  shows "\<exists>res b'. buffer_append al b src n = Ok (res, b') \<and> appended b src n res b'
           \<and> (res \<longleftrightarrow> b_length b + n \<le> b_capacity b \<or> granted al (b_length b + n + 1024))"
proof (cases "n = 0")
  case True
  then show ?thesis
    using ok buf_okD(2) [OF ok] by (auto simp: buffer_append_def appended_def buf_room_def)
next
  case False
  let ?cap = "b_length b + n + 1024"
  have a: "size_add (b_length b) n = b_length b + n" "size_add (b_length b + n) 1024 = ?cap"
    using small by (simp_all add: small_request_def size_add_exact)
  have rs: "b_capacity (buffer_resize al b ?cap) = ?cap" "b_length (buffer_resize al b ?cap) = b_length b"
    by (simp_all add: buffer_resize_def)
  have "buffer_append al b src n = (if b_capacity b < b_length b + n then
       (if granted al ?cap then buffer_put (buffer_resize al b ?cap) src n else Ok (False, b)) else buffer_put b src n)"
    using False unl by (simp add: buffer_append_def a rs Let_def)
  then show ?thesis using put_or_grow [OF ok _ _ rd, of ?cap n al] unl by (simp add: buf_room_def)
qed

text \<open>In a limited buffer only the bytes that fit are read.\<close>

lemma buffer_append_room:
  assumes ok: "buf_ok b" and small: "small_request b n" and lim: "0 < b_max_length b" and n: "n \<noteq> 0"
  shows "buffer_append al b src n = (if buf_room b n = 0 then Ok (False, b)
     else if b_capacity b < b_length b + buf_room b n then
       (if granted al (min (b_max_length b) (b_length b + buf_room b n + 1024))
        then buffer_put (buffer_resize al b (min (b_max_length b) (b_length b + buf_room b n + 1024))) src (buf_room b n)
        else Ok (False, b))
     else buffer_put b src (buf_room b n))"
proof -
  let ?r = "buf_room b n"
  note d = buf_okD [OF ok]
  have le: "b_length b \<le> b_max_length b" using d(2) d(6) [OF lim] by linarith
  have r: "?r \<le> n" by (simp add: buf_room_def)
  have a: "size_add (b_length b) n = b_length b + n"
    using small by (simp add: small_request_def size_add_exact)
  have r1: "(if b_max_length b < size_add (b_length b) n
             then size_sub (b_max_length b) (b_length b) else n) = ?r"
    unfolding a using le lim d(7) by (auto simp: buf_room_def size_sub_exact)
  have ar: "size_add (b_length b) ?r = b_length b + ?r" "size_add (b_length b + ?r) 1024 = b_length b + ?r + 1024"
    using small r by (simp_all add: small_request_def size_add_exact)
  have cap: "(if b_max_length b < b_length b + ?r + 1024 then b_max_length b
              else b_length b + ?r + 1024) = min (b_max_length b) (b_length b + ?r + 1024)"
    by auto
  show ?thesis
    using n lim unfolding buffer_append_def Let_def r1 by (simp add: ar cap)
qed

lemma buffer_append_limited:
  assumes ok: "buf_ok b" and small: "small_request b n" and rd: "buf_room b n \<le> length src"
    and lim: "0 < b_max_length b"
  shows "\<exists>res b'. buffer_append al b src n = Ok (res, b') \<and> appended b src n res b'
           \<and> (res \<longleftrightarrow> n = 0 \<or> 0 < buf_room b n \<and> (b_length b + buf_room b n \<le> b_capacity b
                 \<or> granted al (min (b_max_length b) (b_length b + buf_room b n + 1024))))"
proof (cases "n = 0 \<or> buf_room b n = 0")
  case True
  then show ?thesis
    using ok buffer_append_room [OF ok small lim] by (auto simp: buffer_append_def appended_def buf_room_def)
next
  case False
  let ?cap = "min (b_max_length b) (b_length b + buf_room b n + 1024)"
  have "b_length b \<le> b_max_length b" using buf_okD(2,6) [OF ok] lim by linarith
  then have "b_length b + buf_room b n \<le> ?cap" using lim by (auto simp: buf_room_def)
  then show ?thesis
    using put_or_grow [OF ok _ _ rd refl, of ?cap al] buffer_append_room [OF ok small lim, of al src] False by simp
qed

text \<open>Both cases at once, when memory is never refused.\<close>

definition generous :: "allocator \<Rightarrow> bool" where
  "generous al \<longleftrightarrow> (\<forall>n \<le> PTRDIFF_MAX. grant al n)"

lemma generous_granted: "generous al \<Longrightarrow> granted al n \<longleftrightarrow> n \<le> PTRDIFF_MAX"
  by (auto simp: generous_def granted_def)

lemma generous_zero_alloc [simp]: "generous zero_alloc"
  by (simp add: generous_def zero_alloc_def)

lemma buffer_append_generous:
  assumes ok: "buf_ok b" and al: "generous al" and small: "b_length b + n + 1024 \<le> PTRDIFF_MAX"
    and rd: "buf_room b n \<le> length src"
  shows "\<exists>b'. buffer_append al b src n = Ok (n = 0 \<or> 0 < buf_room b n, b')
           \<and> appended b src n (n = 0 \<or> 0 < buf_room b n) b'"
proof (cases "b_max_length b = 0")
  case True
  then have "(n = 0 \<or> 0 < buf_room b n) = True" and "buf_room b n = n"
    by (auto simp: buf_room_def)
  moreover have "small_request b n" "granted al (b_length b + n + 1024)"
    using small al PTRDIFF_MAX_less
    by (auto simp: small_request_def generous_granted simp del: PTRDIFF_MAX_less)
  ultimately show ?thesis
    using buffer_append_unlimited [OF ok, of n src al] rd True by (simp only:) auto
next
  case False
  have "buf_room b n \<le> n" by (simp add: buf_room_def)
  then have "granted al (min (b_max_length b) (b_length b + buf_room b n + 1024))"
    using small al by (simp add: generous_granted min_le_iff_disj)
  moreover have "small_request b n"
    using small PTRDIFF_MAX_less by (auto simp: small_request_def simp del: PTRDIFF_MAX_less)
  ultimately show ?thesis
    using buffer_append_limited [OF ok _ rd, of al] False by auto
qed

lemma buffer_set_data_generous:
  assumes "buf_ok b" and "generous al" and "n + 1024 \<le> PTRDIFF_MAX"
    and "(if b_max_length b = 0 then n else min n (b_max_length b)) \<le> length src"
  shows "\<exists>b'. buffer_set_data al b src n = Ok (True, b') \<and> buf_ok b'
           \<and> contents b' = take (if b_max_length b = 0 then n else min n (b_max_length b)) src
           \<and> b_max_length b' = b_max_length b"
proof -
  let ?b = "buffer_clear b"
  have "buf_ok ?b" using assms(1) by simp
  moreover have r: "buf_room ?b n = (if b_max_length b = 0 then n else min n (b_max_length b))"
    by (simp add: buf_room_def)
  moreover have "n = 0 \<or> 0 < buf_room ?b n" by (auto simp: r)
  ultimately obtain b' where "buffer_append al ?b src n = Ok (True, b')" "appended ?b src n True b'"
    using buffer_append_generous [of ?b al n src] assms(2-4) by auto
  then show ?thesis
    by (auto simp: buffer_set_data_def appended_def r buffer_clear_def [symmetric])
qed

lemma buffer_move_generous:
  assumes "buf_ok src" and "buf_ok dst" and "generous al" and "b_length src + 1024 \<le> PTRDIFF_MAX"
  shows "\<exists>dst'. buffer_move al src dst = Ok (True, buffer_clear src, dst') \<and> buf_ok dst'
           \<and> b_max_length dst' = b_max_length dst
           \<and> contents dst' = (if b_max_length dst = 0 then contents src
                             else take (b_max_length dst) (contents src))"
proof -
  note d = buf_okD [OF assms(1)]
  have "(if b_max_length dst = 0 then b_length src else min (b_length src) (b_max_length dst))
      \<le> length (b_data src)"
    using d by auto
  from buffer_set_data_generous [OF assms(2,3,4) this] obtain dst' where
    "buffer_set_data al dst (b_data src) (b_length src) = Ok (True, dst')" "buf_ok dst'"
    "contents dst' = take (if b_max_length dst = 0 then b_length src
       else min (b_length src) (b_max_length dst)) (b_data src)"
    "b_max_length dst' = b_max_length dst"
    by blast
  then show ?thesis
    by (auto simp: buffer_move_def buffer_set_data_def buffer_clear_def [symmetric] contents_def
        min.commute)
qed

text \<open>A source that is shorter than what the buffer has room for is read past its end.\<close>

lemma buffer_put_overread: "length src < n \<Longrightarrow> buffer_put b src n = Fault Out_Of_Bounds"
  by (simp add: buffer_put_def mem_read_def)

lemma buffer_append_overread:
  assumes ok: "buf_ok b" and small: "small_request b n" and short: "length src < n"
    and unl: "b_max_length b = 0"
    and mem: "b_length b + n \<le> b_capacity b \<or> granted al (b_length b + n + 1024)"
  shows "buffer_append al b src n = Fault Out_Of_Bounds"
proof -
  have a: "size_add (b_length b) n = b_length b + n"
    and c: "size_add (b_length b + n) 1024 = b_length b + n + 1024"
    using small by (simp_all add: small_request_def size_add_exact)
  show ?thesis
    using assms by (auto simp: buffer_append_def a c Let_def buffer_resize_def buffer_put_overread)
qed

lemma buffer_append_zero [simp]: "buffer_append al b src 0 = Ok (True, b)"
  by (simp add: buffer_append_def)

lemma buffer_remove_data_ok:
  assumes "buf_ok b" and "n \<le> b_length b"
  shows "\<exists>b'. buffer_remove_data b n = Ok b' \<and> buf_ok b' \<and> contents b' = drop n (contents b)
           \<and> b_length b' = b_length b - n \<and> b_capacity b' = b_capacity b
           \<and> b_max_length b' = b_max_length b"
proof -
  note d = buf_okD [OF assms(1)]
  have n: "n \<le> b_capacity b" using assms(2) d(2) by linarith
  let ?m = "drop n (b_data b) @ drop (b_capacity b - n) (b_data b)"
  let ?b = "b\<lparr>b_data := ?m, b_length := b_length b - n\<rparr>"
  have s: "size_sub (b_capacity b) n = b_capacity b - n" "size_sub (b_length b) n = b_length b - n"
    using assms(2) n d by (simp_all add: size_sub_exact)
  have "buffer_remove_data b n = Ok ?b"
    using n d by (simp add: buffer_remove_data_def s mem_read_def mem_write_def)
  moreover have "buf_ok ?b"
    using assms n by (auto simp: buf_ok_def)
  moreover have "contents ?b = drop n (contents b)"
    using assms n d by (simp add: contents_def drop_take)
  ultimately show ?thesis by auto
qed

lemma buffer_remove_data_fault:
  assumes "buf_ok b" and "b_capacity b < n" and "n < SIZE_MOD"
  shows "buffer_remove_data b n = Fault Out_Of_Bounds"
proof -
  note d = buf_okD [OF assms(1)]
  have "size_sub (b_capacity b) n = b_capacity b + SIZE_MOD - n"
    using assms(2,3) by (simp add: size_sub_def)
  then show ?thesis
    using assms d by (simp add: buffer_remove_data_def mem_read_def)
qed

section \<open>The contract of a byte queue\<close>

locale byte_fifo =
  fixes inv :: "'b \<Rightarrow> bool"
    and view :: "'b \<Rightarrow> byte list"
    and put :: "'b \<Rightarrow> byte list \<Rightarrow> (bool \<times> 'b) cres"
    and remove :: "'b \<Rightarrow> nat \<Rightarrow> 'b cres"
    and fits :: "'b \<Rightarrow> nat \<Rightarrow> bool"
  assumes put_law: "inv b \<Longrightarrow> fits b (length xs) \<Longrightarrow>
      \<exists>b'. put b xs = Ok (True, b') \<and> inv b' \<and> view b' = view b @ xs"
    and remove_law: "inv b \<Longrightarrow> n \<le> length (view b) \<Longrightarrow>
      \<exists>b'. remove b n = Ok b' \<and> inv b' \<and> view b' = drop n (view b)"
begin

text \<open>Two appends are one append of both pieces.\<close>

lemma put_put:
  assumes "inv b" and "fits b (length xs)" and "\<And>b'. inv b' \<Longrightarrow> view b' = view b @ xs \<Longrightarrow> fits b' (length ys)"
  shows "\<exists>b1 b2. put b xs = Ok (True, b1) \<and> put b1 ys = Ok (True, b2) \<and> inv b2
           \<and> view b2 = view b @ xs @ ys"
proof -
  obtain b1 where 1: "put b xs = Ok (True, b1)" "inv b1" "view b1 = view b @ xs"
    using put_law [OF assms(1,2)] by blast
  obtain b2 where "put b1 ys = Ok (True, b2)" "inv b2" "view b2 = view b1 @ ys"
    using put_law [OF 1(2) assms(3) [OF 1(2,3)]] by blast
  with 1 show ?thesis by auto
qed

text \<open>Skipping to a position and taking a piece there gives the piece of the stream.\<close>

lemma extract_piece:
  assumes "inv b" and "k + n \<le> length (view b)"
  shows "\<exists>b1 b2. remove b k = Ok b1 \<and> inv b1 \<and> view b1 = drop k (view b)
           \<and> remove b1 n = Ok b2 \<and> inv b2 \<and> view b2 = drop (k + n) (view b)"
proof -
  obtain b1 where 1: "remove b k = Ok b1" "inv b1" "view b1 = drop k (view b)"
    using remove_law [OF assms(1), of k] assms(2) by auto
  obtain b2 where "remove b1 n = Ok b2" "inv b2" "view b2 = drop n (view b1)"
  proof -
    have "n \<le> length (view b1)" using 1(3) assms(2) by simp
    from remove_law [OF 1(2) this] that show thesis by blast
  qed
  with 1 show ?thesis by (auto simp: add.commute)
qed

end

definition fifo_fits :: "allocator \<Rightarrow> buffer_t \<Rightarrow> nat \<Rightarrow> bool" where
  "fifo_fits al b n \<longleftrightarrow> small_request b n
     \<and> (b_length b + n \<le> b_capacity b \<or> granted al (b_length b + n + 1024))"

definition unlimited :: "buffer_t \<Rightarrow> bool" where
  "unlimited b \<longleftrightarrow> buf_ok b \<and> b_max_length b = 0"

interpretation buf: byte_fifo unlimited contents "\<lambda>b xs. buffer_append al b xs (length xs)"
  buffer_remove_data "fifo_fits al" for al
proof unfold_locales
  fix b and xs :: "byte list"
  assume "unlimited b" and "fifo_fits al b (length xs)"
  then show "\<exists>b'. buffer_append al b xs (length xs) = Ok (True, b') \<and> unlimited b'
      \<and> contents b' = contents b @ xs"
    using buffer_append_unlimited [of b "length xs" xs al]
    by (auto simp: unlimited_def fifo_fits_def appended_def buf_room_def)
next
  fix b n
  assume "unlimited b" and "n \<le> length (contents b)"
  then show "\<exists>b'. buffer_remove_data b n = Ok b' \<and> unlimited b' \<and> contents b' = drop n (contents b)"
    using buffer_remove_data_ok [of b n] by (auto simp: unlimited_def)
qed

end
