(* ===== verification/WsMessage.thy ===== *)
theory WsMessage
  imports ParseConfig Util_Buffer
begin

unbundle bit_operations_syntax

text \<open>
  \<open>wsmessage.c\<close>: the receiving side of the WebSocket protocol. Bytes from the socket collect in
  \<open>frame_buffer\<close>; \<open>get_frame\<close> takes one frame off it, unmasks its payload into \<open>frame_data\<close>;
  \<open>_wsmsg_process\<close> delivers control frames and joins the fragments of a message.

  The abstract machine at the end, \<open>amsg\<close>, works on byte lists only. The refinement lemmas show
  that the buffers implement it as long as no read leaves a block; the properties follow from it.
\<close>

section \<open>Opcodes and state\<close>

definition OPCODE_CONTINUATION :: nat where "OPCODE_CONTINUATION = 0"
definition OPCODE_TEXT :: nat where "OPCODE_TEXT = 1"
definition OPCODE_BINARY :: nat where "OPCODE_BINARY = 2"
definition OPCODE_CLOSE :: nat where "OPCODE_CLOSE = 8"
definition OPCODE_PING :: nat where "OPCODE_PING = 9"
definition OPCODE_PONG :: nat where "OPCODE_PONG = 10"

record wsmsg_t =
  w_frame :: bool
  w_message :: bool
  w_error :: bool
  w_frame_buffer :: buffer_t
  w_frame_data :: buffer_t
  w_fin :: bool
  w_opcode :: nat
  w_mask :: bool
  w_message_buffer :: buffer_t
  w_message_opcode :: nat
  w_message_started :: bool
  w_max_frame_size :: nat

definition sizeof_wsmsg_t :: nat where
  "sizeof_wsmsg_t = 72"

definition wsmsg_create :: "allocator \<Rightarrow> jsconf_t \<Rightarrow> wsmsg_t option cres" where
  "wsmsg_create al conf =
     (if \<not> granted al sizeof_wsmsg_t then Ok None
      else if \<not> in_int_range (2 * cf_max_frame_size conf) then Fault Signed_Overflow
      else case buffer_create al (size_of_int (2 * cf_max_frame_size conf)) of
        None \<Rightarrow> Ok None
      | Some frame_buffer \<Rightarrow>
          (case buffer_create al (size_of_int (cf_max_message_size conf)) of
             None \<Rightarrow> Ok None
           | Some message_buffer \<Rightarrow>
               (case buffer_create al (size_of_int (cf_max_frame_size conf)) of
                  None \<Rightarrow> Ok None
                | Some frame_data \<Rightarrow>
                    Ok (Some \<lparr>w_frame = False, w_message = False, w_error = False,
                          w_frame_buffer = frame_buffer, w_frame_data = frame_data,
                          w_fin = False, w_opcode = 0, w_mask = False,
                          w_message_buffer = message_buffer, w_message_opcode = 0,
                          w_message_started = False,
                          w_max_frame_size = size_of_int (cf_max_frame_size conf)\<rparr>))))"

section \<open>One frame\<close>

text \<open>The status of \<open>get_frame\<close>; its outputs FIN, opcode and MASK are set exactly when ready.\<close>

datatype frame_status = FS_BUILDING | FS_READY bool nat bool | FS_ERROR

text \<open>\<open>ntohs\<close> and \<open>ntohl\<close> of a number in memory: its bytes are in network order.\<close>

definition be_val :: "byte list \<Rightarrow> nat" where
  "be_val bs = foldl (\<lambda>acc b. acc * 256 + unat b) 0 bs"

text \<open>The payload length and the length of the header; \<open>None\<close> when the header is not complete.\<close>

definition frame_header :: "byte list \<Rightarrow> nat \<Rightarrow> nat \<Rightarrow> (nat \<times> nat) option cres" where
  "frame_header data len len7 =
     (if len7 = 126 then
        if len < 4 then Ok None
        else bindr (mem_read data 2 2) (\<lambda>bs. Ok (Some (be_val bs, 4)))
      else if len7 = 127 then
        if len < 10 then Ok None
        else bindr (mem_read data 6 4) (\<lambda>bs. Ok (Some (be_val bs, 10)))
      else Ok (Some (len7, 2)))"

text \<open>The part of \<open>get_frame\<close> behind the header: copy, check for completeness, unmask, remove.\<close>

definition frame_body ::
  "allocator \<Rightarrow> buffer_t \<Rightarrow> buffer_t \<Rightarrow> bool \<Rightarrow> nat \<Rightarrow> bool \<Rightarrow> nat \<Rightarrow> nat
     \<Rightarrow> (frame_status \<times> buffer_t \<times> buffer_t) cres" where
  "frame_body al src_buffer buffer fin_tmp opcode_tmp mask_tmp message_length header_length =
     (let data = b_data src_buffer;
          off = (if mask_tmp then header_length + 4 else header_length);
          frame_length = size_add off message_length
      in
      bindr (buffer_set_data al buffer (drop off data) message_length) (\<lambda>(res, buffer').
      if \<not> res then Ok (FS_ERROR, src_buffer, buffer')
      else if b_length src_buffer < frame_length then Ok (FS_BUILDING, src_buffer, buffer')
      else
        bindr (if mask_tmp
               then unmask (b_data buffer') (b_length buffer') (drop header_length data)
               else Ok (b_data buffer')) (\<lambda>payload.
        bindr (buffer_remove_data src_buffer frame_length) (\<lambda>src_buffer'.
        Ok (FS_READY fin_tmp opcode_tmp mask_tmp, src_buffer', buffer'\<lparr>b_data := payload\<rparr>)))))"

definition get_frame ::
  "allocator \<Rightarrow> buffer_t \<Rightarrow> buffer_t \<Rightarrow> (frame_status \<times> buffer_t \<times> buffer_t) cres" where
  "get_frame al src_buffer buffer =
     (let data = b_data src_buffer; len = b_length src_buffer in
      if len < 2 then Ok (FS_BUILDING, src_buffer, buffer)
      else
        bindr (mem_get data 0) (\<lambda>d0.
        if d0 AND 0x70 \<noteq> 0 then Ok (FS_ERROR, src_buffer, buffer)
        else
          bindr (mem_get data 1) (\<lambda>d1.
          bindr (frame_header data len (unat (d1 AND 0x7f))) (\<lambda>h.
          case h of
            None \<Rightarrow> Ok (FS_BUILDING, src_buffer, buffer)
          | Some (message_length, header_length) \<Rightarrow>
              frame_body al src_buffer buffer (d0 AND 0x80 \<noteq> 0) (unat (d0 AND 0x0f))
                (d1 AND 0x80 \<noteq> 0) message_length header_length))))"

section \<open>Messages\<close>

text \<open>
  One round of the loop of \<open>_wsmsg_process\<close>; the flag tells whether the loop goes on. In the
  code \<open>message\<close> is set and the loop goes on.
\<close>

definition wsmsg_step :: "allocator \<Rightarrow> wsmsg_t \<Rightarrow> (bool \<times> wsmsg_t) cres" where
  "wsmsg_step al w =
     bindr (get_frame al (w_frame_buffer w) (w_frame_data w)) (\<lambda>(fs, fb, fd).
     let w1 = w\<lparr>w_frame_buffer := fb, w_frame_data := fd\<rparr> in
     case fs of
       FS_BUILDING \<Rightarrow> Ok (False, w1)
     | FS_ERROR \<Rightarrow> Ok (False, w1\<lparr>w_error := True\<rparr>)
     | FS_READY fin opcode msk \<Rightarrow>
         if opcode = OPCODE_CLOSE \<or> opcode = OPCODE_PING \<or> opcode = OPCODE_PONG then
           if \<not> fin then Ok (False, w1\<lparr>w_error := True\<rparr>)
           else Ok (False, w1\<lparr>w_frame := True, w_fin := fin, w_opcode := opcode, w_mask := msk\<rparr>)
         else if w_message_started w1 \<and> opcode \<noteq> OPCODE_CONTINUATION then
           Ok (False, w1\<lparr>w_error := True\<rparr>)
         else if \<not> w_message_started w1 \<and> opcode = OPCODE_CONTINUATION then
           Ok (False, w1\<lparr>w_error := True\<rparr>)
         else
           bindr (buffer_append al (w_message_buffer w1) (b_data fd) (b_length fd)) (\<lambda>(res, mb).
           let w2 = w1\<lparr>w_message_buffer := mb\<rparr> in
           if \<not> res then Ok (False, w2\<lparr>w_error := True\<rparr>)
           else
             let w3 = (if \<not> w_message_started w2
                       then w2\<lparr>w_message_started := True, w_message_opcode := opcode\<rparr> else w2);
                 w4 = (if fin then w3\<lparr>w_message := True\<rparr> else w3)
             in bindr (buffer_remove_data fd (b_length fd)) (\<lambda>fd'.
                Ok (True, w4\<lparr>w_frame_data := fd'\<rparr>))))"

lemma size_sub_decreases: "0 < n \<Longrightarrow> n \<le> a \<Longrightarrow> n < SIZE_MOD \<Longrightarrow> size_sub a n < a"
  by (cases "a < SIZE_MOD") (auto simp: size_sub_exact intro: less_le_trans [OF size_sub_less])

lemma frame_header_length:
  "frame_header data len len7 = Ok (Some (ml, hl)) \<Longrightarrow> 2 \<le> hl \<and> hl \<le> 10"
  by (auto simp: frame_header_def cres_simps split: if_splits)

lemma be_val_bound: "be_val bs < 256 ^ length bs"
proof (induction bs rule: rev_induct)
  case Nil
  then show ?case by (simp add: be_val_def)
next
  case (snoc b bs)
  have "unat b < 256" by (rule byte_bound)
  with snoc show ?case
    by (simp add: be_val_def)
qed

lemma frame_header_bound:
  assumes "frame_header data len len7 = Ok (Some (ml, hl))" and "len7 < 128"
  shows "ml < 2 ^ 32"
proof -
  have "be_val (take 2 (drop 2 data)) < 256 ^ 2" if "4 \<le> length data"
    using that be_val_bound [of "take 2 (drop 2 data)"] by simp
  moreover have "be_val (take 4 (drop 6 data)) < 256 ^ 4" if "10 \<le> length data"
    using that be_val_bound [of "take 4 (drop 6 data)"] by simp
  ultimately show ?thesis
    using assms by (auto simp: frame_header_def cres_simps split: if_splits)
qed

lemma and_7f_bound: "unat (x AND 0x7f :: byte) < 128"
proof -
  have "x AND 0x7f \<le> (0x7f :: byte)"
    by (rule word_and_le1)
  then show ?thesis
    by (simp add: word_le_nat_alt)
qed

lemma frame_body_ready_shrinks:
  assumes "frame_body al src buffer f oc m ml hl = Ok (FS_READY fin opcode msk, src', buffer')"
    and "ml < 2 ^ 32" and "2 \<le> hl" and "hl \<le> 10"
  shows "b_length src' < b_length src"
proof -
  let ?off = "if m then hl + 4 else hl"
  have le: "size_add ?off ml \<le> b_length src"
    and rm: "buffer_remove_data src (size_add ?off ml) = Ok src'"
    using assms(1) by (auto simp: frame_body_def Let_def cres_simps split: if_splits)
  have pos: "0 < size_add ?off ml" "size_add ?off ml < SIZE_MOD"
    using assms(2-4) by (auto simp: size_add_def SIZE_MOD_def)
  have "b_length src' = size_sub (b_length src) (size_add ?off ml)"
    using rm by (auto simp: buffer_remove_data_def cres_simps)
  then show ?thesis
    using size_sub_decreases [OF pos(1) le pos(2)] by simp
qed

lemma get_frame_ready_shrinks:
  assumes "get_frame al src buffer = Ok (FS_READY fin opcode msk, src', buffer')"
  shows "b_length src' < b_length src"
proof -
  obtain d1 ml hl f oc m where
    h: "frame_header (b_data src) (b_length src) (unat (d1 AND 0x7f :: byte)) = Ok (Some (ml, hl))"
    and body: "frame_body al src buffer f oc m ml hl = Ok (FS_READY fin opcode msk, src', buffer')"
    using assms by (auto simp: get_frame_def Let_def cres_simps split: if_splits option.splits)
  show ?thesis
    using frame_body_ready_shrinks [OF body frame_header_bound [OF h and_7f_bound]]
      frame_header_length [OF h] by simp
qed

lemma wsmsg_step_again_shrinks:
  assumes "wsmsg_step al w = Ok (True, w')"
  shows "b_length (w_frame_buffer w') < b_length (w_frame_buffer w)"
proof -
  obtain fs fb fd where g: "get_frame al (w_frame_buffer w) (w_frame_data w) = Ok (fs, fb, fd)"
    using assms by (auto simp: wsmsg_step_def cres_simps)
  obtain fin opcode msk where "fs = FS_READY fin opcode msk"
    using assms by (cases fs) (auto simp: wsmsg_step_def g)
  with g have "b_length fb < b_length (w_frame_buffer w)"
    by (auto intro: get_frame_ready_shrinks)
  moreover have "w_frame_buffer w' = fb"
    using assms \<open>fs = FS_READY fin opcode msk\<close>
    by (auto simp: wsmsg_step_def g Let_def cres_simps split: if_splits)
  ultimately show ?thesis by simp
qed

function wsmsg_process_loop :: "allocator \<Rightarrow> wsmsg_t \<Rightarrow> wsmsg_t cres" where
  "wsmsg_process_loop al w =
     bindr (wsmsg_step al w) (\<lambda>r. if fst r then wsmsg_process_loop al (snd r) else Ok (snd r))"
  by pat_completeness auto
termination
proof (relation "measure (\<lambda>(al, w). b_length (w_frame_buffer w))", simp)
  fix al w r
  assume "wsmsg_step al w = Ok r" and "fst r"
  then show "((al, snd r), (al, w)) \<in> measure (\<lambda>(al, w). b_length (w_frame_buffer w))"
    by (cases r) (auto dest: wsmsg_step_again_shrinks)
qed

declare wsmsg_process_loop.simps [simp del]

definition wsmsg_process :: "allocator \<Rightarrow> wsmsg_t \<Rightarrow> wsmsg_t cres" where
  "wsmsg_process al w =
     (if w_message w \<or> w_frame w \<or> w_error w then Ok w else wsmsg_process_loop al w)"

definition wsmsg_add :: "allocator \<Rightarrow> wsmsg_t \<Rightarrow> byte list \<Rightarrow> nat \<Rightarrow> (bool \<times> wsmsg_t) cres" where
  "wsmsg_add al w data n =
     bindr (buffer_append al (w_frame_buffer w) data n) (\<lambda>(res, fb).
     if \<not> res then Ok (False, w\<lparr>w_frame_buffer := fb\<rparr>)
     else bindr (wsmsg_process al (w\<lparr>w_frame_buffer := fb\<rparr>)) (\<lambda>w'. Ok (True, w')))"

definition wsmsg_fail :: "wsmsg_t \<Rightarrow> bool" where
  "wsmsg_fail w = w_error w"

definition wsmsg_has_message :: "wsmsg_t \<Rightarrow> bool" where
  "wsmsg_has_message w = w_message w"

definition wsmsg_has_frame :: "wsmsg_t \<Rightarrow> bool" where
  "wsmsg_has_frame w = w_frame w"

text \<open>\<open>wsmsg_get_message\<close>: result, state, the caller's buffer, and \<open>*opcode\<close> when it is written.\<close>

definition wsmsg_get_message ::
  "allocator \<Rightarrow> wsmsg_t \<Rightarrow> buffer_t \<Rightarrow> (bool \<times> wsmsg_t \<times> buffer_t \<times> nat option) cres" where
  "wsmsg_get_message al w buffer =
     (if \<not> w_message w then Ok (False, w, buffer, None)
      else
        bindr (buffer_move al (w_message_buffer w) buffer) (\<lambda>(res, mb, buffer').
        let w1 = w\<lparr>w_message := False, w_message_started := False, w_message_buffer := mb\<rparr> in
        bindr (wsmsg_process al w1) (\<lambda>w2. Ok (res, w2, buffer', Some (w_message_opcode w1)))))"

definition wsmsg_get_frame ::
  "allocator \<Rightarrow> wsmsg_t \<Rightarrow> buffer_t
     \<Rightarrow> (bool \<times> wsmsg_t \<times> buffer_t \<times> (bool \<times> nat \<times> bool) option) cres" where
  "wsmsg_get_frame al w buffer =
     (if \<not> w_frame w then Ok (False, w, buffer, None)
      else
        bindr (buffer_move al (w_frame_data w) buffer) (\<lambda>(res, fd, buffer').
        let w1 = w\<lparr>w_frame := False, w_frame_data := fd\<rparr> in
        bindr (wsmsg_process al w1) (\<lambda>w2.
        Ok (res, w2, buffer', Some (w_fin w1, w_opcode w1, w_mask w1)))))"

section \<open>The wire format and the abstract machine\<close>

text \<open>
  RFC 6455, 5.2: the bytes of a frame with a payload shorter than 4 GiB, masked when a key is
  given. This is the encoding the receiver has to undo.
\<close>

fun be_bytes :: "nat \<Rightarrow> nat \<Rightarrow> byte list" where
  "be_bytes 0 n = []"
| "be_bytes (Suc k) n = be_bytes k (n div 256) @ [of_nat n]"

definition length_bytes :: "nat \<Rightarrow> byte list" where
  "length_bytes n =
     (if n < 126 then [] else if n < 65536 then be_bytes 2 n else be_bytes 8 n)"

definition ws_frame :: "bool \<Rightarrow> nat \<Rightarrow> byte list option \<Rightarrow> byte list \<Rightarrow> byte list" where
  "ws_frame fin opcode key payload =
     (let len7 = (if length payload < 126 then length payload
                  else if length payload < 65536 then 126 else 127)
      in [of_nat ((if fin then 128 else 0) + opcode),
          of_nat ((if key = None then 0 else 128) + len7)]
         @ length_bytes (length payload)
         @ (case key of None \<Rightarrow> payload | Some k \<Rightarrow> k @ mask_bytes k payload))"

text \<open>What \<open>get_frame\<close> computes, on byte lists; a limit of 0 is no limit.\<close>

datatype frame_parse = Incomplete | Malformed | Complete bool nat bool "byte list" "byte list"

definition cut :: "nat \<Rightarrow> byte list \<Rightarrow> byte list" where
  "cut lim xs = (if lim = 0 then xs else take lim xs)"

definition parse_header :: "byte list \<Rightarrow> (nat \<times> nat) option" where
  "parse_header bs =
     (let len7 = unat (bs ! 1 AND 0x7f) in
      if len7 = 126 then if length bs < 4 then None else Some (be_val (take 2 (drop 2 bs)), 4)
      else if len7 = 127 then if length bs < 10 then None else Some (be_val (take 4 (drop 6 bs)), 10)
      else Some (len7, 2))"

definition parse_frame :: "nat \<Rightarrow> byte list \<Rightarrow> frame_parse" where
  "parse_frame lim bs =
     (if length bs < 2 then Incomplete
      else if bs ! 0 AND 0x70 \<noteq> 0 then Malformed
      else case parse_header bs of
        None \<Rightarrow> Incomplete
      | Some (ml, hl) \<Rightarrow>
          (let masked = (bs ! 1 AND 0x80 \<noteq> 0);
               off = (if masked then hl + 4 else hl);
               raw = cut lim (take ml (drop off bs))
           in if length bs < off + ml then Incomplete
              else Complete (bs ! 0 AND 0x80 \<noteq> 0) (unat (bs ! 0 AND 0x0f)) masked
                     (if masked then mask_bytes (drop hl bs) raw else raw) (drop (off + ml) bs)))"

text \<open>The state of the receiver without its buffers.\<close>

record amsg =
  a_in :: "byte list"
  a_msg :: "byte list"
  a_started :: bool
  a_opcode :: nat
  a_message :: bool
  a_frame :: "(bool \<times> nat \<times> bool \<times> byte list) option"
  a_error :: bool

definition amsg_init :: amsg where
  "amsg_init = \<lparr>a_in = [], a_msg = [], a_started = False, a_opcode = 0, a_message = False,
     a_frame = None, a_error = False\<rparr>"

text \<open>
  One frame: \<open>lim\<close> is the limit of a frame and \<open>mlim\<close> that of a message. An append that finds the
  message full while there is payload left is an error.
\<close>

definition astep :: "nat \<Rightarrow> nat \<Rightarrow> amsg \<Rightarrow> bool \<times> amsg" where
  "astep lim mlim a =
     (case parse_frame lim (a_in a) of
        Incomplete \<Rightarrow> (False, a)
      | Malformed \<Rightarrow> (False, a\<lparr>a_error := True\<rparr>)
      | Complete fin opcode msk payload rest \<Rightarrow>
          let a1 = a\<lparr>a_in := rest\<rparr> in
          if opcode = OPCODE_CLOSE \<or> opcode = OPCODE_PING \<or> opcode = OPCODE_PONG then
            if \<not> fin then (False, a1\<lparr>a_error := True\<rparr>)
            else (False, a1\<lparr>a_frame := Some (fin, opcode, msk, payload)\<rparr>)
          else if a_started a1 \<noteq> (opcode = OPCODE_CONTINUATION) then (False, a1\<lparr>a_error := True\<rparr>)
          else if payload \<noteq> [] \<and> mlim \<noteq> 0 \<and> mlim \<le> length (a_msg a1) then (False, a1\<lparr>a_error := True\<rparr>)
          else (True, a1\<lparr>a_msg := cut mlim (a_msg a1 @ payload), a_started := True,
                        a_opcode := (if a_started a1 then a_opcode a1 else opcode),
                        a_message := (fin \<or> a_message a1)\<rparr>))"

text \<open>How far \<open>get_frame\<close> reads: it copies the payload before it knows that the frame is complete.\<close>

definition frame_extent :: "nat \<Rightarrow> byte list \<Rightarrow> nat" where
  "frame_extent lim bs =
     (case parse_header bs of
        None \<Rightarrow> 0
      | Some (ml, hl) \<Rightarrow> (if bs ! 1 AND 0x80 \<noteq> 0 then hl + 4 else hl) + (if lim = 0 then ml else min ml lim))"

fun parsed_as ::
  "frame_parse \<Rightarrow> frame_status \<Rightarrow> byte list \<Rightarrow> byte list \<Rightarrow> byte list \<Rightarrow> bool" where
  "parsed_as Incomplete fs old rest payload \<longleftrightarrow> fs = FS_BUILDING \<and> rest = old"
| "parsed_as Malformed fs old rest payload \<longleftrightarrow> fs = FS_ERROR \<and> rest = old"
| "parsed_as (Complete fin opcode msk p r) fs old rest payload \<longleftrightarrow>
     fs = FS_READY fin opcode msk \<and> rest = r \<and> payload = p"

section \<open>Refinement of one frame\<close>

lemma take_drop_contents:
  "off + n \<le> b_length b \<Longrightarrow> take n (drop off (contents b)) = take n (drop off (b_data b))"
  by (simp add: contents_def drop_take min_def)

lemma nth_contents: "i < b_length b \<Longrightarrow> contents b ! i = b_data b ! i"
  by (simp add: contents_def)

lemma frame_header_contents:
  assumes "buf_ok src" and "2 \<le> b_length src"
  shows "frame_header (b_data src) (b_length src) (unat (contents src ! 1 AND 0x7f))
           = Ok (parse_header (contents src))"
  using assms buf_okD [OF assms(1)]
  by (auto simp: frame_header_def parse_header_def mem_read_def Let_def take_drop_contents)

lemma parse_header_bounds:
  assumes "parse_header bs = Some (ml, hl)" and "2 \<le> length bs"
  shows "ml < 2 ^ 32" and "2 \<le> hl" and "hl \<le> 10" and "hl \<le> length bs"
proof -
  have "be_val (take 2 (drop 2 bs)) < 256 ^ 2" if "4 \<le> length bs"
    using that be_val_bound [of "take 2 (drop 2 bs)"] by simp
  moreover have "be_val (take 4 (drop 6 bs)) < 256 ^ 4" if "10 \<le> length bs"
    using that be_val_bound [of "take 4 (drop 6 bs)"] by simp
  ultimately show "ml < 2 ^ 32" "2 \<le> hl" "hl \<le> 10" "hl \<le> length bs"
    using assms and_7f_bound [of "bs ! 1"]
    by (auto simp: parse_header_def Let_def split: if_splits)
qed

lemma unmask_contents:
  assumes "buf_ok buffer" and "4 \<le> length key"
  shows "unmask (b_data buffer) (b_length buffer) key
           = Ok (mask_bytes key (contents buffer) @ drop (b_length buffer) (b_data buffer))"
  using assms buf_okD [OF assms(1)] by (simp add: unmask_eq contents_def)

lemma set_data_contents:
  assumes "buf_ok b" and "length xs = b_length b"
  shows "buf_ok (b\<lparr>b_data := xs @ drop (b_length b) (b_data b)\<rparr>)"
    and "contents (b\<lparr>b_data := xs @ drop (b_length b) (b_data b)\<rparr>) = xs"
  using assms by (auto simp: buf_ok_def contents_def)

text \<open>The payload of a complete frame, unmasked in place when the frame has a key.\<close>

lemma frame_payload:
  assumes src: "buf_ok src" and b: "buf_ok b" and key: "masked \<Longrightarrow> hl + 4 \<le> b_length src"
  shows "\<exists>p. (if masked then unmask (b_data b) (b_length b) (drop hl (b_data src)) else Ok (b_data b)) = Ok p
     \<and> buf_ok (b\<lparr>b_data := p\<rparr>)
     \<and> contents (b\<lparr>b_data := p\<rparr>) = (if masked then mask_bytes (drop hl (contents src)) (contents b) else contents b)"
proof (cases masked)
  case True
  let ?key = "drop hl (b_data src)"
  have k: "hl + 4 \<le> b_length src" using key True .
  then have k4: "4 \<le> length ?key" "4 \<le> length (drop hl (contents src))" using buf_okD [OF src] src by simp_all
  have "take 4 ?key = take 4 (drop hl (contents src))" using take_drop_contents [OF k] by simp
  then have "mask_bytes ?key (contents b) = mask_bytes (drop hl (contents src)) (contents b)"
    using k4 by (rule mask_bytes_cong)
  moreover have "length (mask_bytes ?key (contents b)) = b_length b" using b by simp
  ultimately show ?thesis using True unmask_contents [OF b k4(1)] set_data_contents [OF b] by simp
qed (use b in simp)

lemma frame_body_refines:
  assumes src: "buf_ok src" and buf: "buf_ok buffer" and al: "generous al"
    and ml: "ml < 2 ^ 32" and hl: "hl \<le> 10"
    and off: "off = (if masked then hl + 4 else hl)"
    and r: "r = (if b_max_length buffer = 0 then ml else min ml (b_max_length buffer))"
    and rd: "off + r \<le> b_capacity src"
  shows "\<exists>fs src' buffer'. frame_body al src buffer fin opcode masked ml hl = Ok (fs, src', buffer')
     \<and> buf_ok src' \<and> b_max_length src' = b_max_length src \<and> b_capacity src' = b_capacity src
     \<and> buf_ok buffer' \<and> b_max_length buffer' = b_max_length buffer
     \<and> (if b_length src < off + ml then fs = FS_BUILDING \<and> contents src' = contents src
        else fs = FS_READY fin opcode masked \<and> contents src' = drop (off + ml) (contents src)
          \<and> contents buffer' =
              (let raw = cut (b_max_length buffer) (take ml (drop off (contents src)))
               in if masked then mask_bytes (drop hl (contents src)) raw else raw))"
proof -
  note d = buf_okD [OF src]
  have fl: "size_add off ml = off + ml"
    using ml hl off by (auto simp: size_add_def SIZE_MOD_def)
  have small: "ml + 1024 \<le> PTRDIFF_MAX"
    using ml by (simp add: PTRDIFF_MAX_def)
  have "r \<le> length (drop off (b_data src))"
    using rd d by simp
  then obtain b1 where set: "buffer_set_data al buffer (drop off (b_data src)) ml = Ok (True, b1)"
    and b1: "buf_ok b1" "contents b1 = take r (drop off (b_data src))" "b_max_length b1 = b_max_length buffer"
    using buffer_set_data_generous [OF buf al small, of "drop off (b_data src)"]
    unfolding r [symmetric] by blast
  show ?thesis
  proof (cases "b_length src < off + ml")
    case True
    then have "frame_body al src buffer fin opcode masked ml hl = Ok (FS_BUILDING, src, b1)"
      using set off fl by (simp add: frame_body_def)
    then show ?thesis using True src b1 by auto
  next
    case False
    then have le: "off + ml \<le> b_length src" by simp
    obtain src1 where s1: "buffer_remove_data src (off + ml) = Ok src1" "buf_ok src1"
        "contents src1 = drop (off + ml) (contents src)" "b_capacity src1 = b_capacity src" "b_max_length src1 = b_max_length src"
      using buffer_remove_data_ok [OF src le] by blast
    have raw: "contents b1 = cut (b_max_length buffer) (take ml (drop off (contents src)))"
      using le r by (simp add: b1 cut_def take_drop_contents min.commute)
    obtain p where p: "(if masked then unmask (b_data b1) (b_length b1) (drop hl (b_data src)) else Ok (b_data b1)) = Ok p"
      "buf_ok (b1\<lparr>b_data := p\<rparr>)"
      "contents (b1\<lparr>b_data := p\<rparr>) = (if masked then mask_bytes (drop hl (contents src)) (contents b1) else contents b1)"
      using frame_payload [OF src b1(1), of masked hl] le off by (cases masked) auto
    have "frame_body al src buffer fin opcode masked ml hl = Ok (FS_READY fin opcode masked, src1, b1\<lparr>b_data := p\<rparr>)"
      using False set s1(1) p(1) unfolding frame_body_def off [symmetric] Let_def fl by simp
    then show ?thesis using False s1 b1(3) p(2,3) raw by simp
  qed
qed

lemma get_frame_header:
  assumes src: "buf_ok src" and h: "2 \<le> b_length src" "contents src ! 0 AND 0x70 = 0" "parse_header (contents src) = Some (ml, hl)"
  shows "get_frame al src buffer = frame_body al src buffer (contents src ! 0 AND 0x80 \<noteq> 0)
     (unat (contents src ! 0 AND 0x0f)) (contents src ! 1 AND 0x80 \<noteq> 0) ml hl"
    and "ml < 2 ^ 32" and "hl \<le> 10"
proof -
  have get: "mem_get (b_data src) 0 = Ok (contents src ! 0)" "mem_get (b_data src) 1 = Ok (contents src ! 1)"
    using h(1) buf_okD [OF src] by (auto simp: mem_get_def nth_contents)
  show "get_frame al src buffer = frame_body al src buffer (contents src ! 0 AND 0x80 \<noteq> 0)
     (unat (contents src ! 0 AND 0x0f)) (contents src ! 1 AND 0x80 \<noteq> 0) ml hl"
    using h get frame_header_contents [OF src] by (simp add: get_frame_def)
  show "ml < 2 ^ 32" "hl \<le> 10"
    using parse_header_bounds [of "contents src" ml hl] h src by auto
qed

lemma get_frame_refines:
  assumes src: "buf_ok src" and buf: "buf_ok buffer" and al: "generous al"
    and rd: "2 \<le> b_length src \<Longrightarrow> frame_extent (b_max_length buffer) (contents src) \<le> b_capacity src"
  shows "\<exists>fs src' buffer'. get_frame al src buffer = Ok (fs, src', buffer')
     \<and> buf_ok src' \<and> b_max_length src' = b_max_length src \<and> b_capacity src' = b_capacity src
     \<and> buf_ok buffer' \<and> b_max_length buffer' = b_max_length buffer
     \<and> parsed_as (parse_frame (b_max_length buffer) (contents src)) fs (contents src)
          (contents src') (contents buffer')"
proof -
  have len: "length (contents src) = b_length src" using src by simp
  have get: "mem_get (b_data src) 0 = Ok (contents src ! 0)" "mem_get (b_data src) 1 = Ok (contents src ! 1)" if "2 \<le> b_length src"
    using that buf_okD [OF src] by (auto simp: mem_get_def nth_contents)
  consider (short) "\<not> 2 \<le> b_length src" | (reserved) "2 \<le> b_length src" "contents src ! 0 AND 0x70 \<noteq> 0"
    | (cut) "2 \<le> b_length src" "contents src ! 0 AND 0x70 = 0" "parse_header (contents src) = None"
    | (header) ml hl where "2 \<le> b_length src" "contents src ! 0 AND 0x70 = 0" "parse_header (contents src) = Some (ml, hl)"
    by (metis option.exhaust surj_pair)
  then show ?thesis
  proof cases
    case header
    note g = get_frame_header [OF src header]
    have "(if contents src ! 1 AND 0x80 \<noteq> 0 then hl + 4 else hl)
        + (if b_max_length buffer = 0 then ml else min ml (b_max_length buffer)) \<le> b_capacity src"
      using rd header by (simp add: frame_extent_def)
    from frame_body_refines [OF src buf al g(2,3) refl refl this]
    show ?thesis
      unfolding g(1) using header len by (auto simp: parse_frame_def Let_def)
  qed (use get frame_header_contents [OF src] src buf len in \<open>auto simp: get_frame_def parse_frame_def\<close>)
qed

section \<open>The wire format is understood\<close>

lemma length_be_bytes [simp]: "length (be_bytes k n) = k"
  by (induction k arbitrary: n) auto

lemma be_val_snoc: "be_val (bs @ [b]) = be_val bs * 256 + unat b"
  by (simp add: be_val_def)

lemma be_val_be_bytes: "be_val (be_bytes k n) = n mod 256 ^ k"
proof (induction k arbitrary: n)
  case 0
  then show ?case by (simp add: be_val_def)
next
  case (Suc k)
  have "unat (of_nat n :: byte) = n mod 256"
    by (simp add: unat_of_nat)
  moreover have "n mod 256 ^ Suc k = 256 * (n div 256 mod 256 ^ k) + n mod 256"
    by (simp add: mod_mult2_eq)
  ultimately show ?case
    by (simp add: be_val_snoc Suc.IH)
qed

lemma be_bytes_add: "be_bytes (j + k) n = be_bytes j (n div 256 ^ k) @ be_bytes k n"
  by (induction k arbitrary: n) (simp_all add: div_mult2_eq)

lemma header_byte0:
  assumes "opcode < 16"
  shows "of_nat ((if fin then 128 else 0) + opcode) AND 0x70 = (0 :: byte)"
    and "of_nat ((if fin then 128 else 0) + opcode) AND 0x80 \<noteq> (0 :: byte) \<longleftrightarrow> fin"
    and "unat (of_nat ((if fin then 128 else 0) + opcode) AND 0x0f :: byte) = opcode"
proof -
  have "\<forall>opc \<in> set [0..<16]. \<forall>f \<in> set [True, False].
      of_nat ((if f then 128 else 0) + opc) AND 0x70 = (0 :: byte)
      \<and> (of_nat ((if f then 128 else 0) + opc) AND 0x80 \<noteq> (0 :: byte) \<longleftrightarrow> f)
      \<and> unat (of_nat ((if f then 128 else 0) + opc) AND 0x0f :: byte) = opc"
    by code_simp
  then show "of_nat ((if fin then 128 else 0) + opcode) AND 0x70 = (0 :: byte)"
    and "of_nat ((if fin then 128 else 0) + opcode) AND 0x80 \<noteq> (0 :: byte) \<longleftrightarrow> fin"
    and "unat (of_nat ((if fin then 128 else 0) + opcode) AND 0x0f :: byte) = opcode"
    using assms by auto
qed

lemma header_byte1:
  assumes "len7 < 128"
  shows "of_nat ((if m then 0 else 128) + len7) AND 0x80 \<noteq> (0 :: byte) \<longleftrightarrow> \<not> m"
    and "unat (of_nat ((if m then 0 else 128) + len7) AND 0x7f :: byte) = len7"
proof -
  have "\<forall>n \<in> set [0..<128]. \<forall>f \<in> set [True, False].
      (of_nat ((if f then 0 else 128) + n) AND 0x80 \<noteq> (0 :: byte) \<longleftrightarrow> \<not> f)
      \<and> unat (of_nat ((if f then 0 else 128) + n) AND 0x7f :: byte) = n"
    by code_simp
  then show "of_nat ((if m then 0 else 128) + len7) AND 0x80 \<noteq> (0 :: byte) \<longleftrightarrow> \<not> m"
    and "unat (of_nat ((if m then 0 else 128) + len7) AND 0x7f :: byte) = len7"
    using assms by auto
qed

lemma mask_bytes_cut: "mask_bytes k (cut lim xs) = cut lim (mask_bytes k xs)"
  by (rule nth_equalityI) (auto simp: mask_bytes_def cut_def)

lemma parse_header_ws_frame:
  assumes "length payload < 2 ^ 32"
  shows "parse_header (ws_frame fin opcode key payload @ rest)
           = Some (length payload, 2 + length (length_bytes (length payload)))"
proof -
  let ?n = "length payload"
  have n: "?n < 4294967296" using assms by simp
  consider "?n < 126" | "126 \<le> ?n" "?n < 65536" | "65536 \<le> ?n" by linarith
  then show ?thesis
  proof cases
    case 1
    then show ?thesis
      using header_byte1(2) [of ?n "key = None"]
      by (simp add: parse_header_def ws_frame_def length_bytes_def Let_def)
  next
    case 2
    then show ?thesis
      using header_byte1(2) [of 126 "key = None"] be_val_be_bytes [of 2 ?n]
      by (simp add: parse_header_def ws_frame_def length_bytes_def Let_def)
  next
    case 3
    have "take 4 (drop 4 (be_bytes 8 ?n @ xs)) = be_bytes 4 ?n" for xs
      using be_bytes_add [of 4 4 ?n] by simp
    then show ?thesis
      using 3 n header_byte1(2) [of 127 "key = None"] be_val_be_bytes [of 4 ?n]
      by (simp add: parse_header_def ws_frame_def length_bytes_def Let_def)
  qed
qed

lemma parse_frame_Complete:
  assumes len2: "2 \<le> length bs" and rsv: "bs ! 0 AND 0x70 = 0"
    and h: "parse_header bs = Some (length body, hl)" and hl: "hl \<le> length bs"
    and d: "drop hl bs = kb @ body @ rest"
    and kb: "length kb = (if bs ! 1 AND 0x80 \<noteq> 0 then 4 else 0)"
  shows "parse_frame lim bs = Complete (bs ! 0 AND 0x80 \<noteq> 0) (unat (bs ! 0 AND 0x0f))
     (bs ! 1 AND 0x80 \<noteq> 0) (if kb = [] then cut lim body else mask_bytes kb (cut lim body)) rest"
proof -
  obtain mk where mk: "(bs ! 1 AND 0x80 \<noteq> 0) = mk" by simp
  define off where "off = (if mk then hl + 4 else hl)"
  have off: "off = hl + length kb" using kb mk off_def by auto
  have bs: "bs = take hl bs @ kb @ body @ rest"
    using append_take_drop_id [of hl bs] d by simp
  have len: "length bs = off + length body + length rest"
    using arg_cong [OF d, of length] hl off by simp
  have "drop off bs = body @ rest"
    by (subst bs) (use hl off in simp)
  then have raw: "take (length body) (drop off bs) = body" by simp
  have "drop (off + length body) bs = drop (length body) (drop off bs)"
    by (simp add: add.commute)
  then have rest: "drop (off + length body) bs = rest"
    using \<open>drop off bs = body @ rest\<close> by simp
  have key: "mask_bytes (drop hl bs) xs = mask_bytes kb xs" if mk for xs
    using kb mk that by (intro mask_bytes_cong) (auto simp: d)
  have kb_empty: "kb = [] \<longleftrightarrow> \<not> mk"
    using kb mk by auto
  have "parse_frame lim bs = Complete (bs ! 0 AND 0x80 \<noteq> 0) (unat (bs ! 0 AND 0x0f)) mk
     (if mk then mask_bytes (drop hl bs) (cut lim body) else cut lim body) rest"
    unfolding parse_frame_def Let_def h option.case prod.case mk off_def [symmetric] raw rest
    using len2 rsv len by simp
  then show ?thesis
    unfolding mk kb_empty using key by simp
qed

lemma parse_frame_ws_frame:
  assumes op: "opcode < 16" and len: "length payload < 2 ^ 32"
    and key: "\<And>k. key = Some k \<Longrightarrow> length k = 4"
  shows "parse_frame lim (ws_frame fin opcode key payload @ rest)
           = Complete fin opcode (key \<noteq> None) (cut lim payload) rest"
proof -
  let ?n = "length payload"
  define len7 where "len7 = (if ?n < 126 then ?n else if ?n < 65536 then 126 else 127)"
  define d0 where "d0 = (of_nat ((if fin then 128 else 0) + opcode) :: byte)"
  define d1 where "d1 = (of_nat ((if key = None then 0 else 128) + len7) :: byte)"
  define kb where "kb = (case key of None \<Rightarrow> [] | Some k \<Rightarrow> k)"
  define body where "body = (case key of None \<Rightarrow> payload | Some k \<Rightarrow> mask_bytes k payload)"
  define bs where "bs = ws_frame fin opcode key payload @ rest"
  have bs: "bs = d0 # d1 # length_bytes ?n @ kb @ body @ rest"
    by (simp add: bs_def ws_frame_def d0_def d1_def len7_def kb_def body_def Let_def split: option.splits)
  have "len7 < 128" by (simp add: len7_def)
  then have m: "d1 AND 0x80 \<noteq> 0 \<longleftrightarrow> key \<noteq> None"
    unfolding d1_def by (rule header_byte1(1))
  note d0 = header_byte0 [OF op, of fin, folded d0_def]
  have body: "length body = ?n"
    by (simp add: body_def split: option.splits)
  have h: "parse_header bs = Some (length body, 2 + length (length_bytes ?n))"
    unfolding bs_def body using len by (rule parse_header_ws_frame)
  have kb: "length kb = (if bs ! 1 AND 0x80 \<noteq> 0 then 4 else 0)"
    using key by (simp add: bs m kb_def split: option.splits)
  have drop: "drop (2 + length (length_bytes ?n)) bs = kb @ body @ rest"
    by (simp add: bs)
  have bs01: "bs ! 0 = d0" "bs ! 1 = d1" "2 \<le> length bs"
    by (simp_all add: bs)
  have "parse_frame lim bs = Complete (d0 AND 0x80 \<noteq> 0) (unat (d0 AND 0x0f))
      (d1 AND 0x80 \<noteq> 0) (if kb = [] then cut lim body else mask_bytes kb (cut lim body)) rest"
    using parse_frame_Complete [OF bs01(3) _ h _ drop kb, of lim] d0(1) bs01
    by (simp add: bs)
  also have "(if kb = [] then cut lim body else mask_bytes kb (cut lim body)) = cut lim payload"
    using key by (auto simp: kb_def body_def mask_bytes_cut split: option.splits)
  finally show ?thesis
    by (simp only: bs_def d0 m)
qed

end
