(* ===== verification/WsReceiver.thy ===== *)
theory WsReceiver
  imports WsMessage
begin

unbundle bit_operations_syntax

text \<open>
  The receiver of \<open>wsmessage.c\<close> as a whole. \<open>aloop\<close>, \<open>aadd\<close>, \<open>aget_message\<close> and \<open>aget_frame\<close> are
  the operations on the abstract state \<open>amsg\<close>; the refinement lemmas show that the operations of
  the model do the same on the bytes of their buffers, and touch no memory outside them as long as
  \<open>get_frame\<close> finds the bytes it copies inside the block (\<open>reads_ok\<close>).
\<close>

section \<open>The abstract operations\<close>

lemma parse_frame_Complete_lengths:
  assumes "parse_frame lim bs = Complete fin opcode msk payload rest"
  shows "length rest < length bs" and "length payload + length rest \<le> length bs"
    and "0 < lim \<Longrightarrow> length payload \<le> lim"
proof -
  obtain ml hl where h: "parse_header bs = Some (ml, hl)" and len: "2 \<le> length bs"
    using assms by (auto simp: parse_frame_def split: if_splits option.splits)
  then have hl: "2 \<le> hl" using parse_header_bounds by blast
  let ?off = "if bs ! 1 AND 0x80 \<noteq> 0 then hl + 4 else hl"
  have tot: "?off + ml \<le> length bs" and rest: "rest = drop (?off + ml) bs"
    and p: "length payload = length (cut lim (take ml (drop ?off bs)))"
    using assms len h unfolding parse_frame_def Let_def by (auto split: if_splits)
  have "length payload \<le> ml"
    unfolding p by (auto simp: cut_def)
  moreover have "0 < ?off" using hl by simp
  ultimately show "length rest < length bs" "length payload + length rest \<le> length bs"
    using tot by (auto simp: rest)
  show "length payload \<le> lim" if "0 < lim"
    unfolding p using that by (simp add: cut_def)
qed

lemma astep_again_shrinks:
  assumes "astep lim mlim a = (True, a')"
  shows "length (a_in a') < length (a_in a)"
  using assms parse_frame_Complete_lengths(1)
  by (auto simp: astep_def Let_def split: frame_parse.splits if_splits)

function aloop :: "nat \<Rightarrow> nat \<Rightarrow> amsg \<Rightarrow> amsg" where
  "aloop lim mlim a = (if fst (astep lim mlim a) then aloop lim mlim (snd (astep lim mlim a))
                       else snd (astep lim mlim a))"
  by pat_completeness auto
termination
  by (relation "measure (\<lambda>(lim, mlim, a). length (a_in a))")
    (auto intro: astep_again_shrinks simp: prod_eq_iff)

declare aloop.simps [simp del]

definition aprocess :: "nat \<Rightarrow> nat \<Rightarrow> amsg \<Rightarrow> amsg" where
  "aprocess lim mlim a =
     (if a_message a \<or> a_frame a \<noteq> None \<or> a_error a then a else aloop lim mlim a)"

definition aadd :: "nat \<Rightarrow> nat \<Rightarrow> byte list \<Rightarrow> amsg \<Rightarrow> bool \<times> amsg" where
  "aadd lim mlim xs a =
     (if xs \<noteq> [] \<and> lim \<noteq> 0 \<and> 2 * lim \<le> length (a_in a) then (False, a)
      else (True, aprocess lim mlim (a\<lparr>a_in := cut (2 * lim) (a_in a @ xs)\<rparr>)))"

definition aget_message :: "nat \<Rightarrow> nat \<Rightarrow> amsg \<Rightarrow> (nat \<times> byte list) option \<times> amsg" where
  "aget_message lim mlim a =
     (if \<not> a_message a then (None, a)
      else (Some (a_opcode a, a_msg a),
            aprocess lim mlim (a\<lparr>a_message := False, a_started := False, a_msg := []\<rparr>)))"

definition aget_frame :: "nat \<Rightarrow> nat \<Rightarrow> amsg \<Rightarrow> (bool \<times> nat \<times> bool \<times> byte list) option \<times> amsg" where
  "aget_frame lim mlim a =
     (case a_frame a of
        None \<Rightarrow> (None, a)
      | Some f \<Rightarrow> (Some f, aprocess lim mlim (a\<lparr>a_frame := None\<rparr>)))"

section \<open>The abstraction\<close>

definition absw :: "wsmsg_t \<Rightarrow> amsg" where
  "absw w = \<lparr>a_in = contents (w_frame_buffer w), a_msg = contents (w_message_buffer w),
     a_started = w_message_started w, a_opcode = w_message_opcode w, a_message = w_message w,
     a_frame = (if w_frame w then Some (w_fin w, w_opcode w, w_mask w, contents (w_frame_data w))
                else None),
     a_error = w_error w\<rparr>"

definition wsmsg_ok :: "nat \<Rightarrow> nat \<Rightarrow> wsmsg_t \<Rightarrow> bool" where
  "wsmsg_ok lim mlim w \<longleftrightarrow> buf_ok (w_frame_buffer w) \<and> buf_ok (w_frame_data w) \<and> buf_ok (w_message_buffer w)
     \<and> b_max_length (w_frame_buffer w) = 2 * lim \<and> b_max_length (w_frame_data w) = lim
     \<and> b_max_length (w_message_buffer w) = mlim"

text \<open>The bytes on their way: they never grow except by \<open>wsmsg_add\<close>.\<close>

definition held :: "amsg \<Rightarrow> nat" where
  "held a = length (a_msg a) + length (a_in a)
     + (case a_frame a of None \<Rightarrow> 0 | Some (fin, opcode, msk, payload) \<Rightarrow> length payload)"

definition room :: "amsg \<Rightarrow> bool" where
  "room a \<longleftrightarrow> held a + 1024 \<le> PTRDIFF_MAX"

text \<open>Every header the loop may look at announces a payload whose copy stays inside the block.\<close>

function reads_ok :: "nat \<Rightarrow> nat \<Rightarrow> byte list \<Rightarrow> bool" where
  "reads_ok lim cap bs \<longleftrightarrow> (2 \<le> length bs \<longrightarrow> frame_extent lim bs \<le> cap)
     \<and> (case parse_frame lim bs of
          Incomplete \<Rightarrow> True
        | Malformed \<Rightarrow> True
        | Complete fin opcode msk payload rest \<Rightarrow> reads_ok lim cap rest)"
  by pat_completeness auto
termination
  by (relation "measure (\<lambda>(lim, cap, bs). length bs)") (auto dest: parse_frame_Complete_lengths(1))

declare reads_ok.simps [simp del]

text \<open>The invariant of a receiver; \<open>cap\<close> is a lower bound of the block of \<open>frame_buffer\<close>.\<close>

definition wsmsg_inv :: "nat \<Rightarrow> nat \<Rightarrow> nat \<Rightarrow> wsmsg_t \<Rightarrow> bool" where
  "wsmsg_inv lim mlim cap w \<longleftrightarrow> wsmsg_ok lim mlim w \<and> cap \<le> b_capacity (w_frame_buffer w)
     \<and> room (absw w)
     \<and> reads_ok lim (b_capacity (w_frame_buffer w)) (contents (w_frame_buffer w))"

section \<open>Refinement\<close>

lemma held_astep: "held (snd (astep lim mlim a)) \<le> held a"
  using parse_frame_Complete_lengths(2) [of lim "a_in a"]
  by (fastforce simp: astep_def held_def Let_def cut_def split: frame_parse.splits)

lemma reads_ok_astep:
  "reads_ok lim cap (a_in a) \<Longrightarrow> reads_ok lim cap (a_in (snd (astep lim mlim a)))"
  using reads_ok.simps [of lim cap "a_in a"]
  by (auto simp: astep_def Let_def split: frame_parse.splits)

lemma held_aloop: "held (aloop lim mlim a) \<le> held a"
proof (induction lim mlim a rule: aloop.induct)
  case (1 lim mlim a)
  then show ?case
    using held_astep [of lim mlim a] by (subst aloop.simps) (auto intro: le_trans)
qed

lemma reads_ok_aloop:
  "reads_ok lim cap (a_in a) \<Longrightarrow> reads_ok lim cap (a_in (aloop lim mlim a))"
proof (induction lim mlim a rule: aloop.induct)
  case (1 lim mlim a)
  then show ?case
    using reads_ok_astep [of lim cap a mlim] by (subst aloop.simps) auto
qed

lemma reads_ok_mono:
  assumes "reads_ok lim cap bs" and "cap \<le> cap'"
  shows "reads_ok lim cap' bs"
  using assms
proof (induction lim cap bs rule: reads_ok.induct)
  case (1 lim cap bs)
  have "frame_extent lim bs \<le> cap'" if "2 \<le> length bs"
    using 1(2,3) that by (subst (asm) reads_ok.simps) simp
  moreover have "reads_ok lim cap' rest"
    if p: "parse_frame lim bs = Complete fin opcode msk payload rest" for fin opcode msk payload rest
  proof -
    have "reads_ok lim cap rest"
      using 1(2) by (subst (asm) reads_ok.simps) (simp add: p)
    then show ?thesis using 1(1) [OF p] 1(3) by simp
  qed
  ultimately show ?case
    by (subst reads_ok.simps) (auto split: frame_parse.splits)
qed

lemma a_in_absw: "a_in (absw w) = contents (w_frame_buffer w)"
  by (simp add: absw_def)

lemma cut_append:
  assumes "lim = 0 \<or> length xs \<le> lim"
  shows "cut lim (xs @ ys) = xs @ take (if lim = 0 then length ys else min (length ys) (lim - length xs)) ys"
  using assms by (auto simp: cut_def min_def)

lemma buf_length_max: "buf_ok b \<Longrightarrow> b_max_length b = 0 \<or> b_length b \<le> b_max_length b"
  using buf_okD(2,6) [of b] by force

lemma append_contents:
  assumes "buf_ok b" and "generous al" and "b_length b + length xs + 1024 \<le> PTRDIFF_MAX"
    and "take n src = xs" and "length xs = n"
  shows "\<exists>b'. buffer_append al b src n
           = Ok (\<not> (xs \<noteq> [] \<and> b_max_length b \<noteq> 0 \<and> b_max_length b \<le> b_length b), b')
     \<and> buf_ok b' \<and> b_max_length b' = b_max_length b \<and> b_capacity b \<le> b_capacity b'
     \<and> contents b' = (if xs \<noteq> [] \<and> b_max_length b \<noteq> 0 \<and> b_max_length b \<le> b_length b then contents b
                      else cut (b_max_length b) (contents b @ xs))"
proof -
  let ?res = "n = 0 \<or> 0 < buf_room b n"
  have res: "?res = (\<not> (xs \<noteq> [] \<and> b_max_length b \<noteq> 0 \<and> b_max_length b \<le> b_length b))"
    using assms(5) by (auto simp: buf_room_def)
  have n: "n \<le> length src" using assms(4,5) by auto
  moreover have "buf_room b n \<le> n" by (simp add: buf_room_def)
  ultimately obtain b' where app: "buffer_append al b src n = Ok (?res, b')" "appended b src n ?res b'"
    using buffer_append_generous [OF assms(1,2), of n src] assms(3,5) by auto
  have "take (buf_room b n) src = take (buf_room b n) xs"
    using assms(4) \<open>buf_room b n \<le> n\<close> by (auto simp: min_def)
  then have "cut (b_max_length b) (contents b @ xs) = contents b @ take (buf_room b n) src"
    using cut_append [of "b_max_length b" "contents b" xs] buf_length_max [OF assms(1)] assms(1,5)
    by (simp add: buf_room_def)
  then show ?thesis
    using app res by (intro exI [of _ b']) (simp add: appended_def split: if_splits)
qed

lemma room_get_frame:
  assumes "parse_frame lim (a_in a) = Complete fin opcode msk payload rest" and "room a"
  shows "length (a_msg a) + length payload + 1024 \<le> PTRDIFF_MAX"
  using parse_frame_Complete_lengths(2) [OF assms(1)] assms(2) by (simp add: room_def held_def)

lemma contents_take: "take (b_length b) (b_data b) = contents b"
  by (simp add: contents_def)

lemma astep_data:
  assumes "parse_frame lim (a_in a) = Complete fin opcode msk payload rest"
    and "opcode \<noteq> OPCODE_CLOSE" "opcode \<noteq> OPCODE_PING" "opcode \<noteq> OPCODE_PONG"
    and "a_started a \<longleftrightarrow> opcode = OPCODE_CONTINUATION"
    and "\<not> (payload \<noteq> [] \<and> mlim \<noteq> 0 \<and> mlim \<le> length (a_msg a))"
  shows "astep lim mlim a = (True, a\<lparr>a_in := rest, a_msg := cut mlim (a_msg a @ payload),
      a_started := True, a_opcode := (if a_started a then a_opcode a else opcode),
      a_message := fin \<or> a_message a\<rparr>)"
  using assms(2-) unfolding astep_def assms(1) by (auto simp: Let_def)

text \<open>What one round does once a data frame is taken off, behind the checks: the message buffer is full, or takes
  the payload.\<close>

lemma wsmsg_step_full:
  assumes ok: "wsmsg_ok lim mlim (w\<lparr>w_frame_buffer := fb, w_frame_data := fd\<rparr>)"
    and gf: "get_frame al (w_frame_buffer w) (w_frame_data w) = Ok (FS_READY fin opcode msk, fb, fd)"
    and pf: "parse_frame lim (a_in (absw w)) = Complete fin opcode msk (contents fd) (contents fb)" and nf: "\<not> w_frame w"
    and op: "opcode \<noteq> OPCODE_CLOSE" "opcode \<noteq> OPCODE_PING" "opcode \<noteq> OPCODE_PONG"
    and st: "w_message_started w \<longleftrightarrow> opcode = OPCODE_CONTINUATION"
    and full: "contents fd \<noteq> [] \<and> mlim \<noteq> 0 \<and> mlim \<le> length (a_msg (absw w))"
    and app: "buffer_append al (w_message_buffer w) (b_data fd) (b_length fd) = Ok (False, mb)"
    and mb: "buf_ok mb" "b_max_length mb = mlim" "contents mb = contents (w_message_buffer w)"
  shows "\<exists>c w'. wsmsg_step al w = Ok (c, w') \<and> astep lim mlim (absw w) = (c, absw w')
     \<and> wsmsg_ok lim mlim w' \<and> w_frame_buffer w' = fb \<and> \<not> w_frame w'"
proof -
  let ?w' = "w\<lparr>w_frame_buffer := fb, w_frame_data := fd, w_message_buffer := mb, w_error := True\<rparr>"
  have "wsmsg_step al w = Ok (False, ?w')"
    using op st by (simp add: wsmsg_step_def gf app)
  moreover have "a_started (absw w) = w_message_started w" by (simp add: absw_def)
  then have "astep lim mlim (absw w) = (False, absw w\<lparr>a_in := contents fb, a_error := True\<rparr>)"
    using op st full unfolding astep_def pf by simp
  moreover have "absw ?w' = absw w\<lparr>a_in := contents fb, a_error := True\<rparr>"
    using mb(3) nf by (simp add: absw_def)
  moreover have "wsmsg_ok lim mlim ?w'" using ok mb by (simp add: wsmsg_ok_def)
  ultimately show ?thesis using nf by auto
qed

lemma wsmsg_step_taken:
  assumes ok: "wsmsg_ok lim mlim (w\<lparr>w_frame_buffer := fb, w_frame_data := fd\<rparr>)"
    and gf: "get_frame al (w_frame_buffer w) (w_frame_data w) = Ok (FS_READY fin opcode msk, fb, fd)"
    and pf: "parse_frame lim (a_in (absw w)) = Complete fin opcode msk (contents fd) (contents fb)" and nf: "\<not> w_frame w"
    and op: "opcode \<noteq> OPCODE_CLOSE" "opcode \<noteq> OPCODE_PING" "opcode \<noteq> OPCODE_PONG"
    and st: "w_message_started w \<longleftrightarrow> opcode = OPCODE_CONTINUATION"
    and room: "\<not> (contents fd \<noteq> [] \<and> mlim \<noteq> 0 \<and> mlim \<le> length (a_msg (absw w)))"
    and app: "buffer_append al (w_message_buffer w) (b_data fd) (b_length fd) = Ok (True, mb)"
    and mb: "buf_ok mb" "b_max_length mb = mlim" "contents mb = cut mlim (a_msg (absw w) @ contents fd)"
  shows "\<exists>c w'. wsmsg_step al w = Ok (c, w') \<and> astep lim mlim (absw w) = (c, absw w')
     \<and> wsmsg_ok lim mlim w' \<and> w_frame_buffer w' = fb \<and> \<not> w_frame w'"
proof -
  have "buf_ok fd" using ok by (simp add: wsmsg_ok_def)
  then obtain fd' where fd': "buffer_remove_data fd (b_length fd) = Ok fd'" "buf_ok fd'" "b_max_length fd' = b_max_length fd"
    using buffer_remove_data_ok [OF _ order_refl] by blast
  let ?w' = "w\<lparr>w_frame_buffer := fb, w_message_buffer := mb, w_message_started := True,
      w_message_opcode := (if w_message_started w then w_message_opcode w else opcode),
      w_message := fin \<or> w_message w, w_frame_data := fd'\<rparr>"
  let ?a' = "absw w\<lparr>a_in := contents fb, a_msg := contents mb, a_started := True,
      a_opcode := (if w_message_started w then w_message_opcode w else opcode),
      a_message := fin \<or> w_message w\<rparr>"
  have "wsmsg_step al w = Ok (True, ?w')"
    using op st by (simp add: wsmsg_step_def gf app fd'(1) Let_def)
  moreover have "astep lim mlim (absw w) = (True, ?a')"
    using astep_data [OF pf op _ room] st mb(3) by (simp add: absw_def)
  moreover have "absw ?w' = ?a'" using nf by (simp add: absw_def)
  moreover have "wsmsg_ok lim mlim ?w'" using ok mb fd' by (simp add: wsmsg_ok_def)
  ultimately show ?thesis using nf by auto
qed

lemma wsmsg_step_data:
  assumes ok: "wsmsg_ok lim mlim (w\<lparr>w_frame_buffer := fb, w_frame_data := fd\<rparr>)" and al: "generous al"
    and gf: "get_frame al (w_frame_buffer w) (w_frame_data w) = Ok (FS_READY fin opcode msk, fb, fd)"
    and pf: "parse_frame lim (a_in (absw w)) = Complete fin opcode msk (contents fd) (contents fb)"
    and rm: "room (absw w)" and nf: "\<not> w_frame w"
    and op: "opcode \<noteq> OPCODE_CLOSE" "opcode \<noteq> OPCODE_PING" "opcode \<noteq> OPCODE_PONG"
    and st: "w_message_started w \<longleftrightarrow> opcode = OPCODE_CONTINUATION"
  shows "\<exists>c w'. wsmsg_step al w = Ok (c, w') \<and> astep lim mlim (absw w) = (c, absw w')
     \<and> wsmsg_ok lim mlim w' \<and> w_frame_buffer w' = fb \<and> \<not> w_frame w'"
proof -
  let ?mb = "w_message_buffer w"
  have mb: "buf_ok ?mb" "b_max_length ?mb = mlim" and fd: "buf_ok fd"
    using ok by (auto simp: wsmsg_ok_def)
  have a: "a_msg (absw w) = contents ?mb" "length (contents ?mb) = b_length ?mb" using mb(1) by (simp_all add: absw_def)
  have len: "b_length ?mb + length (contents fd) + 1024 \<le> PTRDIFF_MAX"
    using room_get_frame [OF pf rm] a by simp
  let ?full = "contents fd \<noteq> [] \<and> mlim \<noteq> 0 \<and> mlim \<le> length (a_msg (absw w))"
  obtain mb' where mb': "buffer_append al ?mb (b_data fd) (b_length fd) = Ok (\<not> ?full, mb')"
      "buf_ok mb'" "b_max_length mb' = mlim"
      "contents mb' = (if ?full then contents ?mb else cut mlim (a_msg (absw w) @ contents fd))"
    using append_contents [OF mb(1) al len contents_take length_contents [OF fd]] mb(2) a by auto
  show ?thesis
  proof (cases ?full)
    case True
    have "buffer_append al ?mb (b_data fd) (b_length fd) = Ok (False, mb')" using mb'(1) True by (simp only: simp_thms)
    then show ?thesis
      using wsmsg_step_full [OF ok gf pf nf op st True _ mb'(2,3)] mb'(4) unfolding if_P [OF True] by blast
  next
    case False
    have "buffer_append al ?mb (b_data fd) (b_length fd) = Ok (True, mb')" using mb'(1) False by (simp only: simp_thms)
    then show ?thesis
      using wsmsg_step_taken [OF ok gf pf nf op st False _ mb'(2,3)] mb'(4) unfolding if_not_P [OF False] by blast
  qed
qed

text \<open>A complete frame in one round: control frames are kept aside, a data frame out of order is an error, and the
  others go to the message buffer.\<close>

lemma wsmsg_step_complete:
  assumes ok: "wsmsg_ok lim mlim (w\<lparr>w_frame_buffer := fb, w_frame_data := fd\<rparr>)" and al: "generous al"
    and gf: "get_frame al (w_frame_buffer w) (w_frame_data w) = Ok (FS_READY fin opcode msk, fb, fd)"
    and pf: "parse_frame lim (a_in (absw w)) = Complete fin opcode msk (contents fd) (contents fb)"
    and rm: "room (absw w)" and nf: "\<not> w_frame w"
  shows "\<exists>c w'. wsmsg_step al w = Ok (c, w') \<and> astep lim mlim (absw w) = (c, absw w')
     \<and> wsmsg_ok lim mlim w' \<and> w_frame_buffer w' = fb \<and> (c \<longrightarrow> \<not> w_frame w')"
proof -
  have p: "parse_frame lim (contents (w_frame_buffer w)) = Complete fin opcode msk (contents fd) (contents fb)"
    using pf by (simp add: absw_def)
  consider (control) "opcode \<in> {OPCODE_CLOSE, OPCODE_PING, OPCODE_PONG}"
    | (order) "opcode \<notin> {OPCODE_CLOSE, OPCODE_PING, OPCODE_PONG}" "w_message_started w \<noteq> (opcode = OPCODE_CONTINUATION)"
    | (data) "opcode \<notin> {OPCODE_CLOSE, OPCODE_PING, OPCODE_PONG}" "w_message_started w \<longleftrightarrow> opcode = OPCODE_CONTINUATION"
    by blast
  then show ?thesis
  proof cases
    case control
    then show ?thesis
      using p gf ok nf by (cases fin) (auto simp: wsmsg_step_def astep_def absw_def wsmsg_ok_def Let_def)
  next
    case order
    then show ?thesis
      using p gf ok nf by (auto simp: wsmsg_step_def astep_def absw_def wsmsg_ok_def Let_def)
  next
    case data
    then show ?thesis using wsmsg_step_data [OF ok al gf pf rm nf] by fastforce
  qed
qed

lemma wsmsg_step_refines:
  assumes ok: "wsmsg_ok lim mlim w" and al: "generous al" and nf: "\<not> w_frame w"
    and rm: "room (absw w)"
    and rd: "reads_ok lim (b_capacity (w_frame_buffer w)) (contents (w_frame_buffer w))"
  shows "\<exists>c w'. wsmsg_step al w = Ok (c, w') \<and> astep lim mlim (absw w) = (c, absw w')
     \<and> wsmsg_ok lim mlim w' \<and> b_capacity (w_frame_buffer w') = b_capacity (w_frame_buffer w)
     \<and> (c \<longrightarrow> \<not> w_frame w')"
proof -
  have b: "buf_ok (w_frame_buffer w)" "buf_ok (w_frame_data w)" "b_max_length (w_frame_data w) = lim"
    using ok by (auto simp: wsmsg_ok_def)
  have "frame_extent lim (contents (w_frame_buffer w)) \<le> b_capacity (w_frame_buffer w)"
    if "2 \<le> b_length (w_frame_buffer w)"
    using rd that b(1) by (subst (asm) reads_ok.simps) auto
  then obtain fs fb fd where gf: "get_frame al (w_frame_buffer w) (w_frame_data w) = Ok (fs, fb, fd)"
    and fb: "buf_ok fb" "b_max_length fb = b_max_length (w_frame_buffer w)"
      "b_capacity fb = b_capacity (w_frame_buffer w)"
    and fd: "buf_ok fd" "b_max_length fd = lim"
    and ps: "parsed_as (parse_frame lim (contents (w_frame_buffer w))) fs
        (contents (w_frame_buffer w)) (contents fb) (contents fd)"
    using get_frame_refines [OF b(1,2) al] b(3) by auto
  have ok1: "wsmsg_ok lim mlim (w\<lparr>w_frame_buffer := fb, w_frame_data := fd\<rparr>)"
    using ok fb fd by (simp add: wsmsg_ok_def)
  show ?thesis
  proof (cases "parse_frame lim (contents (w_frame_buffer w))")
    case Incomplete
    then show ?thesis
      using ps gf ok1 fb nf by (auto simp: wsmsg_step_def astep_def absw_def)
  next
    case Malformed
    then show ?thesis
      using ps gf ok1 fb nf by (auto simp: wsmsg_step_def astep_def absw_def wsmsg_ok_def)
  next
    case (Complete fin opcode msk payload rest)
    then have fs: "fs = FS_READY fin opcode msk" "parse_frame lim (a_in (absw w)) = Complete fin opcode msk (contents fd) (contents fb)"
      using ps by (auto simp: absw_def)
    from wsmsg_step_complete [OF ok1 al gf [unfolded fs(1)] fs(2) rm nf] show ?thesis using fb by fastforce
  qed
qed

lemma wsmsg_process_loop_refines:
  assumes "wsmsg_ok lim mlim w" and "generous al" and "\<not> w_frame w" and "room (absw w)"
    and "reads_ok lim (b_capacity (w_frame_buffer w)) (contents (w_frame_buffer w))"
  shows "\<exists>w'. wsmsg_process_loop al w = Ok w' \<and> absw w' = aloop lim mlim (absw w)
     \<and> wsmsg_ok lim mlim w' \<and> b_capacity (w_frame_buffer w') = b_capacity (w_frame_buffer w)"
  using assms
proof (induction "b_length (w_frame_buffer w)" arbitrary: w rule: less_induct)
  case less
  obtain c w1 where st: "wsmsg_step al w = Ok (c, w1)" "astep lim mlim (absw w) = (c, absw w1)"
    and w1: "wsmsg_ok lim mlim w1" "b_capacity (w_frame_buffer w1) = b_capacity (w_frame_buffer w)"
      "c \<longrightarrow> \<not> w_frame w1"
    using wsmsg_step_refines [OF less.prems] by blast
  show ?case
  proof (cases c)
    case False
    then show ?thesis
      using st w1 by (simp add: wsmsg_process_loop.simps [of al w] aloop.simps [of lim mlim "absw w"])
  next
    case True
    have "room (absw w1)"
      using held_astep [of lim mlim "absw w"] less.prems(4) st(2) by (simp add: room_def)
    moreover have "reads_ok lim (b_capacity (w_frame_buffer w1)) (contents (w_frame_buffer w1))"
      using reads_ok_astep [of lim _ "absw w" mlim] less.prems(5) st(2) w1(2) by (simp add: absw_def)
    moreover have "b_length (w_frame_buffer w1) < b_length (w_frame_buffer w)"
      using wsmsg_step_again_shrinks [of al w w1] st(1) True by simp
    ultimately have "\<exists>w'. wsmsg_process_loop al w1 = Ok w' \<and> absw w' = aloop lim mlim (absw w1)
        \<and> wsmsg_ok lim mlim w' \<and> b_capacity (w_frame_buffer w') = b_capacity (w_frame_buffer w1)"
      using less.hyps w1 less.prems(2) True by blast
    then show ?thesis
      using True st w1(2)
      by (simp add: wsmsg_process_loop.simps [of al w] aloop.simps [of lim mlim "absw w"])
  qed
qed

lemma wsmsg_invI:
  assumes "wsmsg_ok lim mlim w'" and "cap \<le> b_capacity (w_frame_buffer w')"
    and "held (absw w') \<le> held a" and "room a"
    and "reads_ok lim (b_capacity (w_frame_buffer w')) (a_in (absw w'))"
  shows "wsmsg_inv lim mlim cap w'"
  using assms by (auto simp: wsmsg_inv_def room_def a_in_absw)

lemma wsmsg_process_refines:
  assumes inv: "wsmsg_inv lim mlim cap w" and al: "generous al"
  shows "\<exists>w'. wsmsg_process al w = Ok w' \<and> absw w' = aprocess lim mlim (absw w)
     \<and> wsmsg_inv lim mlim cap w' \<and> b_capacity (w_frame_buffer w') = b_capacity (w_frame_buffer w)"
proof (cases "w_message w \<or> w_frame w \<or> w_error w")
  case True
  then show ?thesis
    using inv by (auto simp: wsmsg_process_def aprocess_def absw_def)
next
  case False
  note i = inv [unfolded wsmsg_inv_def]
  have eq: "aprocess lim mlim (absw w) = aloop lim mlim (absw w)"
    using False by (simp add: aprocess_def absw_def)
  obtain w' where w': "wsmsg_process_loop al w = Ok w'" "absw w' = aloop lim mlim (absw w)"
    "wsmsg_ok lim mlim w'" "b_capacity (w_frame_buffer w') = b_capacity (w_frame_buffer w)"
    using wsmsg_process_loop_refines [of lim mlim w al] i al False by blast
  have "wsmsg_inv lim mlim cap w'"
    using i w' held_aloop [of lim mlim "absw w"] reads_ok_aloop [of lim _ "absw w" mlim]
    by (intro wsmsg_invI [where a = "absw w"]) (simp_all add: a_in_absw)
  then show ?thesis
    using False w' eq by (simp add: wsmsg_process_def)
qed

text \<open>\<open>wsmsg_add\<close>: the frame buffer is full, or takes what fits of the new bytes.\<close>

lemma wsmsg_add_full:
  assumes inv: "wsmsg_inv lim mlim cap w"
    and full: "xs \<noteq> [] \<and> 2 * lim \<noteq> 0 \<and> 2 * lim \<le> length (a_in (absw w))"
    and app: "buffer_append al (w_frame_buffer w) data n = Ok (False, fb)"
    and fb: "buf_ok fb" "b_max_length fb = 2 * lim" "b_capacity (w_frame_buffer w) \<le> b_capacity fb"
      "contents fb = contents (w_frame_buffer w)"
  shows "\<exists>w'. wsmsg_add al w data n = Ok (fst (aadd lim mlim xs (absw w)), w')
     \<and> absw w' = snd (aadd lim mlim xs (absw w)) \<and> wsmsg_inv lim mlim cap w'"
proof -
  note i = inv [unfolded wsmsg_inv_def]
  let ?w = "w\<lparr>w_frame_buffer := fb\<rparr>"
  have eq: "absw ?w = absw w" and "aadd lim mlim xs (absw w) = (False, absw w)"
    using fb(4) full by (simp_all add: absw_def aadd_def)
  moreover have "wsmsg_add al w data n = Ok (False, ?w)" using app by (simp add: wsmsg_add_def)
  moreover have "wsmsg_ok lim mlim ?w" using i fb by (simp add: wsmsg_ok_def)
  then have "wsmsg_inv lim mlim cap ?w"
    using i fb reads_ok_mono by (intro wsmsg_invI [where a = "absw w"]) (auto simp: eq a_in_absw)
  ultimately show ?thesis by simp
qed

lemma wsmsg_add_taken:
  assumes inv: "wsmsg_inv lim mlim cap w" and al: "generous al"
    and room: "\<not> (xs \<noteq> [] \<and> 2 * lim \<noteq> 0 \<and> 2 * lim \<le> length (a_in (absw w)))"
    and rm: "held (absw w) + length xs + 1024 \<le> PTRDIFF_MAX"
    and rd: "reads_ok lim (max cap (length (contents fb))) (contents fb)"
    and app: "buffer_append al (w_frame_buffer w) data n = Ok (True, fb)"
    and fb: "buf_ok fb" "b_max_length fb = 2 * lim" "b_capacity (w_frame_buffer w) \<le> b_capacity fb"
      "contents fb = cut (2 * lim) (a_in (absw w) @ xs)"
  shows "\<exists>w'. wsmsg_add al w data n = Ok (fst (aadd lim mlim xs (absw w)), w')
     \<and> absw w' = snd (aadd lim mlim xs (absw w)) \<and> wsmsg_inv lim mlim cap w'"
proof -
  note i = inv [unfolded wsmsg_inv_def]
  let ?w = "w\<lparr>w_frame_buffer := fb\<rparr>"
  have cap: "cap \<le> b_capacity fb" "length (contents fb) \<le> b_capacity fb"
    using i fb buf_okD(2) [OF fb(1)] length_contents [OF fb(1)] by simp_all
  have "aadd lim mlim xs (absw w) = (True, aprocess lim mlim (absw ?w))"
    using room fb(4) by (auto simp: absw_def aadd_def)
  moreover have "wsmsg_ok lim mlim ?w" using i fb by (simp add: wsmsg_ok_def)
  moreover have "reads_ok lim (b_capacity fb) (contents fb)" using reads_ok_mono [OF rd] cap by simp
  moreover have "room (absw ?w)"
    using rm fb(4) by (auto simp: room_def held_def absw_def cut_def split: if_splits)
  ultimately have "wsmsg_inv lim mlim cap ?w" "aadd lim mlim xs (absw w) = (True, aprocess lim mlim (absw ?w))"
    using cap by (auto simp: wsmsg_inv_def)
  then show ?thesis
    using wsmsg_process_refines [of lim mlim cap ?w, OF _ al] app by (auto simp: wsmsg_add_def)
qed

lemma wsmsg_add_refines:
  assumes inv: "wsmsg_inv lim mlim cap w" and al: "generous al"
    and n: "take n data = xs" "length xs = n" and rm: "held (absw w) + n + 1024 \<le> PTRDIFF_MAX"
    and rd: "reads_ok lim (max cap (length (cut (2 * lim) (a_in (absw w) @ xs))))
        (cut (2 * lim) (a_in (absw w) @ xs))"
  shows "\<exists>w'. wsmsg_add al w data n = Ok (fst (aadd lim mlim xs (absw w)), w')
     \<and> absw w' = snd (aadd lim mlim xs (absw w)) \<and> wsmsg_inv lim mlim cap w'"
proof -
  let ?fb = "w_frame_buffer w" and ?full = "xs \<noteq> [] \<and> 2 * lim \<noteq> 0 \<and> 2 * lim \<le> length (a_in (absw w))"
  have fb: "buf_ok ?fb" "b_max_length ?fb = 2 * lim"
    using inv by (auto simp: wsmsg_inv_def wsmsg_ok_def)
  have a: "a_in (absw w) = contents ?fb" "length (contents ?fb) = b_length ?fb" using fb(1) by (simp_all add: absw_def)
  have small: "b_length ?fb + length xs + 1024 \<le> PTRDIFF_MAX"
    using rm n a by (simp add: held_def split: if_splits)
  obtain fb' where fb': "buffer_append al ?fb data n = Ok (\<not> ?full, fb')"
      "buf_ok fb'" "b_max_length fb' = 2 * lim" "b_capacity ?fb \<le> b_capacity fb'"
      "contents fb' = (if ?full then contents ?fb else cut (2 * lim) (a_in (absw w) @ xs))"
    using append_contents [OF fb(1) al small n] unfolding fb(2) a by blast
  show ?thesis
  proof (cases ?full)
    case True
    have "buffer_append al ?fb data n = Ok (False, fb')" using fb'(1) True by (simp only: simp_thms)
    then show ?thesis
      using wsmsg_add_full [OF inv True _ fb'(2-4)] fb'(5) unfolding if_P [OF True] by blast
  next
    case False
    have "buffer_append al ?fb data n = Ok (True, fb')" using fb'(1) False by (simp only: simp_thms)
    moreover have "contents fb' = cut (2 * lim) (a_in (absw w) @ xs)" using fb'(5) unfolding if_not_P [OF False] .
    ultimately show ?thesis
      using wsmsg_add_taken [OF inv al False _ _ _ fb'(2-4)] rm rd n(2) by simp
  qed
qed

lemma wsmsg_get_message_refines:
  assumes inv: "wsmsg_inv lim mlim cap w" and al: "generous al"
    and dst: "buf_ok dst" "b_max_length dst = 0"
  shows "\<exists>w' dst'. wsmsg_get_message al w dst
       = Ok (w_message w, w', dst', map_option fst (fst (aget_message lim mlim (absw w))))
     \<and> absw w' = snd (aget_message lim mlim (absw w)) \<and> wsmsg_inv lim mlim cap w'
     \<and> buf_ok dst' \<and> b_max_length dst' = 0
     \<and> (\<forall>opcode payload. fst (aget_message lim mlim (absw w)) = Some (opcode, payload)
          \<longrightarrow> contents dst' = payload)"
proof (cases "w_message w")
  case False
  then show ?thesis
    using inv dst by (auto simp: wsmsg_get_message_def aget_message_def absw_def)
next
  case True
  let ?mb = "w_message_buffer w"
  note i = inv [unfolded wsmsg_inv_def]
  have mb: "buf_ok ?mb" using i by (simp add: wsmsg_ok_def)
  have "b_length ?mb + 1024 \<le> PTRDIFF_MAX"
    using i mb by (simp add: room_def held_def absw_def split: if_splits)
  then obtain dst' where mv: "buffer_move al ?mb dst = Ok (True, buffer_clear ?mb, dst')"
    and dst': "buf_ok dst'" "b_max_length dst' = 0" "contents dst' = contents ?mb"
    using buffer_move_generous [OF mb dst(1) al] dst(2) by auto
  let ?w = "w\<lparr>w_message := False, w_message_started := False, w_message_buffer := buffer_clear ?mb\<rparr>"
  have "wsmsg_inv lim mlim cap ?w"
    using i by (auto simp: wsmsg_inv_def wsmsg_ok_def room_def held_def absw_def split: if_splits)
  then obtain w' where "wsmsg_process al ?w = Ok w'" "absw w' = aprocess lim mlim (absw ?w)"
    "wsmsg_inv lim mlim cap w'"
    using wsmsg_process_refines al by blast
  moreover have "aget_message lim mlim (absw w)
      = (Some (w_message_opcode w, contents ?mb), aprocess lim mlim (absw ?w))"
    using True by (simp add: aget_message_def absw_def)
  ultimately show ?thesis
    using True mv dst' by (auto simp: wsmsg_get_message_def)
qed

lemma wsmsg_get_frame_refines:
  assumes inv: "wsmsg_inv lim mlim cap w" and al: "generous al"
    and dst: "buf_ok dst" "b_max_length dst = 0"
  shows "\<exists>w' dst'. wsmsg_get_frame al w dst
       = Ok (w_frame w, w', dst', map_option (\<lambda>(fin, opcode, msk, p). (fin, opcode, msk))
               (fst (aget_frame lim mlim (absw w))))
     \<and> absw w' = snd (aget_frame lim mlim (absw w)) \<and> wsmsg_inv lim mlim cap w'
     \<and> buf_ok dst' \<and> b_max_length dst' = 0
     \<and> (\<forall>fin opcode msk payload. fst (aget_frame lim mlim (absw w)) = Some (fin, opcode, msk, payload)
          \<longrightarrow> contents dst' = payload)"
proof (cases "w_frame w")
  case False
  then show ?thesis
    using inv dst by (auto simp: wsmsg_get_frame_def aget_frame_def absw_def)
next
  case True
  let ?fd = "w_frame_data w"
  note i = inv [unfolded wsmsg_inv_def]
  have fd: "buf_ok ?fd" using i by (simp add: wsmsg_ok_def)
  have "b_length ?fd + 1024 \<le> PTRDIFF_MAX"
    using i True fd by (simp add: room_def held_def absw_def)
  then obtain dst' where mv: "buffer_move al ?fd dst = Ok (True, buffer_clear ?fd, dst')"
    and dst': "buf_ok dst'" "b_max_length dst' = 0" "contents dst' = contents ?fd"
    using buffer_move_generous [OF fd dst(1) al] dst(2) by auto
  let ?w = "w\<lparr>w_frame := False, w_frame_data := buffer_clear ?fd\<rparr>"
  have "wsmsg_inv lim mlim cap ?w"
    using i by (auto simp: wsmsg_inv_def wsmsg_ok_def room_def held_def absw_def split: if_splits)
  then obtain w' where "wsmsg_process al ?w = Ok w'" "absw w' = aprocess lim mlim (absw ?w)"
    "wsmsg_inv lim mlim cap w'"
    using wsmsg_process_refines al by blast
  moreover have "aget_frame lim mlim (absw w)
      = (Some (w_fin w, w_opcode w, w_mask w, contents ?fd), aprocess lim mlim (absw ?w))"
    using True by (simp add: aget_frame_def absw_def)
  ultimately show ?thesis
    using True mv dst' by (auto simp: wsmsg_get_frame_def)
qed

end
