(* ===== verification/WsStream.thy ===== *)
theory WsStream
  imports WsReceiver
begin

unbundle bit_operations_syntax

text \<open>
  Streams of frames: what the receiver of \<open>wsmessage.c\<close> delivers for whole messages, however the
  socket cuts them into pieces, and where it goes wrong. The operations of a connection are run as
  a sequence (\<open>run_ops\<close>) and compared with the same sequence on the abstract receiver (\<open>arun\<close>).
\<close>

section \<open>Sequences of operations\<close>

datatype wsop = Add "byte list" | Get_message | Get_frame

datatype wsout =
    Added bool
  | Message "(nat \<times> byte list) option"
  | Control "(bool \<times> nat \<times> bool \<times> byte list) option"

text \<open>\<open>dst\<close> is the buffer of the caller that messages and control frames are moved to.\<close>

fun do_op :: "allocator \<Rightarrow> wsop \<Rightarrow> wsmsg_t \<times> buffer_t \<Rightarrow> (wsout \<times> wsmsg_t \<times> buffer_t) cres" where
  "do_op al (Add xs) (w, dst) =
     bindr (wsmsg_add al w xs (length xs)) (\<lambda>(res, w'). Ok (Added res, w', dst))"
| "do_op al Get_message (w, dst) =
     bindr (wsmsg_get_message al w dst) (\<lambda>(res, w', dst', opcode).
     Ok (Message (map_option (\<lambda>oc. (oc, contents dst')) opcode), w', dst'))"
| "do_op al Get_frame (w, dst) =
     bindr (wsmsg_get_frame al w dst) (\<lambda>(res, w', dst', hdr).
     Ok (Control (map_option (\<lambda>(fin, oc, msk). (fin, oc, msk, contents dst')) hdr), w', dst'))"

fun run_ops :: "allocator \<Rightarrow> wsop list \<Rightarrow> wsmsg_t \<times> buffer_t
    \<Rightarrow> (wsout list \<times> wsmsg_t \<times> buffer_t) cres" where
  "run_ops al [] s = Ok ([], s)"
| "run_ops al (x # xs) s =
     bindr (do_op al x s) (\<lambda>(out, s').
     bindr (run_ops al xs s') (\<lambda>(outs, s''). Ok (out # outs, s'')))"

fun ado_op :: "nat \<Rightarrow> nat \<Rightarrow> wsop \<Rightarrow> amsg \<Rightarrow> wsout \<times> amsg" where
  "ado_op lim mlim (Add xs) a = map_prod Added id (aadd lim mlim xs a)"
| "ado_op lim mlim Get_message a = map_prod Message id (aget_message lim mlim a)"
| "ado_op lim mlim Get_frame a = map_prod Control id (aget_frame lim mlim a)"

fun arun :: "nat \<Rightarrow> nat \<Rightarrow> wsop list \<Rightarrow> amsg \<Rightarrow> wsout list \<times> amsg" where
  "arun lim mlim [] a = ([], a)"
| "arun lim mlim (x # xs) a =
     (let (out, a') = ado_op lim mlim x a; (outs, a'') = arun lim mlim xs a' in (out # outs, a''))"

section \<open>When the copies stay inside the block\<close>

text \<open>A limited receiver whose block is larger than the largest header and payload.\<close>

lemma frame_extent_limited:
  assumes "0 < lim" and "2 \<le> length bs"
  shows "frame_extent lim bs \<le> 14 + lim"
  using assms parse_header_bounds(3) [of bs]
  by (force simp: frame_extent_def split: option.splits)

lemma reads_ok_limited:
  assumes "0 < lim" and "14 + lim \<le> cap"
  shows "reads_ok lim cap bs"
proof (induction "length bs" arbitrary: bs rule: less_induct)
  case less
  have "frame_extent lim bs \<le> cap" if "2 \<le> length bs"
    using frame_extent_limited [OF assms(1) that] assms(2) by simp
  moreover have "reads_ok lim cap rest"
    if "parse_frame lim bs = Complete fin opcode msk payload rest" for fin opcode msk payload rest
    using less parse_frame_Complete_lengths(1) [OF that] by simp
  ultimately show ?case
    by (subst reads_ok.simps) (auto split: frame_parse.splits)
qed

section \<open>More bytes change nothing that was complete\<close>

lemma take_append_long: "n \<le> length xs \<Longrightarrow> take n (xs @ ys) = take n xs"
  by simp

lemma parse_header_append:
  assumes "parse_header bs = Some h" and "2 \<le> length bs"
  shows "parse_header (bs @ ys) = Some h"
  using assms by (auto simp: parse_header_def nth_append Let_def split: if_splits)

lemma parse_frame_append_Complete:
  assumes "parse_frame lim bs = Complete fin opcode msk payload rest"
  shows "parse_frame lim (bs @ ys) = Complete fin opcode msk payload (rest @ ys)"
proof -
  obtain ml hl where h: "parse_header bs = Some (ml, hl)" and len: "2 \<le> length bs"
    and rsv: "bs ! 0 AND 0x70 = 0"
    using assms by (auto simp: parse_frame_def split: if_splits option.splits)
  define mk where "mk = (bs ! 1 AND 0x80 \<noteq> 0)"
  define off where "off = (if mk then hl + 4 else hl)"
  have tot: "off + ml \<le> length bs"
    and r: "fin = (bs ! 0 AND 0x80 \<noteq> 0)" "opcode = unat (bs ! 0 AND 0x0f)" "msk = mk"
      "rest = drop (off + ml) bs"
      "payload = (let raw = cut lim (take ml (drop off bs)) in
         if mk then mask_bytes (drop hl bs) raw else raw)"
    using assms len rsv unfolding parse_frame_def Let_def h option.case prod.case
      mk_def [symmetric] off_def [symmetric] by (auto split: if_splits)
  have h': "parse_header (bs @ ys) = Some (ml, hl)"
    using parse_header_append [OF h len] .
  have n: "(bs @ ys) ! 0 = bs ! 0" "(bs @ ys) ! 1 = bs ! 1"
    using len by (auto simp: nth_append)
  have raw: "take ml (drop off (bs @ ys)) = take ml (drop off bs)"
    and rest: "drop (off + ml) (bs @ ys) = drop (off + ml) bs @ ys"
    using tot by auto
  have key: "mask_bytes (drop hl (bs @ ys)) xs = mask_bytes (drop hl bs) xs" if mk for xs
    using that tot by (intro mask_bytes_cong) (auto simp: off_def)
  show ?thesis
    unfolding parse_frame_def Let_def h' option.case prod.case n
      mk_def [symmetric] off_def [symmetric] raw rest
    using len rsv tot key by (simp add: r Let_def mk_def [symmetric])
qed

lemma parse_frame_append_Malformed:
  "parse_frame lim bs = Malformed \<Longrightarrow> parse_frame lim (bs @ ys) = Malformed"
  by (auto simp: parse_frame_def Let_def nth_append split: if_splits option.splits)

section \<open>Simulation of whole runs\<close>

text \<open>
  The condition on a run: nothing overflows \<open>size_t\<close>, and every copy of \<open>get_frame\<close> stays inside
  a block of \<open>cap\<close> bytes, or of as many as have arrived.
\<close>

fun safe_run :: "nat \<Rightarrow> nat \<Rightarrow> nat \<Rightarrow> wsop list \<Rightarrow> amsg \<Rightarrow> bool" where
  "safe_run lim mlim cap [] a \<longleftrightarrow> True"
| "safe_run lim mlim cap (x # xs) a \<longleftrightarrow>
     (case x of
        Add ys \<Rightarrow>
          (let new = cut (2 * lim) (a_in a @ ys)
           in held a + length ys + 1024 \<le> PTRDIFF_MAX \<and> reads_ok lim (max cap (length new)) new)
      | _ \<Rightarrow> True)
     \<and> safe_run lim mlim cap xs (snd (ado_op lim mlim x a))"

lemma do_op_refines:
  assumes inv: "wsmsg_inv lim mlim cap w" and al: "generous al"
    and dst: "buf_ok dst" "b_max_length dst = 0"
    and safe: "safe_run lim mlim cap [x] (absw w)"
  shows "\<exists>out w' dst'. do_op al x (w, dst) = Ok (out, w', dst')
     \<and> ado_op lim mlim x (absw w) = (out, absw w') \<and> wsmsg_inv lim mlim cap w'
     \<and> buf_ok dst' \<and> b_max_length dst' = 0"
proof (cases x)
  case (Add ys)
  then show ?thesis
    using wsmsg_add_refines [OF inv al _ refl, of ys ys] safe dst by (auto simp: Let_def prod_eq_iff)
next
  case Get_message
  then show ?thesis
    using wsmsg_get_message_refines [OF inv al dst]
    by (cases "fst (aget_message lim mlim (absw w))") (auto simp: prod_eq_iff)
next
  case Get_frame
  then show ?thesis
    using wsmsg_get_frame_refines [OF inv al dst]
    by (cases "fst (aget_frame lim mlim (absw w))") (auto simp: prod_eq_iff)
qed

lemma run_ops_refines:
  assumes "wsmsg_inv lim mlim cap w" and "generous al" and "buf_ok dst" and "b_max_length dst = 0"
    and "safe_run lim mlim cap ops (absw w)"
  shows "\<exists>outs w' dst'. run_ops al ops (w, dst) = Ok (outs, w', dst')
     \<and> arun lim mlim ops (absw w) = (outs, absw w') \<and> wsmsg_inv lim mlim cap w'"
  using assms
proof (induction ops arbitrary: w dst)
  case Nil
  then show ?case by auto
next
  case (Cons x xs)
  have "safe_run lim mlim cap [x] (absw w)" using Cons.prems(5) by simp
  then obtain out w1 dst1 where 1: "do_op al x (w, dst) = Ok (out, w1, dst1)"
    "ado_op lim mlim x (absw w) = (out, absw w1)" "wsmsg_inv lim mlim cap w1"
    "buf_ok dst1" "b_max_length dst1 = 0"
    using do_op_refines [OF Cons.prems(1-4)] by blast
  have "safe_run lim mlim cap xs (absw w1)" using Cons.prems(5) 1(2) by simp
  then show ?case
    using Cons.IH [OF 1(3) Cons.prems(2) 1(4,5)] 1 by auto
qed

section \<open>A fresh receiver\<close>

definition init_cap :: "nat \<Rightarrow> nat" where
  "init_cap lim = (if lim = 0 then 128 else min 128 (2 * lim))"

lemma generous_small: "generous al \<Longrightarrow> n \<le> PTRDIFF_MAX \<Longrightarrow> granted al n"
  by (simp add: generous_granted)

lemma buffer_create_generous:
  assumes "generous al" and "n < SIZE_MOD"
  shows "\<exists>b. buffer_create al n = Some b \<and> buf_ok b \<and> contents b = [] \<and> b_max_length b = n
           \<and> b_capacity b = (if n = 0 then 128 else min 128 n)"
proof -
  have "granted al k" if "k \<le> 128" for k
    using generous_small [OF assms(1)] that by (simp add: PTRDIFF_MAX_def)
  then obtain b where b: "buffer_create al n = Some b"
    by (auto simp: buffer_create_def Let_def sizeof_buffer_t_def INIT_BUFFER_SIZE_def)
  moreover have "b_capacity b = (if n = 0 then 128 else min 128 n)"
    using b by (auto simp: buffer_create_def Let_def INIT_BUFFER_SIZE_def split: if_splits)
  ultimately show ?thesis
    using buffer_create_ok [OF b assms(2)] by auto
qed

lemma reads_ok_Nil: "reads_ok lim cap []"
  by (simp add: reads_ok.simps parse_frame_def)

lemma wsmsg_create_ok:
  assumes al: "generous al"
    and f: "cf_max_frame_size conf = int lim" "2 * int lim \<le> INT_MAX"
    and m: "cf_max_message_size conf = int mlim" "int mlim \<le> INT_MAX"
  shows "\<exists>w. wsmsg_create al conf = Ok (Some w) \<and> wsmsg_inv lim mlim (init_cap lim) w
           \<and> absw w = amsg_init"
proof -
  have sz: "size_of_int (2 * int lim) = 2 * lim" "size_of_int (int lim) = lim" "size_of_int (int mlim) = mlim"
    using f m by (auto simp: size_of_int_nonneg nat_mult_distrib)
  have lt: "2 * lim < SIZE_MOD" "lim < SIZE_MOD" "mlim < SIZE_MOD"
    using f m by (auto simp: INT_MAX_def SIZE_MOD_def)
  obtain fb where fb: "buffer_create al (2 * lim) = Some fb" "buf_ok fb" "contents fb = []"
    "b_max_length fb = 2 * lim" "b_capacity fb = init_cap lim"
    using buffer_create_generous [OF al lt(1)] by (auto simp: init_cap_def)
  obtain mb where mb: "buffer_create al mlim = Some mb" "buf_ok mb" "contents mb = []" "b_max_length mb = mlim"
    using buffer_create_generous [OF al lt(3)] by auto
  obtain fd where fd: "buffer_create al lim = Some fd" "buf_ok fd" "contents fd = []" "b_max_length fd = lim"
    using buffer_create_generous [OF al lt(2)] by auto
  have "granted al sizeof_wsmsg_t"
    using generous_small [OF al] by (simp add: sizeof_wsmsg_t_def PTRDIFF_MAX_def)
  moreover have "in_int_range (2 * int lim)"
    using f by (simp add: in_int_range_def INT_MAX_def)
  ultimately show ?thesis
    using fb mb fd by (auto simp: wsmsg_create_def f(1) m(1) sz absw_def amsg_init_def wsmsg_inv_def
        wsmsg_ok_def room_def held_def reads_ok_Nil PTRDIFF_MAX_def)
qed

text \<open>A concrete configuration and the empty buffer of a caller, for concrete runs.\<close>

definition limited_conf :: jsconf_t where
  "limited_conf = empty_conf\<lparr>cf_max_frame_size := 100, cf_max_message_size := 1000\<rparr>"

definition fresh_dst :: buffer_t where
  "fresh_dst = \<lparr>b_data = malloc_block zero_alloc 128, b_length = 0, b_capacity = 128, b_max_length = 0\<rparr>"

lemma fresh_dst_created: "buffer_create zero_alloc 0 = Some fresh_dst"
  by (simp add: buffer_create_def fresh_dst_def INIT_BUFFER_SIZE_def sizeof_buffer_t_def PTRDIFF_MAX_def)

lemma empty_conf_unlimited: "cf_max_frame_size empty_conf = 0" "cf_max_message_size empty_conf = 0"
  by (simp_all add: empty_conf_def)

lemmas opcode_defs = OPCODE_CONTINUATION_def OPCODE_TEXT_def OPCODE_BINARY_def OPCODE_CLOSE_def
  OPCODE_PING_def OPCODE_PONG_def

section \<open>Every input, with small limits\<close>

lemma held_limited:
  assumes "wsmsg_ok lim mlim w" and "0 < lim" and "0 < mlim"
  shows "held (absw w) \<le> mlim + 3 * lim"
proof -
  have b: "buf_ok (w_frame_buffer w)" "buf_ok (w_frame_data w)" "buf_ok (w_message_buffer w)"
    using assms(1) by (auto simp: wsmsg_ok_def)
  then have "b_length (w_frame_buffer w) \<le> 2 * lim" "b_length (w_frame_data w) \<le> lim"
    "b_length (w_message_buffer w) \<le> mlim"
    using assms buf_length_max by (fastforce simp: wsmsg_ok_def)+
  then show ?thesis
    using b by (simp add: held_def absw_def)
qed

fun add_small :: "wsop \<Rightarrow> bool" where
  "add_small (Add xs) \<longleftrightarrow> length xs < 2 ^ 62"
| "add_small Get_message \<longleftrightarrow> True"
| "add_small Get_frame \<longleftrightarrow> True"

lemma safe_run_limited:
  assumes "wsmsg_inv lim mlim cap w" and "0 < lim" and "14 + lim \<le> cap" and "0 < mlim"
    and "int mlim \<le> INT_MAX" and "2 * int lim \<le> INT_MAX" and "add_small x"
  shows "safe_run lim mlim cap [x] (absw w)"
proof (cases x)
  case (Add xs)
  have "held (absw w) \<le> mlim + 3 * lim"
    using held_limited assms by (auto simp: wsmsg_inv_def)
  then have "held (absw w) + length xs + 1024 \<le> PTRDIFF_MAX"
    using assms(5-7) Add by (simp add: INT_MAX_def PTRDIFF_MAX_def)
  then show ?thesis
    using Add reads_ok_limited [OF assms(2)] assms(3) by (simp add: Let_def)
qed auto

lemma run_ops_limited:
  assumes "wsmsg_inv lim mlim cap w" and "generous al" and "buf_ok dst" "b_max_length dst = 0"
    and "0 < lim" and "14 + lim \<le> cap" and "0 < mlim"
    and "int mlim \<le> INT_MAX" and "2 * int lim \<le> INT_MAX" and "\<forall>x \<in> set ops. add_small x"
  shows "\<exists>outs w' dst'. run_ops al ops (w, dst) = Ok (outs, w', dst')
     \<and> arun lim mlim ops (absw w) = (outs, absw w') \<and> wsmsg_inv lim mlim cap w'"
  using assms
proof (induction ops arbitrary: w dst)
  case Nil
  then show ?case by auto
next
  case (Cons x xs)
  have "safe_run lim mlim cap [x] (absw w)"
    using Cons.prems by (intro safe_run_limited) auto
  then obtain out w1 dst1 where 1: "do_op al x (w, dst) = Ok (out, w1, dst1)"
    "ado_op lim mlim x (absw w) = (out, absw w1)" "wsmsg_inv lim mlim cap w1"
    "buf_ok dst1" "b_max_length dst1 = 0"
    using do_op_refines [OF Cons.prems(1-4)] by blast
  moreover have "\<exists>outs w' dst'. run_ops al xs (w1, dst1) = Ok (outs, w', dst')
     \<and> arun lim mlim xs (absw w1) = (outs, absw w') \<and> wsmsg_inv lim mlim cap w'"
    using Cons.prems 1 by (intro Cons.IH) auto
  ultimately show ?case by auto
qed

text \<open>C8: with \<open>max_frame_size\<close> between 14 and 114 and a positive \<open>max_message_size\<close>, whatever bytes
  arrive, in whatever pieces, and however the calls are interleaved, a receiver created from the
  configuration never reads or writes outside a block, and every result is the one of the abstract
  receiver on byte lists.\<close>

theorem receiver_safe_limited:
  assumes "generous al"
    and "cf_max_frame_size conf = int lim" and "14 \<le> lim" and "lim \<le> 114"
    and "cf_max_message_size conf = int mlim" and "0 < mlim" and "int mlim \<le> INT_MAX"
    and "buffer_create al 0 = Some dst" and "\<forall>x \<in> set ops. add_small x"
  shows "\<exists>w outs w' dst'. wsmsg_create al conf = Ok (Some w)
     \<and> run_ops al ops (w, dst) = Ok (outs, w', dst')
     \<and> arun lim mlim ops amsg_init = (outs, absw w')"
proof -
  have l: "2 * int lim \<le> INT_MAX" using assms(4) by (simp add: INT_MAX_def)
  obtain w where w: "wsmsg_create al conf = Ok (Some w)" "wsmsg_inv lim mlim (init_cap lim) w"
    "absw w = amsg_init"
    using wsmsg_create_ok [OF assms(1,2) l assms(5,7)] by blast
  moreover have "14 + lim \<le> init_cap lim" "0 < lim"
    using assms(3,4) by (auto simp: init_cap_def)
  moreover have "buf_ok dst" "b_max_length dst = 0"
    using buffer_create_ok [OF assms(8)] by auto
  ultimately show ?thesis
    using run_ops_limited [OF w(2) assms(1)] assms(6,7,9) l by fastforce
qed

theorem receiver_safe_limited_witness:
  "\<exists>w outs w' dst'. wsmsg_create zero_alloc limited_conf = Ok (Some w)
     \<and> run_ops zero_alloc [Add [0x81, 0xfe, 0xff, 0xff], Get_message, Add [1, 2], Get_frame] (w, fresh_dst)
         = Ok (outs, w', dst')
     \<and> arun 100 1000 [Add [0x81, 0xfe, 0xff, 0xff], Get_message, Add [1, 2], Get_frame] amsg_init
         = (outs, absw w')"
  using receiver_safe_limited [of zero_alloc limited_conf 100 1000 fresh_dst
      "[Add [0x81, 0xfe, 0xff, 0xff], Get_message, Add [1, 2], Get_frame]"]
  by (simp add: limited_conf_def INT_MAX_def fresh_dst_created)

section \<open>Frames on the wire\<close>

text \<open>A message sent in fragments, each with its masking key (RFC 6455, 5.4).\<close>

fun fragments :: "nat \<Rightarrow> (byte list option \<times> byte list) list \<Rightarrow> byte list" where
  "fragments opcode [] = []"
| "fragments opcode ((k, p) # kps) =
     ws_frame (kps = []) opcode k p @ fragments OPCODE_CONTINUATION kps"

fun good_piece :: "byte list option \<times> byte list \<Rightarrow> bool" where
  "good_piece (k, p) \<longleftrightarrow> length p < 2 ^ 32 \<and> (\<forall>key. k = Some key \<longrightarrow> length key = 4)"

definition data_opcode :: "nat \<Rightarrow> bool" where
  "data_opcode opcode \<longleftrightarrow> opcode < 16 \<and> opcode \<notin> {OPCODE_CLOSE, OPCODE_PING, OPCODE_PONG}"

definition idle :: "amsg \<Rightarrow> bool" where
  "idle a \<longleftrightarrow> \<not> a_message a \<and> a_frame a = None \<and> \<not> a_error a"

lemma data_opcode_0: "data_opcode OPCODE_CONTINUATION"
  by (simp add: data_opcode_def OPCODE_CONTINUATION_def OPCODE_CLOSE_def OPCODE_PING_def OPCODE_PONG_def)

lemma parse_frame_piece:
  assumes "good_piece (k, p)" and "data_opcode opcode"
  shows "parse_frame 0 (ws_frame fin opcode k p @ rest) = Complete fin opcode (k \<noteq> None) p rest"
  using parse_frame_ws_frame [of opcode p k 0 fin rest] assms by (simp add: data_opcode_def cut_def)

text \<open>A part of a frame is never taken for a frame, nor for an error.\<close>

lemma parse_frame_part:
  assumes full: "parse_frame lim (xs @ ys) = Complete fin opcode msk p rest"
    and ys: "length rest < length ys"
  shows "parse_frame lim xs = Incomplete"
proof (cases "parse_frame lim xs")
  case Malformed
  then show ?thesis using parse_frame_append_Malformed full by fastforce
next
  case (Complete fin' opcode' msk' p' rest')
  then have "rest = rest' @ ys"
    using parse_frame_append_Complete [OF Complete, of ys] full by simp
  then show ?thesis using ys by simp
qed

lemma aloop_stop:
  "parse_frame lim (a_in a) = Incomplete \<Longrightarrow> aloop lim mlim a = a"
  by (simp add: aloop.simps [of lim mlim a] astep_def)

lemma parse_frame_Nil [simp]: "parse_frame lim [] = Incomplete"
  by (simp add: parse_frame_def)

lemma aloop_step:
  "astep lim mlim a = (True, a') \<Longrightarrow> aloop lim mlim a = aloop lim mlim a'"
  by (simp add: aloop.simps [of lim mlim a])

lemma astep_piece:
  assumes "good_piece (k, p)" and "data_opcode opcode"
    and "a_started a \<longleftrightarrow> opcode = OPCODE_CONTINUATION"
  shows "astep 0 0 (a\<lparr>a_in := ws_frame fin opcode k p @ rest\<rparr>)
    = (True, a\<lparr>a_in := rest, a_msg := a_msg a @ p, a_started := True,
        a_opcode := (if a_started a then a_opcode a else opcode), a_message := fin \<or> a_message a\<rparr>)"
  using astep_data [of 0 "a\<lparr>a_in := ws_frame fin opcode k p @ rest\<rparr>" fin opcode "k \<noteq> None" p rest 0]
    parse_frame_piece [OF assms(1,2)] assms(2,3)
  by (simp add: data_opcode_def cut_def)

text \<open>A whole message, followed by nothing.\<close>

lemma aloop_fragments:
  assumes "kps \<noteq> []" and "\<forall>kp \<in> set kps. good_piece kp" and "data_opcode opcode"
    and "a_started a \<longleftrightarrow> opcode = OPCODE_CONTINUATION" and "\<not> a_message a"
  shows "aloop 0 0 (a\<lparr>a_in := fragments opcode kps\<rparr>)
    = a\<lparr>a_in := [], a_msg := a_msg a @ concat (map snd kps), a_started := True,
        a_opcode := (if a_started a then a_opcode a else opcode), a_message := True\<rparr>"
  using assms
proof (induction kps arbitrary: a opcode)
  case Nil
  then show ?case by simp
next
  case (Cons kp kps)
  obtain k p where kp: "kp = (k, p)" by (cases kp)
  define oc where "oc = (if a_started a then a_opcode a else opcode)"
  let ?a = "a\<lparr>a_in := fragments OPCODE_CONTINUATION kps, a_msg := a_msg a @ p, a_started := True,
      a_opcode := oc, a_message := kps = []\<rparr>"
  have "aloop 0 0 (a\<lparr>a_in := fragments opcode (kp # kps)\<rparr>) = aloop 0 0 ?a"
    using astep_piece [of k p opcode a "kps = []"] Cons.prems kp
    by (intro aloop_step) (simp add: oc_def)
  also have "\<dots> = a\<lparr>a_in := [], a_msg := a_msg a @ concat (map snd (kp # kps)), a_started := True,
        a_opcode := oc, a_message := True\<rparr>"
  proof (cases "kps = []")
    case True
    then show ?thesis by (simp add: aloop_stop kp)
  next
    case False
    let ?b = "a\<lparr>a_msg := a_msg a @ p, a_started := True, a_opcode := oc, a_message := False\<rparr>"
    have "?a = ?b\<lparr>a_in := fragments OPCODE_CONTINUATION kps\<rparr>" using False by simp
    moreover have "aloop 0 0 (?b\<lparr>a_in := fragments OPCODE_CONTINUATION kps\<rparr>)
        = a\<lparr>a_in := [], a_msg := a_msg a @ concat (map snd (kp # kps)), a_started := True,
            a_opcode := oc, a_message := True\<rparr>"
      using Cons.IH [of OPCODE_CONTINUATION ?b] False Cons.prems data_opcode_0 kp by simp
    ultimately show ?thesis by (simp only:)
  qed
  finally show ?case by (simp add: oc_def)
qed

text \<open>A proper prefix of a message leaves the receiver idle.\<close>

lemma aloop_fragments_prefix:
  assumes "fragments opcode kps = xs @ ys" and "ys \<noteq> []" and "\<forall>kp \<in> set kps. good_piece kp"
    and "data_opcode opcode" and "a_started a \<longleftrightarrow> opcode = OPCODE_CONTINUATION" and "idle a"
  shows "idle (aloop 0 0 (a\<lparr>a_in := xs\<rparr>))"
  using assms
proof (induction kps arbitrary: a opcode xs)
  case Nil
  then show ?case by simp
next
  case (Cons kp kps)
  obtain k p where kp: "kp = (k, p)" by (cases kp)
  let ?f = "ws_frame (kps = []) opcode k p"
  have good: "good_piece (k, p)" using Cons.prems(3) kp by simp
  have split: "?f @ fragments OPCODE_CONTINUATION kps = xs @ ys"
    using Cons.prems(1) kp by simp
  show ?case
  proof (cases "length xs < length ?f")
    case True
    then have "length (fragments OPCODE_CONTINUATION kps) < length ys"
      using arg_cong [OF split, of length] by simp
    then have "parse_frame 0 xs = Incomplete"
      using parse_frame_piece [OF good Cons.prems(4)] split parse_frame_part by metis
    then have "aloop 0 0 (a\<lparr>a_in := xs\<rparr>) = a\<lparr>a_in := xs\<rparr>"
      by (intro aloop_stop) simp
    then show ?thesis using Cons.prems(6) by (simp add: idle_def)
  next
    case False
    then obtain zs where xs: "xs = ?f @ zs" and zs: "fragments OPCODE_CONTINUATION kps = zs @ ys"
      using split by (auto simp: append_eq_append_conv2)
    then have "kps \<noteq> []" using Cons.prems(2) by auto
    let ?b = "a\<lparr>a_msg := a_msg a @ p, a_started := True,
        a_opcode := (if a_started a then a_opcode a else opcode), a_message := False\<rparr>"
    have "aloop 0 0 (a\<lparr>a_in := xs\<rparr>) = aloop 0 0 (?b\<lparr>a_in := zs\<rparr>)"
      using astep_piece [OF good Cons.prems(4,5), of "kps = []" zs] \<open>kps \<noteq> []\<close> Cons.prems(6) xs
      by (intro aloop_step) (simp add: idle_def)
    moreover have "idle ?b" using Cons.prems(6) by (simp add: idle_def)
    ultimately show ?thesis
      using Cons.IH [OF zs Cons.prems(2) _ data_opcode_0, of ?b] Cons.prems(3) by simp
  qed
qed

section \<open>Pieces of a stream\<close>

text \<open>Bytes that arrive later may as well have been there from the start.\<close>

lemma astep_append:
  assumes "parse_frame lim (a_in a) \<noteq> Incomplete"
  shows "astep lim mlim (a\<lparr>a_in := a_in a @ ys\<rparr>)
    = map_prod id (\<lambda>a'. a'\<lparr>a_in := a_in a' @ ys\<rparr>) (astep lim mlim a)"
proof (cases "parse_frame lim (a_in a)")
  case Incomplete
  then show ?thesis using assms by simp
next
  case Malformed
  then show ?thesis
    using parse_frame_append_Malformed [OF Malformed, of ys] by (simp add: astep_def)
next
  case (Complete fin opcode msk payload rest)
  show ?thesis
    using parse_frame_append_Complete [OF Complete, of ys]
    by (auto simp: astep_def Complete Let_def)
qed

lemma aloop_append:
  assumes "idle (aloop lim mlim a)"
  shows "aloop lim mlim (a\<lparr>a_in := a_in a @ ys\<rparr>)
    = aloop lim mlim ((aloop lim mlim a)\<lparr>a_in := a_in (aloop lim mlim a) @ ys\<rparr>)"
  using assms
proof (induction lim mlim a rule: aloop.induct)
  case (1 lim mlim a)
  show ?case
  proof (cases "parse_frame lim (a_in a) = Incomplete")
    case True
    then show ?thesis by (simp add: aloop_stop)
  next
    case False
    obtain c a' where st: "astep lim mlim a = (c, a')" by fastforce
    have st': "astep lim mlim (a\<lparr>a_in := a_in a @ ys\<rparr>) = (c, a'\<lparr>a_in := a_in a' @ ys\<rparr>)"
      using astep_append [OF False] st by simp
    show ?thesis
    proof (cases c)
      case True
      have eq: "aloop lim mlim a = aloop lim mlim a'"
        using st True by (intro aloop_step) simp
      have "aloop lim mlim (a\<lparr>a_in := a_in a @ ys\<rparr>) = aloop lim mlim (a'\<lparr>a_in := a_in a' @ ys\<rparr>)"
        using st' True by (intro aloop_step) simp
      then show ?thesis
        using 1 st True unfolding eq by simp
    next
      case c: False
      then have "aloop lim mlim a = a'" using st by (simp add: aloop.simps [of lim mlim a])
      then have "idle a'" using 1(2) by simp
      then show ?thesis
        using st c False by (auto simp: astep_def idle_def Let_def split: frame_parse.splits if_splits)
    qed
  qed
qed

lemma reads_ok_aloop_append:
  "reads_ok lim cap (a_in a @ ys) \<Longrightarrow> reads_ok lim cap (a_in (aloop lim mlim a) @ ys)"
proof (induction lim mlim a rule: aloop.induct)
  case (1 lim mlim a)
  have "reads_ok lim cap (a_in (snd (astep lim mlim a)) @ ys)"
  proof (cases "parse_frame lim (a_in a) = Incomplete")
    case True
    then show ?thesis using 1(2) by (simp add: astep_def)
  next
    case False
    then show ?thesis
      using reads_ok_astep [of lim cap "a\<lparr>a_in := a_in a @ ys\<rparr>" mlim] 1(2)
      by (simp add: astep_append)
  qed
  then show ?case
    using 1(1) by (subst aloop.simps) auto
qed

lemma held_aloop_append:
  "held (aloop lim mlim a) + length ys \<le> held (a\<lparr>a_in := a_in a @ ys\<rparr>)"
  using held_aloop [of lim mlim a] by (simp add: held_def)

lemma aadd_unlimited: "aadd 0 mlim xs a = (True, aprocess 0 mlim (a\<lparr>a_in := a_in a @ xs\<rparr>))"
  by (simp add: aadd_def cut_def)

lemma arun_append:
  "arun lim mlim (xs @ ys) a =
     (fst (arun lim mlim xs a) @ fst (arun lim mlim ys (snd (arun lim mlim xs a))),
      snd (arun lim mlim ys (snd (arun lim mlim xs a))))"
  by (induction xs arbitrary: a) (auto simp: Let_def split: prod.splits)

lemma safe_run_append:
  "safe_run lim mlim cap (xs @ ys) a \<longleftrightarrow>
     safe_run lim mlim cap xs a \<and> safe_run lim mlim cap ys (snd (arun lim mlim xs a))"
  by (induction xs arbitrary: a) (auto simp: Let_def split: prod.splits wsop.splits)

text \<open>
  A stream whose proper prefixes leave an unlimited receiver idle: it does not matter how it is
  cut into pieces, and the copies are as safe as for the whole stream.
\<close>

lemma arun_pieces:
  assumes "concat cs @ zs = s" and "idle a" and "a_in a = []"
    and "\<And>xs ys. s = xs @ ys \<Longrightarrow> ys \<noteq> [] \<Longrightarrow> idle (aloop 0 mlim (a\<lparr>a_in := xs\<rparr>))"
  shows "arun 0 mlim (map Add cs) a
     = (replicate (length cs) (Added True), aloop 0 mlim (a\<lparr>a_in := concat cs\<rparr>))"
  using assms(1)
proof (induction cs arbitrary: zs rule: rev_induct)
  case Nil
  have "a\<lparr>a_in := []\<rparr> = a" using assms(3) by simp
  then show ?case by (simp add: aloop_stop assms(3))
next
  case (snoc c cs)
  let ?a = "a\<lparr>a_in := concat cs\<rparr>"
  let ?l = "aloop 0 mlim ?a"
  have ih: "arun 0 mlim (map Add cs) a = (replicate (length cs) (Added True), ?l)"
    using snoc.IH [of "c @ zs"] snoc.prems by simp
  have "aprocess 0 mlim (?l\<lparr>a_in := a_in ?l @ c\<rparr>) = aloop 0 mlim (a\<lparr>a_in := concat (cs @ [c])\<rparr>)"
  proof (cases "idle ?l")
    case True
    then show ?thesis
      using aloop_append [OF True, of c] by (simp add: aprocess_def idle_def)
  next
    case False
    then have "c = []" using assms(4) [of "concat cs" "c @ zs"] snoc.prems by auto
    then show ?thesis
      using False by (auto simp: aprocess_def idle_def)
  qed
  then show ?case
    by (simp add: arun_append ih aadd_unlimited replicate_append_same)
qed

lemma safe_run_pieces:
  assumes "concat cs @ zs = s" and "idle a" and "a_in a = []"
    and "\<And>xs ys. s = xs @ ys \<Longrightarrow> ys \<noteq> [] \<Longrightarrow> idle (aloop 0 mlim (a\<lparr>a_in := xs\<rparr>))"
    and "\<And>xs ys. s = xs @ ys \<Longrightarrow> reads_ok 0 cap xs"
    and "held a + length s + 1024 \<le> PTRDIFF_MAX"
  shows "safe_run 0 mlim cap (map Add cs) a"
  using assms(1)
proof (induction cs arbitrary: zs rule: rev_induct)
  case Nil
  then show ?case by simp
next
  case (snoc c cs)
  let ?a = "a\<lparr>a_in := concat cs\<rparr>"
  let ?l = "aloop 0 mlim ?a"
  have "reads_ok 0 cap (concat cs @ c)"
    using assms(5) [of "concat cs @ c" zs] snoc.prems by simp
  then have "reads_ok 0 cap (a_in ?l @ c)"
    using reads_ok_aloop_append [of 0 cap ?a c mlim] by simp
  then have "reads_ok 0 (max cap (length (a_in ?l @ c))) (a_in ?l @ c)"
    by (rule reads_ok_mono) simp
  moreover have "held ?l + length c + 1024 \<le> PTRDIFF_MAX"
    using held_aloop_append [of 0 mlim ?a c] assms(3,6) snoc.prems by (auto simp: held_def)
  ultimately have "safe_run 0 mlim cap [Add c] ?l"
    by (simp add: cut_def)
  then show ?case
    using snoc.IH [of "c @ zs"] snoc.prems
      arun_pieces [of cs "c @ zs" s a mlim, OF _ assms(2,3,4)]
    by (simp add: safe_run_append)
qed

lemma length_ws_frame:
  "length (ws_frame fin opcode key payload) = 2 + length (length_bytes (length payload))
     + (case key of None \<Rightarrow> 0 | Some k \<Rightarrow> length k) + length payload"
  by (simp add: ws_frame_def Let_def split: option.splits)

lemma frame_extent_part:
  assumes pf: "parse_frame 0 (xs @ ys) = Complete fin opcode msk p rest" and "2 \<le> length xs"
  shows "frame_extent 0 xs + length rest \<le> length (xs @ ys)"
proof (cases "parse_header xs")
  case None
  then show ?thesis
    using parse_frame_Complete_lengths(1) [OF pf] by (simp add: frame_extent_def)
next
  case (Some h)
  obtain ml hl where h: "h = (ml, hl)" by (cases h)
  let ?off = "if xs ! 1 AND 0x80 \<noteq> 0 then hl + 4 else hl"
  have h': "parse_header (xs @ ys) = Some (ml, hl)"
    using parse_header_append [OF Some assms(2)] h by simp
  have n: "(xs @ ys) ! 1 = xs ! 1" using assms(2) by (simp add: nth_append)
  have "?off + ml \<le> length (xs @ ys)" and "rest = drop (?off + ml) (xs @ ys)"
    using pf unfolding parse_frame_def Let_def h' option.case prod.case n
    by (auto split: if_splits)
  then show ?thesis
    by (simp only: frame_extent_def Some h option.case prod.case length_drop) simp
qed

lemma reads_ok_fragments:
  assumes "fragments opcode kps = xs @ ys" and "\<forall>kp \<in> set kps. good_piece kp"
    and "\<forall>(k, p) \<in> set kps. length (ws_frame True 0 k p) \<le> cap" and "data_opcode opcode"
  shows "reads_ok 0 cap xs"
  using assms
proof (induction kps arbitrary: opcode xs)
  case Nil
  then show ?case by (simp add: reads_ok_Nil)
next
  case (Cons kp kps)
  obtain k p where kp: "kp = (k, p)" by (cases kp)
  let ?f = "ws_frame (kps = []) opcode k p"
  let ?r = "fragments OPCODE_CONTINUATION kps"
  have good: "good_piece (k, p)" and len: "length ?f \<le> cap"
    using Cons.prems(2,3) kp by (auto simp: length_ws_frame)
  have split: "?f @ ?r = xs @ ys" using Cons.prems(1) kp by simp
  have pf: "parse_frame 0 (xs @ ys) = Complete (kps = []) opcode (k \<noteq> None) p ?r"
    using parse_frame_piece [OF good Cons.prems(4)] split by metis
  have ext: "frame_extent 0 xs \<le> cap" if "2 \<le> length xs"
    using frame_extent_part [OF pf that] arg_cong [OF split, of length] len by simp
  show ?case
  proof (cases "length xs < length ?f")
    case True
    then have "parse_frame 0 xs = Incomplete"
      using parse_frame_part [OF pf] arg_cong [OF split, of length] by simp
    then show ?thesis using ext by (simp add: reads_ok.simps)
  next
    case False
    then obtain zs where xs: "xs = ?f @ zs" and zs: "?r = zs @ ys"
      using split by (auto simp: append_eq_append_conv2)
    have "reads_ok 0 cap zs"
      using Cons.IH [OF zs] Cons.prems(2,3) data_opcode_0 by simp
    then show ?thesis
      using ext parse_frame_piece [OF good Cons.prems(4), of "kps = []" zs]
      by (subst reads_ok.simps) (simp add: xs)
  qed
qed

section \<open>Messages in pieces\<close>

lemma idle_init: "idle amsg_init" "a_in amsg_init = []" "\<not> a_started amsg_init"
  by (simp_all add: idle_def amsg_init_def)

lemma create_unlimited:
  assumes "generous al" and "cf_max_frame_size conf = 0" and "cf_max_message_size conf = 0"
    and "buffer_create al 0 = Some dst"
  obtains w where "wsmsg_create al conf = Ok (Some w)" and "wsmsg_inv 0 0 128 w" and "absw w = amsg_init"
    and "buf_ok dst" and "b_max_length dst = 0"
proof -
  obtain w where "wsmsg_create al conf = Ok (Some w)" "wsmsg_inv 0 0 128 w" "absw w = amsg_init"
    using wsmsg_create_ok [OF assms(1), of conf 0 0] assms(2,3) by (auto simp: INT_MAX_def init_cap_def)
  moreover have "buf_ok dst" "b_max_length dst = 0"
    using buffer_create_ok [OF assms(4)] by auto
  ultimately show thesis using that by blast
qed

text \<open>C4: in the default configuration (no limits), a message sent in any number of fragments, each of
  at most 128 bytes on the wire, masked or not, is delivered once and whole, however the socket
  cuts the bytes into pieces: every \<open>wsmsg_add\<close> succeeds and \<open>wsmsg_get_message\<close> returns the opcode
  of the first fragment and the payloads in order.\<close>

theorem message_in_pieces:
  assumes al: "generous al"
    and conf: "cf_max_frame_size conf = 0" "cf_max_message_size conf = 0"
    and dst: "buffer_create al 0 = Some dst"
    and op: "data_opcode opcode" "opcode \<noteq> OPCODE_CONTINUATION"
    and kps: "kps \<noteq> []" "\<forall>kp \<in> set kps. good_piece kp"
      "\<forall>(k, p) \<in> set kps. length (ws_frame True 0 k p) \<le> 128"
    and cs: "concat cs = fragments opcode kps" "length (fragments opcode kps) < 2 ^ 62"
  shows "\<exists>w w' dst'. wsmsg_create al conf = Ok (Some w)
     \<and> run_ops al (map Add cs @ [Get_message]) (w, dst)
         = Ok (replicate (length cs) (Added True) @ [Message (Some (opcode, concat (map snd kps)))], w', dst')"
proof -
  let ?s = "fragments opcode kps"
  obtain w where w: "wsmsg_create al conf = Ok (Some w)" "wsmsg_inv 0 0 128 w" "absw w = amsg_init"
    "buf_ok dst" "b_max_length dst = 0"
    using create_unlimited [OF al conf dst] by blast
  have prefix: "idle (aloop 0 0 (amsg_init\<lparr>a_in := xs\<rparr>))" if "?s = xs @ ys" "ys \<noteq> []" for xs ys
    using aloop_fragments_prefix [OF that kps(2) op(1)] op(2) idle_init by simp
  have "reads_ok 0 128 xs" if "?s = xs @ ys" for xs ys
    using reads_ok_fragments [OF that kps(2,3) op(1)] .
  then have "safe_run 0 0 128 (map Add cs) amsg_init"
    using safe_run_pieces [of cs "[]" ?s amsg_init 0 128, OF _ idle_init(1,2) prefix] cs
    by (simp add: held_def amsg_init_def PTRDIFF_MAX_def)
  then have safe: "safe_run 0 0 128 (map Add cs @ [Get_message]) (absw w)"
    by (simp add: safe_run_append w(3))
  have "arun 0 0 (map Add cs) amsg_init
      = (replicate (length cs) (Added True), aloop 0 0 (amsg_init\<lparr>a_in := ?s\<rparr>))"
    using arun_pieces [of cs "[]" ?s amsg_init 0, OF _ idle_init(1,2) prefix] cs by simp
  then have "fst (arun 0 0 (map Add cs @ [Get_message]) (absw w))
      = replicate (length cs) (Added True) @ [Message (Some (opcode, concat (map snd kps)))]"
    using aloop_fragments [OF kps(1,2) op(1), of amsg_init] op(2)
    by (simp add: arun_append w(3) aget_message_def amsg_init_def)
  then show ?thesis
    using run_ops_refines [OF w(2) al w(4,5) safe] w(1) by auto
qed

theorem message_in_pieces_witness:
  "\<exists>w w' dst'. wsmsg_create zero_alloc empty_conf = Ok (Some w)
     \<and> run_ops zero_alloc (map Add [[0x01], [0x02, 7, 8, 0x80], [0x81, 1, 2, 3, 4, 6]] @ [Get_message]) (w, fresh_dst)
         = Ok (replicate 3 (Added True) @ [Message (Some (OPCODE_TEXT, [7, 8, 7]))], w', dst')"
proof -
  let ?kps = "[(None, [7, 8]), (Some [1, 2, 3, 4], [7])] :: (byte list option \<times> byte list) list"
  let ?cs = "[[0x01], [0x02, 7, 8, 0x80], [0x81, 1, 2, 3, 4, 6]] :: byte list list"
  have s: "concat ?cs = fragments OPCODE_TEXT ?kps"
    by (simp add: ws_frame_def length_bytes_def mask_bytes_def opcode_defs)
  have len: "length (fragments OPCODE_TEXT ?kps) < 2 ^ 62"
    by (simp add: length_ws_frame length_bytes_def)
  have "\<forall>(k, p) \<in> set ?kps. length (ws_frame True 0 k p) \<le> 128"
    by (simp add: length_ws_frame length_bytes_def)
  then have "\<exists>w w' dst'. wsmsg_create zero_alloc empty_conf = Ok (Some w)
     \<and> run_ops zero_alloc (map Add ?cs @ [Get_message]) (w, fresh_dst)
         = Ok (replicate (length ?cs) (Added True) @ [Message (Some (OPCODE_TEXT, concat (map snd ?kps)))], w', dst')"
    using s len
    by (intro message_in_pieces [OF generous_zero_alloc empty_conf_unlimited fresh_dst_created])
      (simp_all add: data_opcode_def opcode_defs)
  moreover have "length ?cs = 3" "concat (map snd ?kps) = [7, 8, 7]" by simp_all
  ultimately show ?thesis by (simp only:)
qed

section \<open>Whole frames in one read\<close>

lemma reads_ok_whole:
  assumes pf: "parse_frame 0 bs = Complete fin opcode msk p rest" and "length bs \<le> cap"
    and "reads_ok 0 cap rest"
  shows "reads_ok 0 cap bs"
  using frame_extent_part [of bs "[]", OF _ ] pf assms(2,3)
  by (subst reads_ok.simps) auto

lemma length_ws_frame_pos: "0 < length (ws_frame fin opcode key payload)"
  by (simp add: ws_frame_def)

lemma reads_ok_piece:
  assumes "good_piece (k, p)" and "opcode < 16"
    and "length (ws_frame fin opcode k p) + length rest \<le> cap" and "reads_ok 0 cap rest"
  shows "reads_ok 0 cap (ws_frame fin opcode k p @ rest)"
proof (rule reads_ok_whole)
  show "parse_frame 0 (ws_frame fin opcode k p @ rest) = Complete fin opcode (k \<noteq> None) (cut 0 p) rest"
    using assms(1,2) by (intro parse_frame_ws_frame) simp_all
qed (use assms(3,4) in simp_all)

definition control_opcode :: "nat \<Rightarrow> bool" where
  "control_opcode opcode \<longleftrightarrow> opcode \<in> {OPCODE_CLOSE, OPCODE_PING, OPCODE_PONG}"

lemma control_opcode_less: "control_opcode opcode \<Longrightarrow> opcode < 16"
  by (auto simp: control_opcode_def OPCODE_CLOSE_def OPCODE_PING_def OPCODE_PONG_def)

lemma aloop_control:
  assumes "good_piece (k, p)" and "control_opcode opcode"
  shows "aloop 0 mlim (a\<lparr>a_in := ws_frame True opcode k p @ rest\<rparr>)
    = a\<lparr>a_in := rest, a_frame := Some (True, opcode, k \<noteq> None, p)\<rparr>"
proof -
  let ?a = "a\<lparr>a_in := ws_frame True opcode k p @ rest\<rparr>"
  have pf: "parse_frame 0 (a_in ?a) = Complete True opcode (k \<noteq> None) p rest"
    using parse_frame_ws_frame [of opcode p k 0 True rest] assms(1) control_opcode_less [OF assms(2)]
    by (simp add: cut_def)
  have op: "opcode = OPCODE_CLOSE \<or> opcode = OPCODE_PING \<or> opcode = OPCODE_PONG"
    using assms(2) by (simp add: control_opcode_def)
  have "astep 0 mlim ?a = (False, a\<lparr>a_in := rest, a_frame := Some (True, opcode, k \<noteq> None, p)\<rparr>)"
    unfolding astep_def pf frame_parse.case Let_def if_P [OF op] by simp
  then show ?thesis
    by (simp add: aloop.simps [of 0 mlim ?a])
qed

lemma aloop_piece:
  assumes "good_piece (k, p)" and "data_opcode opcode"
    and "a_started a \<longleftrightarrow> opcode = OPCODE_CONTINUATION"
  shows "aloop 0 0 (a\<lparr>a_in := ws_frame fin opcode k p @ rest\<rparr>)
    = aloop 0 0 (a\<lparr>a_in := rest, a_msg := a_msg a @ p, a_started := True,
        a_opcode := (if a_started a then a_opcode a else opcode), a_message := fin \<or> a_message a\<rparr>)"
  using astep_piece [OF assms] by (rule aloop_step)

text \<open>C24: a control frame between the fragments of a message is delivered by \<open>wsmsg_get_frame\<close> with its
  own payload, and the message is still delivered whole afterwards, even when one read brings all
  three frames.\<close>

theorem control_between_fragments:
  assumes al: "generous al"
    and conf: "cf_max_frame_size conf = 0" "cf_max_message_size conf = 0"
    and dst: "buffer_create al 0 = Some dst"
    and op: "data_opcode opcode" "opcode \<noteq> OPCODE_CONTINUATION" "control_opcode ctl"
    and good: "good_piece (k1, p1)" "good_piece (kc, pc)" "good_piece (k2, p2)"
    and stream: "s = ws_frame False opcode k1 p1 @ ws_frame True ctl kc pc
                      @ ws_frame True OPCODE_CONTINUATION k2 p2" "length s < 2 ^ 62"
  shows "\<exists>w w' dst'. wsmsg_create al conf = Ok (Some w)
     \<and> run_ops al [Add s, Get_frame, Get_message] (w, dst)
         = Ok ([Added True, Control (Some (True, ctl, kc \<noteq> None, pc)),
                Message (Some (opcode, p1 @ p2))], w', dst')"
proof -
  obtain w where w: "wsmsg_create al conf = Ok (Some w)" "wsmsg_inv 0 0 128 w" "absw w = amsg_init"
    "buf_ok dst" "b_max_length dst = 0"
    using create_unlimited [OF al conf dst] by blast
  let ?f2 = "ws_frame True OPCODE_CONTINUATION k2 p2"
  let ?a1 = "amsg_init\<lparr>a_msg := p1, a_started := True, a_opcode := opcode, a_in := ?f2,
      a_frame := Some (True, ctl, kc \<noteq> None, pc)\<rparr>"
  have 1: "aprocess 0 0 (amsg_init\<lparr>a_in := s\<rparr>) = ?a1"
    unfolding aprocess_def stream(1)
    using aloop_piece [OF good(1) op(1), of amsg_init] op(2)
      aloop_control [OF good(2) op(3), where mlim = 0 and rest = ?f2
        and a = "amsg_init\<lparr>a_msg := p1, a_started := True, a_opcode := opcode\<rparr>"]
    by (simp add: amsg_init_def)
  have 2: "aprocess 0 0 (?a1\<lparr>a_frame := None\<rparr>)
      = amsg_init\<lparr>a_msg := p1 @ p2, a_started := True, a_opcode := opcode, a_message := True\<rparr>"
    using aloop_piece [OF good(3) data_opcode_0, of "?a1\<lparr>a_frame := None\<rparr>" True "[]"]
    by (simp add: aprocess_def amsg_init_def aloop_stop)
  have outs: "fst (arun 0 0 [Add s, Get_frame, Get_message] (absw w))
      = [Added True, Control (Some (True, ctl, kc \<noteq> None, pc)), Message (Some (opcode, p1 @ p2))]"
    using 1 2 by (simp add: w(3) aadd_unlimited idle_init aget_frame_def aget_message_def)
  have "reads_ok 0 (length s) s"
    unfolding stream(1) using good op data_opcode_0 control_opcode_less [OF op(3)]
    by (intro reads_ok_piece reads_ok_piece [where rest = "[]", simplified])
      (auto simp: data_opcode_def reads_ok_Nil)
  then have "safe_run 0 0 128 [Add s, Get_frame, Get_message] (absw w)"
    using stream(2) reads_ok_mono [of 0 "length s" s "max 128 (length s)"]
    by (simp add: w(3) idle_init cut_def held_def amsg_init_def PTRDIFF_MAX_def)
  then show ?thesis
    using run_ops_refines [OF w(2) al w(4,5)] outs w(1) by fastforce
qed

theorem control_between_fragments_witness:
  "\<exists>w w' dst'. wsmsg_create zero_alloc empty_conf = Ok (Some w)
     \<and> run_ops zero_alloc [Add [0x02, 1, 7, 0x89, 1, 5, 0x80, 1, 8], Get_frame, Get_message] (w, fresh_dst)
         = Ok ([Added True, Control (Some (True, OPCODE_PING, False, [5])),
                Message (Some (OPCODE_BINARY, [7, 8]))], w', dst')"
proof -
  have s: "[0x02, 1, 7, 0x89, 1, 5, 0x80, 1, 8] = ws_frame False OPCODE_BINARY None [7]
      @ ws_frame True OPCODE_PING None [5] @ ws_frame True OPCODE_CONTINUATION None [8]"
    by (simp add: ws_frame_def length_bytes_def opcode_defs)
  show ?thesis
    using control_between_fragments [OF generous_zero_alloc empty_conf_unlimited fresh_dst_created _ _ _ _ _ _ s]
    by (simp add: data_opcode_def control_opcode_def opcode_defs)
qed

lemma w_error_absw: "w_error w = a_error (absw w)"
  by (simp add: absw_def)

text \<open>C33: two complete messages that arrive in one read are rejected: after the first one the loop goes
  on with \<open>message_started\<close> still set, so the second one is an error, and the connection will be
  closed, although both messages are well formed.\<close>

theorem two_messages_in_one_read_fail:
  assumes al: "generous al"
    and conf: "cf_max_frame_size conf = 0" "cf_max_message_size conf = 0"
    and op: "data_opcode op1" "op1 \<noteq> OPCODE_CONTINUATION" "data_opcode op2" "op2 \<noteq> OPCODE_CONTINUATION"
    and good: "good_piece (k1, p1)" "good_piece (k2, p2)"
    and stream: "s = ws_frame True op1 k1 p1 @ ws_frame True op2 k2 p2" "length s < 2 ^ 62"
  shows "\<exists>w w'. wsmsg_create al conf = Ok (Some w)
     \<and> wsmsg_add al w s (length s) = Ok (True, w') \<and> wsmsg_fail w'"
proof -
  obtain w where w: "wsmsg_create al conf = Ok (Some w)" "wsmsg_inv 0 0 128 w" "absw w = amsg_init"
    using wsmsg_create_ok [OF al, of conf 0 0] conf by (auto simp: INT_MAX_def init_cap_def)
  let ?a1 = "amsg_init\<lparr>a_in := ws_frame True op2 k2 p2, a_msg := p1, a_started := True,
      a_opcode := op1, a_message := True\<rparr>"
  have "parse_frame 0 (a_in ?a1) = Complete True op2 (k2 \<noteq> None) p2 []"
    using parse_frame_piece [OF good(2) op(3), of True "[]"] by simp
  then have "aloop 0 0 ?a1 = ?a1\<lparr>a_in := [], a_error := True\<rparr>"
    using op(3,4) by (subst aloop.simps) (simp add: astep_def data_opcode_def)
  then have "aadd 0 0 s amsg_init = (True, ?a1\<lparr>a_in := [], a_error := True\<rparr>)"
    using aloop_piece [OF good(1) op(1), of amsg_init True "ws_frame True op2 k2 p2"] op(2)
    by (simp add: aadd_unlimited aprocess_def amsg_init_def stream(1))
  moreover have "reads_ok 0 (length s) s"
    unfolding stream(1) using good op
    by (intro reads_ok_piece reads_ok_piece [where rest = "[]", simplified])
      (auto simp: data_opcode_def reads_ok_Nil)
  then have "reads_ok 0 (max 128 (length s)) s"
    by (rule reads_ok_mono) simp
  then have "\<exists>w'. wsmsg_add al w s (length s) = Ok (fst (aadd 0 0 s (absw w)), w')
      \<and> absw w' = snd (aadd 0 0 s (absw w)) \<and> wsmsg_inv 0 0 128 w'"
    using wsmsg_add_refines [OF w(2) al, of "length s" s s] stream(2)
    by (simp add: w(3) idle_init cut_def held_def amsg_init_def PTRDIFF_MAX_def)
  ultimately show ?thesis
    using w(1,3) by (auto simp: wsmsg_fail_def w_error_absw)
qed

theorem two_messages_in_one_read_fail_witness:
  "\<exists>w w'. wsmsg_create zero_alloc empty_conf = Ok (Some w)
     \<and> wsmsg_add zero_alloc w [0x81, 1, 7, 0x81, 1, 8] 6 = Ok (True, w') \<and> wsmsg_fail w'"
proof -
  have s: "[0x81, 1, 7, 0x81, 1, 8] = ws_frame True OPCODE_TEXT None [7] @ ws_frame True OPCODE_TEXT None [8]"
    by (simp add: ws_frame_def length_bytes_def opcode_defs)
  have "length ([0x81, 1, 7, 0x81, 1, 8] :: byte list) = 6" by simp
  moreover have "\<exists>w w'. wsmsg_create zero_alloc empty_conf = Ok (Some w)
     \<and> wsmsg_add zero_alloc w [0x81, 1, 7, 0x81, 1, 8] (length ([0x81, 1, 7, 0x81, 1, 8] :: byte list))
         = Ok (True, w') \<and> wsmsg_fail w'"
    by (rule two_messages_in_one_read_fail [OF generous_zero_alloc empty_conf_unlimited _ _ _ _ _ _ s])
      (simp_all add: data_opcode_def opcode_defs)
  ultimately show ?thesis by (simp only:)
qed

section \<open>Headers that announce more than the block holds\<close>

lemma get_frame_overread:
  assumes src: "buf_ok src" "2 \<le> b_length src" "contents src ! 0 AND 0x70 = 0"
    and h: "parse_header (contents src) = Some (ml, hl)"
    and off: "b_capacity src < (if contents src ! 1 AND 0x80 \<noteq> 0 then hl + 4 else hl) + ml"
    and buf: "buf_ok buffer" "b_max_length buffer = 0" and al: "generous al"
    and hdr: "(if contents src ! 1 AND 0x80 \<noteq> 0 then hl + 4 else hl) \<le> b_capacity src"
  shows "get_frame al src buffer = Fault Out_Of_Bounds"
proof -
  define msk where "msk = (contents src ! 1 AND 0x80 \<noteq> 0)"
  define o' where "o' = (if msk then hl + 4 else hl)"
  note d = buf_okD [OF src(1)]
  have get: "mem_get (b_data src) 0 = Ok (contents src ! 0)" "mem_get (b_data src) 1 = Ok (contents src ! 1)"
    using src d by (auto simp: mem_get_def nth_contents)
  have ml: "ml < 2 ^ 32" using parse_header_bounds(1) [OF h] src by simp
  have "length (drop o' (b_data src)) < ml"
    using off hdr d by (simp add: o'_def msk_def)
  moreover have "small_request (buffer_clear buffer) ml"
    using ml by (simp add: small_request_def SIZE_MOD_def)
  moreover have "granted al (b_length (buffer_clear buffer) + ml + 1024)"
    using ml generous_small [OF al] by (simp add: PTRDIFF_MAX_def)
  ultimately have "buffer_append al (buffer_clear buffer) (drop o' (b_data src)) ml = Fault Out_Of_Bounds"
    using buf by (intro buffer_append_overread) simp_all
  then have "frame_body al src buffer fin opcode msk ml hl = Fault Out_Of_Bounds" for fin opcode
    by (simp add: frame_body_def o'_def buffer_set_data_def buffer_clear_def Let_def)
  then show ?thesis
    using src get frame_header_contents [OF src(1,2)] h by (simp add: get_frame_def msk_def)
qed

text \<open>C32: in the default configuration the first bytes of a connection make the server read outside the
  block of \<open>frame_buffer\<close>: the header of any frame that announces more than the initial 128 bytes,
  sent alone, is enough, because \<open>get_frame\<close> copies the payload before it checks that it is there.\<close>

theorem header_alone_reads_out_of_bounds:
  assumes al: "generous al"
    and conf: "cf_max_frame_size conf = 0" "cf_max_message_size conf = 0"
    and bs: "2 \<le> length bs" "length bs \<le> 128" "bs ! 0 AND 0x70 = 0"
    and h: "parse_header bs = Some (ml, hl)"
    and off: "128 < (if bs ! 1 AND 0x80 \<noteq> 0 then hl + 4 else hl) + ml"
  shows "\<exists>w. wsmsg_create al conf = Ok (Some w) \<and> wsmsg_add al w bs (length bs) = Fault Out_Of_Bounds"
proof -
  obtain w where w: "wsmsg_create al conf = Ok (Some w)" "wsmsg_inv 0 0 128 w" "absw w = amsg_init"
    using wsmsg_create_ok [OF al, of conf 0 0] conf by (auto simp: INT_MAX_def init_cap_def)
  have cap: "b_capacity (w_frame_buffer w) = 128"
    using w(1) conf by (auto simp: wsmsg_create_def size_of_int_def buffer_create_def Let_def
        INIT_BUFFER_SIZE_def split: if_splits)
  note i = w(2) [unfolded wsmsg_inv_def wsmsg_ok_def]
  have empty: "contents (w_frame_buffer w) = []" "\<not> w_message w" "\<not> w_frame w" "\<not> w_error w"
    using w(3) by (auto simp: absw_def amsg_init_def split: if_splits)
  then have len0: "b_length (w_frame_buffer w) = 0"
    using i length_contents [of "w_frame_buffer w"] by simp
  have fb: "buf_ok (w_frame_buffer w)" "b_max_length (w_frame_buffer w) = 0" using i by auto
  obtain fb' where put: "buffer_put (w_frame_buffer w) bs (length bs) = Ok (True, fb')"
    and fb': "buf_ok fb'" "contents fb' = bs" "b_capacity fb' = 128"
    using buffer_put_ok [OF fb(1), of "length bs" bs] bs cap len0 empty by auto
  have "bs \<noteq> []" using bs(1) by auto
  then have "buffer_append al (w_frame_buffer w) bs (length bs) = Ok (True, fb')"
    using bs put fb(2) cap len0 by (simp add: buffer_append_def size_add_def SIZE_MOD_def)
  moreover have "get_frame al fb' (w_frame_data w) = Fault Out_Of_Bounds"
  proof (rule get_frame_overread)
    show "(if contents fb' ! 1 AND 0x80 \<noteq> 0 then hl + 4 else hl) \<le> b_capacity fb'"
      using parse_header_bounds(3) [OF h bs(1)] fb' by auto
  qed (use bs h off fb' i al length_contents [OF fb'(1)] in auto)
  ultimately have "wsmsg_add al w bs (length bs) = Fault Out_Of_Bounds"
    using empty by (simp add: wsmsg_add_def wsmsg_process_def wsmsg_process_loop.simps wsmsg_step_def)
  then show ?thesis using w(1) by auto
qed

theorem header_alone_reads_out_of_bounds_witness:
  "\<exists>w. wsmsg_create zero_alloc empty_conf = Ok (Some w)
     \<and> wsmsg_add zero_alloc w [0x81, 0x7e, 0xff, 0xff] 4 = Fault Out_Of_Bounds"
proof -
  have h: "parse_header [0x81, 0x7e, 0xff, 0xff] = Some (65535, 4)"
    by (simp add: parse_header_def be_val_def)
  have "length ([0x81, 0x7e, 0xff, 0xff] :: byte list) = 4" by simp
  moreover have "\<exists>w. wsmsg_create zero_alloc empty_conf = Ok (Some w)
     \<and> wsmsg_add zero_alloc w [0x81, 0x7e, 0xff, 0xff] (length ([0x81, 0x7e, 0xff, 0xff] :: byte list))
         = Fault Out_Of_Bounds"
    by (rule header_alone_reads_out_of_bounds [OF generous_zero_alloc empty_conf_unlimited _ _ _ h]) simp_all
  ultimately show ?thesis by (simp only:)
qed

section \<open>One frame, and one message per read\<close>

lemma frame_extent_ws_frame:
  assumes "opcode < 16" and "length payload < 2 ^ 32" and "\<And>k. key = Some k \<Longrightarrow> length k = 4"
  shows "frame_extent lim (ws_frame fin opcode key payload @ rest) \<le> length (ws_frame fin opcode key payload)"
proof -
  let ?bs = "ws_frame fin opcode key payload @ rest"
  have "parse_frame 0 ?bs = Complete fin opcode (key \<noteq> None) (cut 0 payload) rest"
    using assms by (rule parse_frame_ws_frame)
  then have "frame_extent 0 ?bs + length rest \<le> length ?bs"
    using frame_extent_part [of ?bs "[]"] by (simp add: length_ws_frame)
  moreover have "frame_extent lim ?bs \<le> frame_extent 0 ?bs"
    by (auto simp: frame_extent_def split: option.splits)
  ultimately show ?thesis by simp
qed

text \<open>C23: \<open>get_frame\<close> undoes the wire format: from a buffer that starts with a frame of RFC 6455 it
  returns FIN, the opcode, the MASK flag and the unmasked payload, for all three forms of the
  length field, and leaves exactly the bytes behind the frame; a payload longer than the limit of
  the target buffer is cut off there without an error.\<close>

theorem get_frame_roundtrip:
  assumes "generous al" and "buf_ok src" and "buf_ok buffer"
    and "contents src = ws_frame fin opcode key payload @ rest"
    and "opcode < 16" and "length payload < 2 ^ 32" and "\<And>k. key = Some k \<Longrightarrow> length k = 4"
  shows "\<exists>src' buffer'. get_frame al src buffer = Ok (FS_READY fin opcode (key \<noteq> None), src', buffer')
     \<and> contents src' = rest \<and> contents buffer' = cut (b_max_length buffer) payload
     \<and> buf_ok src' \<and> buf_ok buffer'"
proof -
  have pf: "parse_frame (b_max_length buffer) (contents src)
      = Complete fin opcode (key \<noteq> None) (cut (b_max_length buffer) payload) rest"
    unfolding assms(4) using assms(5-7) by (rule parse_frame_ws_frame)
  have "frame_extent (b_max_length buffer) (ws_frame fin opcode key payload @ rest)
      \<le> length (ws_frame fin opcode key payload)"
    using assms(5-7) by (rule frame_extent_ws_frame)
  then have "frame_extent (b_max_length buffer) (contents src) \<le> length (contents src)"
    by (simp add: assms(4))
  then have "frame_extent (b_max_length buffer) (contents src) \<le> b_capacity src"
    using buf_okD(2) [OF assms(2)] assms(2) by simp
  with get_frame_refines [OF assms(2,3,1)] show ?thesis
    unfolding pf by auto
qed

definition sample_src :: buffer_t where
  "sample_src = \<lparr>b_data = [0x81, 0x83, 1, 2, 3, 4, 8, 8, 8, 9, 0], b_length = 10, b_capacity = 11,
     b_max_length = 0\<rparr>"

theorem get_frame_roundtrip_witness:
  "\<exists>src' buffer'. get_frame zero_alloc sample_src fresh_dst = Ok (FS_READY True 1 True, src', buffer')
     \<and> contents src' = [9] \<and> contents buffer' = [9, 10, 11] \<and> buf_ok src' \<and> buf_ok buffer'"
proof -
  have s: "contents sample_src = ws_frame True 1 (Some [1, 2, 3, 4]) [9, 10, 11] @ [9]"
    by (simp add: contents_def sample_src_def ws_frame_def length_bytes_def mask_bytes_def upt_rec)
  have ok: "buf_ok sample_src" "buf_ok fresh_dst"
    using buffer_create_ok(1) [OF fresh_dst_created]
    by (simp_all add: buf_ok_def sample_src_def PTRDIFF_MAX_def)
  show ?thesis
    using get_frame_roundtrip [OF generous_zero_alloc ok s] by (simp add: fresh_dst_def cut_def)
qed

fun one_per_read :: "(nat \<times> byte list option \<times> byte list) list \<Rightarrow> wsop list" where
  "one_per_read [] = []"
| "one_per_read ((opcode, k, p) # ms) = Add (ws_frame True opcode k p) # Get_message # one_per_read ms"

fun one_per_read_outs :: "(nat \<times> byte list option \<times> byte list) list \<Rightarrow> wsout list" where
  "one_per_read_outs [] = []"
| "one_per_read_outs ((opcode, k, p) # ms) = Added True # Message (Some (opcode, p)) # one_per_read_outs ms"

definition whole_message :: "nat \<times> byte list option \<times> byte list \<Rightarrow> bool" where
  "whole_message = (\<lambda>(opcode, k, p). data_opcode opcode \<and> opcode \<noteq> OPCODE_CONTINUATION \<and> good_piece (k, p))"

text \<open>Between two messages only the opcode of the last one is remembered.\<close>

lemma ado_whole_message:
  assumes "whole_message (opcode, k, p)" and "a = amsg_init\<lparr>a_opcode := oc\<rparr>"
  shows "ado_op 0 0 (Add (ws_frame True opcode k p)) a
       = (Added True, a\<lparr>a_msg := p, a_started := True, a_opcode := opcode, a_message := True\<rparr>)"
    and "ado_op 0 0 Get_message (a\<lparr>a_msg := p, a_started := True, a_opcode := opcode, a_message := True\<rparr>)
       = (Message (Some (opcode, p)), amsg_init\<lparr>a_opcode := opcode\<rparr>)"
proof -
  have "aloop 0 0 (a\<lparr>a_in := ws_frame True opcode k p\<rparr>)
      = a\<lparr>a_msg := p, a_started := True, a_opcode := opcode, a_message := True\<rparr>"
    using aloop_piece [of k p opcode a True "[]"] assms
    by (auto simp: whole_message_def amsg_init_def aloop_stop)
  then show "ado_op 0 0 (Add (ws_frame True opcode k p)) a
       = (Added True, a\<lparr>a_msg := p, a_started := True, a_opcode := opcode, a_message := True\<rparr>)"
    using assms(2) by (auto simp: aadd_unlimited aprocess_def amsg_init_def)
  show "ado_op 0 0 Get_message (a\<lparr>a_msg := p, a_started := True, a_opcode := opcode, a_message := True\<rparr>)
       = (Message (Some (opcode, p)), amsg_init\<lparr>a_opcode := opcode\<rparr>)"
    using assms(2) by (auto simp: aget_message_def aprocess_def amsg_init_def aloop_stop)
qed

lemma safe_whole_message:
  assumes "whole_message (opcode, k, p)"
  shows "safe_run 0 0 128 [Add (ws_frame True opcode k p)] (amsg_init\<lparr>a_opcode := oc\<rparr>)"
proof -
  let ?s = "ws_frame True opcode k p"
  have gp: "good_piece (k, p)" "opcode < 16"
    using assms by (auto simp: whole_message_def data_opcode_def)
  then have "reads_ok 0 (length ?s) ?s"
    using reads_ok_piece [of k p opcode True "[]"] by (simp add: reads_ok_Nil)
  then have "reads_ok 0 (max 128 (length ?s)) ?s" by (rule reads_ok_mono) simp
  moreover have "length ?s + 1024 \<le> PTRDIFF_MAX"
    using gp by (auto simp: length_ws_frame length_bytes_def PTRDIFF_MAX_def split: option.splits)
  ultimately show ?thesis
    by (simp add: cut_def held_def amsg_init_def)
qed

lemma one_per_read_run:
  assumes "\<forall>m \<in> set ms. whole_message m"
  shows "fst (arun 0 0 (one_per_read ms) (amsg_init\<lparr>a_opcode := oc\<rparr>)) = one_per_read_outs ms
     \<and> safe_run 0 0 128 (one_per_read ms) (amsg_init\<lparr>a_opcode := oc\<rparr>)"
  using assms
proof (induction ms arbitrary: oc rule: one_per_read.induct)
  case 1
  then show ?case by simp
next
  case (2 opcode k p ms)
  have m: "whole_message (opcode, k, p)" using 2(2) by simp
  note st = ado_whole_message [OF m refl, of oc]
  have run: "fst (arun 0 0 (one_per_read ms) (amsg_init\<lparr>a_opcode := opcode\<rparr>)) = one_per_read_outs ms"
    and safe: "safe_run 0 0 128 (one_per_read ms) (amsg_init\<lparr>a_opcode := opcode\<rparr>)"
    using 2 by auto
  have "arun 0 0 (one_per_read ((opcode, k, p) # ms)) (amsg_init\<lparr>a_opcode := oc\<rparr>)
      = (Added True # Message (Some (opcode, p)) # one_per_read_outs ms,
         snd (arun 0 0 (one_per_read ms) (amsg_init\<lparr>a_opcode := opcode\<rparr>)))"
    using st run by (auto simp del: ado_op.simps split: prod.splits)
  moreover have "safe_run 0 0 128 (one_per_read ((opcode, k, p) # ms)) (amsg_init\<lparr>a_opcode := oc\<rparr>)"
    using st safe safe_whole_message [OF m, of oc] by (auto simp del: ado_op.simps)
  ultimately show ?case by simp
qed

text \<open>Messages that arrive one per read and are picked up before the next read are all delivered,
  in order, with their opcodes and payloads, for any number of messages of any size below 4 GiB.\<close>

theorem messages_one_per_read:
  assumes "generous al" and "cf_max_frame_size conf = 0" and "cf_max_message_size conf = 0"
    and "buffer_create al 0 = Some dst" and "\<forall>m \<in> set ms. whole_message m"
  shows "\<exists>w w' dst'. wsmsg_create al conf = Ok (Some w)
     \<and> run_ops al (one_per_read ms) (w, dst) = Ok (one_per_read_outs ms, w', dst')"
proof -
  obtain w where w: "wsmsg_create al conf = Ok (Some w)" "wsmsg_inv 0 0 128 w" "absw w = amsg_init"
    "buf_ok dst" "b_max_length dst = 0"
    using create_unlimited [OF assms(1-4)] by blast
  have "amsg_init\<lparr>a_opcode := 0\<rparr> = amsg_init" by (simp add: amsg_init_def)
  then have "fst (arun 0 0 (one_per_read ms) (absw w)) = one_per_read_outs ms"
    "safe_run 0 0 128 (one_per_read ms) (absw w)"
    using one_per_read_run [OF assms(5), of 0] w(3) by auto
  then show ?thesis
    using run_ops_refines [OF w(2) assms(1) w(4,5)] w(1) by fastforce
qed

theorem messages_one_per_read_witness:
  "\<exists>w w' dst'. wsmsg_create zero_alloc empty_conf = Ok (Some w)
     \<and> run_ops zero_alloc (one_per_read [(1, None, [7]), (2, Some [1, 2, 3, 4], [8, 9])]) (w, fresh_dst)
         = Ok ([Added True, Message (Some (1, [7])), Added True, Message (Some (2, [8, 9]))], w', dst')"
  using messages_one_per_read [OF generous_zero_alloc empty_conf_unlimited fresh_dst_created,
      of "[(1, None, [7]), (2, Some [1, 2, 3, 4], [8, 9])]"]
  by (simp add: whole_message_def data_opcode_def opcode_defs del: one_per_read.simps)

end
