(* ===== verification/Util_Runs.thy ===== *)
theory Util_Runs
  imports Util_Str WsStream
begin

text \<open>
  Sequences of operations on the strings and on the buffers of \<open>util.c\<close>: a string is a text cut to the size of
  its array, a buffer is a queue of bytes cut to its maximum.
\<close>

section \<open>Strings\<close>

datatype str_op = Clear | Set_string string "string list" | Set_vstring string "string list" | Setn string nat | Copy str_t
  | Trim_beginning string | Trim string | Append_char char | Tolower

fun str_step :: "str_op \<Rightarrow> str_t \<Rightarrow> str_t cres" where
  "str_step Clear str = str_clear str"
| "str_step (Set_string fmt args) str = str_set_string str fmt args"
| "str_step (Set_vstring fmt args) str = str_set_vstring str fmt args"
| "str_step (Setn s n) str = str_setn_string str s n"
| "str_step (Copy src) str = str_copy_string str src"
| "str_step (Trim_beginning s) str = str_trim_beginning str s"
| "str_step (Trim s) str = str_trim_whitespace str s"
| "str_step (Append_char c) str = str_append_char str c"
| "str_step Tolower str = str_tolower str"

fun str_run :: "str_op list \<Rightarrow> str_t \<Rightarrow> str_t cres" where
  "str_run [] str = Ok str"
| "str_run (p # ps) str = bindr (str_step p str) (str_run ps)"

text \<open>The operations on plain texts of at most \<open>n\<close> characters. \<open>printed\<close> is what a format and its arguments print.\<close>

definition printed :: "string \<Rightarrow> string list \<Rightarrow> string" where
  "printed fmt args = (case vformat fmt args of Ok out \<Rightarrow> out | Fault x \<Rightarrow> [])"

fun text_step :: "nat \<Rightarrow> str_op \<Rightarrow> string \<Rightarrow> string" where
  "text_step n Clear t = []"
| "text_step n (Set_string fmt args) t = take n (printed fmt args)"
| "text_step n (Set_vstring fmt args) t = take n (printed fmt args)"
| "text_step n (Setn s k) t = take (min k n) s"
| "text_step n (Copy src) t = take n (str_val src)"
| "text_step n (Trim_beginning s) t = take n (dropWhile isspace s)"
| "text_step n (Trim s) t = take n (strip s)"
| "text_step n (Append_char c) t = take n (t @ [c])"
| "text_step n Tolower t = map tolower t"

text \<open>When an operation is defined: texts have no null character inside, a format goes with its arguments, and
  what \<open>str_copy_string\<close> and \<open>str_trim_beginning\<close> are given has no percent sign, because they use it as a
  format.\<close>

definition format_ok :: "string \<Rightarrow> string list \<Rightarrow> bool" where
  "format_ok fmt args \<longleftrightarrow> vformat fmt args = Ok (printed fmt args) \<and> nul_free (printed fmt args)"

fun op_ok :: "str_op \<Rightarrow> bool" where
  "op_ok (Set_string fmt args) \<longleftrightarrow> format_ok fmt args"
| "op_ok (Set_vstring fmt args) \<longleftrightarrow> format_ok fmt args"
| "op_ok (Copy src) \<longleftrightarrow> str_ok src \<and> CHR ''%'' \<notin> set (str_val src)"
| "op_ok (Trim_beginning s) \<longleftrightarrow> nul_free s \<and> CHR ''%'' \<notin> set s"
| "op_ok (Setn s n) \<longleftrightarrow> nul_free s"
| "op_ok (Append_char c) \<longleftrightarrow> c \<noteq> NUL"
| "op_ok (Trim s) \<longleftrightarrow> nul_free s \<and> length s < SIZE_MOD"
| "op_ok _ \<longleftrightarrow> True"

lemma nul_free_strip: "nul_free s \<Longrightarrow> nul_free (strip s)"
  by (rule strip_decomp [of s]) (metis nul_free_simps(3))

lemma nul_free_val: "str_ok str \<Longrightarrow> nul_free (str_val str)"
  by (auto simp: str_ok_def dest: cstr_nul_free)

lemma str_set_printed:
  assumes "str_ok str" and "format_ok fmt args"
  shows "str_set_string str fmt args = Ok (str_store str (take (s_capacity str - 1) (printed fmt args)))"
  using assms by (intro str_set_string_formatted) (auto simp: format_ok_def)

lemma str_trim_beginning_plain:
  assumes "str_ok str" and "nul_free s" and "CHR ''%'' \<notin> set s"
  shows "str_trim_beginning str s = Ok (str_store str (take (s_capacity str - 1) (dropWhile isspace s)))"
proof -
  have "CHR ''%'' \<notin> set (dropWhile isspace s)" "nul_free (dropWhile isspace s)"
    using assms(2,3) by (auto simp: nul_free_def dest: set_dropWhileD)
  then show ?thesis using str_set_string_plain [OF assms(1)] by (simp add: str_trim_beginning_eq)
qed

lemma str_step_ok:
  assumes "str_ok str" and "op_ok p"
  shows "\<exists>str'. str_step p str = Ok str' \<and> str_ok str' \<and> s_capacity str' = s_capacity str
     \<and> str_val str' = text_step (s_capacity str - 1) p (str_val str)"
proof -
  have cap: "0 < s_capacity str" using str_ok_capacity [OF assms(1)] by simp
  have len: "s_length str = length (str_val str)" "length (str_val str) < s_capacity str"
    using assms(1) by (auto elim: str_okE)
  have c: "s_capacity (str_store str t) = s_capacity str" for t by (simp add: str_store_def)
  note store = str_store_ok [OF assms(1)] c
  have cut: "\<exists>str'. Ok (str_store str (take (s_capacity str - 1) t)) = Ok str' \<and> str_ok str' \<and> s_capacity str' = s_capacity str
     \<and> str_val str' = take (s_capacity str - 1) t" if "nul_free t" for t
    using store [of "take (s_capacity str - 1) t"] that cap by (simp add: min_less_iff_disj)
  show ?thesis
  proof (cases p)
    case (Set_string fmt args)
    then show ?thesis using str_set_printed [OF assms(1)] cut assms(2) by (simp add: format_ok_def)
  next
    case (Set_vstring fmt args)
    then show ?thesis
      using str_set_printed [OF assms(1), of fmt args] cut assms(2) by (simp add: format_ok_def str_set_string_def)
  next
    case (Copy src)
    then show ?thesis using str_copy_string_eq [OF assms(1)] cut nul_free_val assms(2) by simp
  next
    case (Trim_beginning s)
    then show ?thesis
      using str_trim_beginning_plain [OF assms(1)] cut [of "dropWhile isspace s"] assms(2)
      by (auto simp: nul_free_def dest: set_dropWhileD)
  next
    case (Append_char ch)
    have "take (s_capacity str - 1) (str_val str @ [ch]) = (if Suc (s_length str) = s_capacity str then str_val str else str_val str @ [ch])"
      using len by auto
    then show ?thesis
      using Append_char str_append_char_eq [OF assms(1)] store [of "str_val str @ [ch]"] nul_free_val [OF assms(1)] assms len by auto
  next
    case (Setn s k)
    then show ?thesis
      using str_setn_string_eq [OF assms(1), of s k] store [of "take (min k (s_capacity str - 1)) s"] assms(2) cap
      by (simp add: min_less_iff_disj)
  next
    case (Trim s)
    then show ?thesis
      using str_trim_whitespace_eq [OF assms(1), of s] cut nul_free_strip assms(2) by simp
  qed (use str_clear_eq [OF assms(1)] str_tolower_eq [OF assms(1)] store nul_free_val [OF assms(1)] cap len in auto)
qed

text \<open>C29: a string keeps its invariant, a terminated text shorter than its array, under every sequence of its
  operations that are defined: nothing is written outside the array, and the text is what the operations make
  of plain texts cut to the capacity. An operation is defined when its format goes with its arguments; a text that
  is copied or trimmed at its beginning is such a format without arguments, so it may have no percent sign.\<close>

theorem string_operations_bounded:
  assumes "length buf = n" and "0 < n" and "n < SIZE_MOD" and "\<forall>p \<in> set ps. op_ok p"
  shows "\<exists>str str'. str_init buf n = Ok str \<and> str_run ps str = Ok str'
     \<and> length (s_buffer str') = n \<and> str_get_length str' < n \<and> cstr (str_get_string str') = Ok (str_val str')
     \<and> str_val str' = fold (text_step (n - 1)) ps []"
proof -
  obtain str where s: "str_init buf n = Ok str" "str_ok str" "str_val str = []" "s_capacity str = n"
    using str_init_spec [OF assms(1-3)] by blast
  have "\<exists>str'. str_run ps str = Ok str' \<and> str_ok str' \<and> s_capacity str' = n \<and> str_val str' = fold (text_step (n - 1)) ps (str_val str)"
    using s(2,4) assms(4)
  proof (induction ps arbitrary: str)
    case (Cons p ps)
    then show ?case using str_step_ok [of str p] by fastforce
  qed simp
  then obtain str' where s': "str_run ps str = Ok str'" "str_ok str'" "s_capacity str' = n"
    "str_val str' = fold (text_step (n - 1)) ps []"
    using s(3) by auto
  have "str_get_length str' < n" using s'(2,3) by (auto simp: str_get_length_def elim: str_okE)
  moreover have "length (s_buffer str') = n" "cstr (str_get_string str') = Ok (str_val str')"
    using s'(2,3) by (simp_all add: str_get_string_def str_ok_def)
  ultimately show ?thesis using s s' by auto
qed

definition sample_str_ops :: "str_op list" where
  "sample_str_ops = [Set_vstring ''a%sb'' [''LONG''], Trim ''  AB  '', Append_char CHR ''C'', Tolower, Copy (str_of 9 ''other''),
     Set_string ''%s:%s'' [''x'', ''y''], Setn ''text'' 2, Clear, Trim_beginning ''  a b'', Append_char CHR ''c'',
     Append_char CHR ''d'', Append_char CHR ''e'']"

theorem string_operations_bounded_witness:
  "\<exists>str str'. str_init (replicate 6 CHR ''x'') 6 = Ok str \<and> str_run sample_str_ops str = Ok str'
     \<and> length (s_buffer str') = 6 \<and> str_get_length str' < 6 \<and> cstr (str_get_string str') = Ok (str_val str')
     \<and> str_val str' = ''a bcd''"
proof -
  have f: "format_ok ''a%sb'' [''LONG'']" "format_ok ''%s:%s'' [''x'', ''y'']" by code_simp+
  have c: "str_ok (str_of 9 ''other'')" by (rule str_of_ok) (simp_all add: SIZE_MOD_def)
  have v: "CHR ''%'' \<notin> set (str_val (str_of 9 ''other''))" by (simp add: str_of_def str_val_def)
  have "\<forall>p \<in> set sample_str_ops. op_ok p" using f c v by (simp add: sample_str_ops_def SIZE_MOD_def)
  moreover have "fold (text_step (6 - 1)) sample_str_ops [] = ''a bcd''" by code_simp
  ultimately show ?thesis
    using string_operations_bounded [of "replicate 6 CHR ''x''" 6 sample_str_ops] by (auto simp: SIZE_MOD_def)
qed

section \<open>Buffers\<close>

datatype buffer_op = Append "byte list" | Remove nat | Set_data "byte list" | Clear_all

text \<open>A step on a buffer and its result; \<open>Remove\<close> is only called with bytes that are there.\<close>

fun buffer_step :: "allocator \<Rightarrow> buffer_op \<Rightarrow> buffer_t \<Rightarrow> (bool \<times> buffer_t) cres" where
  "buffer_step al (Append xs) b = buffer_append al b xs (length xs)"
| "buffer_step al (Remove n) b = bindr (buffer_remove_data b n) (\<lambda>b'. Ok (True, b'))"
| "buffer_step al (Set_data xs) b = buffer_set_data al b xs (length xs)"
| "buffer_step al Clear_all b = Ok (True, buffer_clear b)"

text \<open>Runs on two buffers, between which \<open>buffer_move\<close> moves the bytes of one to the other.\<close>

datatype pair_op = First buffer_op | Second buffer_op | Move | Move_back

fun pair_step :: "allocator \<Rightarrow> pair_op \<Rightarrow> buffer_t \<times> buffer_t \<Rightarrow> (bool \<times> buffer_t \<times> buffer_t) cres" where
  "pair_step al (First p) (a, b) = bindr (buffer_step al p a) (\<lambda>(res, a'). Ok (res, a', b))"
| "pair_step al (Second p) (a, b) = bindr (buffer_step al p b) (\<lambda>(res, b'). Ok (res, a, b'))"
| "pair_step al Move (a, b) = buffer_move al a b"
| "pair_step al Move_back (a, b) = bindr (buffer_move al b a) (\<lambda>(res, b', a'). Ok (res, a', b'))"

fun pair_run :: "allocator \<Rightarrow> pair_op list \<Rightarrow> buffer_t \<times> buffer_t \<Rightarrow> (bool list \<times> buffer_t \<times> buffer_t) cres" where
  "pair_run al [] ab = Ok ([], ab)"
| "pair_run al (p # ps) ab =
     bindr (pair_step al p ab) (\<lambda>(res, ab1). bindr (pair_run al ps ab1) (\<lambda>(rs, ab2). Ok (res # rs, ab2)))"

fun queue_step :: "nat \<Rightarrow> buffer_op \<Rightarrow> byte list \<Rightarrow> bool \<times> byte list" where
  "queue_step lim (Append xs) q = (xs = [] \<or> lim = 0 \<or> length q < lim, cut lim (q @ xs))"
| "queue_step lim (Remove n) q = (True, drop n q)"
| "queue_step lim (Set_data xs) q = (True, cut lim xs)"
| "queue_step lim Clear_all q = (True, [])"

fun queues_step :: "nat \<Rightarrow> nat \<Rightarrow> pair_op \<Rightarrow> byte list \<times> byte list \<Rightarrow> bool \<times> byte list \<times> byte list" where
  "queues_step l1 l2 (First p) (q, r) = (let (res, q') = queue_step l1 p q in (res, q', r))"
| "queues_step l1 l2 (Second p) (q, r) = (let (res, r') = queue_step l2 p r in (res, q, r'))"
| "queues_step l1 l2 Move (q, r) = (True, [], cut l2 q)"
| "queues_step l1 l2 Move_back (q, r) = (True, cut l1 r, [])"

fun queues_run :: "nat \<Rightarrow> nat \<Rightarrow> pair_op list \<Rightarrow> byte list \<times> byte list \<Rightarrow> bool list \<times> byte list \<times> byte list" where
  "queues_run l1 l2 [] qr = ([], qr)"
| "queues_run l1 l2 (p # ps) qr =
     (let (res, qr1) = queues_step l1 l2 p qr; (rs, qr2) = queues_run l1 l2 ps qr1 in (res # rs, qr2))"

text \<open>Removals that find their bytes, and sizes that stay inside \<open>size_t\<close>.\<close>

fun step_fits :: "buffer_op \<Rightarrow> byte list \<Rightarrow> bool" where
  "step_fits (Append xs) q \<longleftrightarrow> length q + length xs + 1024 \<le> PTRDIFF_MAX"
| "step_fits (Remove n) q \<longleftrightarrow> n \<le> length q"
| "step_fits (Set_data xs) q \<longleftrightarrow> length xs + 1024 \<le> PTRDIFF_MAX"
| "step_fits Clear_all q \<longleftrightarrow> True"

fun pair_fits :: "pair_op \<Rightarrow> byte list \<times> byte list \<Rightarrow> bool" where
  "pair_fits (First p) (q, r) \<longleftrightarrow> step_fits p q"
| "pair_fits (Second p) (q, r) \<longleftrightarrow> step_fits p r"
| "pair_fits Move (q, r) \<longleftrightarrow> length q + 1024 \<le> PTRDIFF_MAX"
| "pair_fits Move_back (q, r) \<longleftrightarrow> length r + 1024 \<le> PTRDIFF_MAX"

fun run_fits :: "nat \<Rightarrow> nat \<Rightarrow> pair_op list \<Rightarrow> byte list \<times> byte list \<Rightarrow> bool" where
  "run_fits l1 l2 [] qr \<longleftrightarrow> True"
| "run_fits l1 l2 (p # ps) qr \<longleftrightarrow> pair_fits p qr \<and> run_fits l1 l2 ps (snd (queues_step l1 l2 p qr))"

lemma take_min_length: "take (min (length xs) n) xs = take n xs"
  by (simp add: min_def)

lemma buffer_step_ok:
  assumes ok: "buf_ok b" and al: "generous al" and fits: "step_fits p (contents b)"
  shows "\<exists>b'. buffer_step al p b = Ok (fst (queue_step (b_max_length b) p (contents b)), b') \<and> buf_ok b'
     \<and> b_max_length b' = b_max_length b \<and> contents b' = snd (queue_step (b_max_length b) p (contents b))"
proof (cases p)
  case (Append xs)
  let ?lim = "b_max_length b" and ?n = "length xs"
  note d = buf_okD [OF ok] length_contents [OF ok]
  have le: "?lim \<noteq> 0 \<Longrightarrow> b_length b \<le> ?lim" using ok by (auto simp: buf_ok_def)
  have "buf_room b ?n \<le> ?n" by (simp add: buf_room_def)
  then obtain b' where b': "buffer_append al b xs ?n = Ok (?n = 0 \<or> 0 < buf_room b ?n, b')"
    "appended b xs ?n (?n = 0 \<or> 0 < buf_room b ?n) b'"
    using buffer_append_generous [OF ok al, of ?n xs] fits Append d by auto
  have r: "(?n = 0 \<or> 0 < buf_room b ?n) = (xs = [] \<or> ?lim = 0 \<or> length (contents b) < ?lim)"
    using d by (auto simp: buf_room_def)
  have c: "contents b @ take (buf_room b ?n) xs = cut ?lim (contents b @ xs)"
    using le d by (auto simp: cut_def buf_room_def take_min_length)
  have "contents b' = cut ?lim (contents b @ xs)"
  proof (cases "?n = 0 \<or> 0 < buf_room b ?n")
    case False
    then have "buf_room b ?n = 0" "b' = b" using b'(2) by (auto simp: appended_def)
    then show ?thesis using c by simp
  qed (use b'(2) c in \<open>simp add: appended_def\<close>)
  then show ?thesis using Append b' r by (auto simp: appended_def)
next
  case (Remove n)
  then show ?thesis using buffer_remove_data_ok [OF ok, of n] fits length_contents [OF ok] by auto
next
  case (Set_data xs)
  then show ?thesis
    using buffer_set_data_generous [OF ok al, of "length xs" xs] fits by (auto simp: cut_def take_min_length)
qed (use ok in auto)

text \<open>Two buffers that stand for two queues.\<close>

fun stand_for :: "nat \<Rightarrow> nat \<Rightarrow> buffer_t \<times> buffer_t \<Rightarrow> byte list \<times> byte list \<Rightarrow> bool" where
  "stand_for l1 l2 (a, b) (q, r) \<longleftrightarrow> buf_ok a \<and> buf_ok b \<and> b_max_length a = l1 \<and> b_max_length b = l2
     \<and> contents a = q \<and> contents b = r"

lemma buffer_move_queue:
  assumes "buf_ok a" and "buf_ok b" and "generous al" and "length (contents a) + 1024 \<le> PTRDIFF_MAX"
  shows "\<exists>b'. buffer_move al a b = Ok (True, buffer_clear a, b') \<and> buf_ok b' \<and> b_max_length b' = b_max_length b
     \<and> contents b' = cut (b_max_length b) (contents a)"
  using buffer_move_generous [OF assms(1-3)] assms(4) length_contents [OF assms(1)] by (simp add: cut_def)

lemma pair_step_ok:
  assumes "stand_for l1 l2 ab qr" and al: "generous al" and "pair_fits p qr"
  shows "\<exists>ab'. pair_step al p ab = Ok (fst (queues_step l1 l2 p qr), ab') \<and> stand_for l1 l2 ab' (snd (queues_step l1 l2 p qr))"
proof -
  obtain a b q r where ab: "ab = (a, b)" "qr = (q, r)" by (cases ab, cases qr)
  have ok: "buf_ok a" "buf_ok b" "b_max_length a = l1" "b_max_length b = l2" "contents a = q" "contents b = r"
    using assms(1) ab by auto
  show ?thesis
  proof (cases p)
    case (First p)
    then show ?thesis using buffer_step_ok [OF ok(1) al, of p] ok ab assms(3) by (auto split: prod.splits)
  next
    case (Second p)
    then show ?thesis using buffer_step_ok [OF ok(2) al, of p] ok ab assms(3) by (auto split: prod.splits)
  next
    case Move
    then show ?thesis using buffer_move_queue [OF ok(1,2) al] ok ab assms(3) by auto
  next
    case Move_back
    then show ?thesis using buffer_move_queue [OF ok(2,1) al] ok ab assms(3) by auto
  qed
qed

lemma pair_run_ok:
  assumes "stand_for l1 l2 ab qr" and "generous al" and "run_fits l1 l2 ps qr"
  shows "\<exists>ab'. pair_run al ps ab = Ok (fst (queues_run l1 l2 ps qr), ab') \<and> stand_for l1 l2 ab' (snd (queues_run l1 l2 ps qr))"
  using assms(1,3)
proof (induction ps arbitrary: ab qr)
  case (Cons p ps)
  obtain ab1 where ab1: "pair_step al p ab = Ok (fst (queues_step l1 l2 p qr), ab1)" "stand_for l1 l2 ab1 (snd (queues_step l1 l2 p qr))"
    using pair_step_ok [OF Cons.prems(1) assms(2), of p] Cons.prems(2) by (meson run_fits.simps(2))
  then show ?case using Cons.IH [OF ab1(2)] Cons.prems(2) by (auto simp: Let_def split: prod.splits)
qed simp

lemma stand_for_bounds:
  assumes "stand_for l1 l2 (a, b) (q, r)"
  shows "contents a = q" "buffer_get_length a = length q" "length q \<le> length (b_data a)" "0 < l1 \<longrightarrow> length q \<le> l1"
    and "contents b = r" "buffer_get_length b = length r" "length r \<le> length (b_data b)" "0 < l2 \<longrightarrow> length r \<le> l2"
  using assms length_contents [of a] length_contents [of b] by (auto simp: buf_ok_def buffer_get_length_def)

text \<open>C28: buffers are queues of bytes: under every sequence of appends, removals of bytes that are there,
  replacements and clears on two buffers, and of moves from one to the other, with memory granted and sizes inside
  \<open>ptrdiff_t\<close>, each holds what a plain list would, cut to the maximum of the buffer, an append fails exactly when the
  buffer is full, and the length never passes the maximum or the block.\<close>

theorem buffer_is_bounded_queue:
  assumes "generous al" and "l1 < SIZE_MOD" and "l2 < SIZE_MOD" and "run_fits l1 l2 ps ([], [])"
    and "queues_run l1 l2 ps ([], []) = (results, q, r)"
  shows "\<exists>a b a' b'. buffer_create al l1 = Some a \<and> buffer_create al l2 = Some b
     \<and> pair_run al ps (a, b) = Ok (results, a', b') \<and> contents a' = q \<and> contents b' = r
     \<and> buffer_get_length a' = length q \<and> length q \<le> length (b_data a') \<and> (0 < l1 \<longrightarrow> length q \<le> l1)
     \<and> buffer_get_length b' = length r \<and> length r \<le> length (b_data b') \<and> (0 < l2 \<longrightarrow> length r \<le> l2)"
proof -
  obtain a where a: "buffer_create al l1 = Some a" "buf_ok a" "contents a = []" "b_max_length a = l1"
    using buffer_create_generous [OF assms(1,2)] by auto
  obtain b where b: "buffer_create al l2 = Some b" "buf_ok b" "contents b = []" "b_max_length b = l2"
    using buffer_create_generous [OF assms(1,3)] by auto
  have "stand_for l1 l2 (a, b) ([], [])" using a b by simp
  then obtain a' b' where "pair_run al ps (a, b) = Ok (results, a', b')" and ab: "stand_for l1 l2 (a', b') (q, r)"
    using pair_run_ok [OF _ assms(1,4), of "(a, b)"] assms(5) by auto
  then show ?thesis using a(1) b(1) stand_for_bounds [OF ab] by auto
qed

theorem buffer_is_bounded_queue_witness:
  "\<exists>a b a' b'. buffer_create zero_alloc 3 = Some a \<and> buffer_create zero_alloc 0 = Some b
     \<and> pair_run zero_alloc [First (Append [1, 2]), First (Append [3, 4]), First (Append [5]), First (Remove 1), Move,
         Second (Append [6, 7, 8]), Move_back] (a, b) = Ok ([True, True, False, True, True, True, True], a', b')
     \<and> contents a' = [2, 3, 6] \<and> contents b' = []"
proof -
  let ?ps = "[First (Append [1, 2]), First (Append [3, 4]), First (Append [5]), First (Remove 1), Move,
    Second (Append [6, 7, 8]), Move_back]"
  have q: "queues_run 3 0 ?ps ([], []) = ([True, True, False, True, True, True, True], [2, 3, 6], [])" by code_simp
  have "run_fits 3 0 ?ps ([], [])" by (simp add: cut_def PTRDIFF_MAX_def)
  from buffer_is_bounded_queue [OF generous_zero_alloc _ _ this q] show ?thesis by (auto simp: SIZE_MOD_def)
qed

end
