(* ===== verification/Base64.thy ===== *)
theory Base64
  imports Util_Str
begin

unbundle bit_operations_syntax

text \<open>
  \<open>base64.c\<close>: the encoder that writes the \<open>Sec-WebSocket-Accept\<close> key into a \<open>str_t\<close>, and the
  decoder with its lazily built table. \<open>b64\<close> is the encoding of RFC 4648, the reference.
\<close>

section \<open>Encoding\<close>

definition encoding_table :: string where
  "encoding_table = ''ABCDEFGHIJKLMNOPQRSTUVWXYZabcdefghijklmnopqrstuvwxyz0123456789+/''"

definition mod_table :: "nat list" where
  "mod_table = [0, 2, 1]"

text \<open>\<open>i < input_length ? data[i++] : 0\<close>; \<open>i\<close> is an \<open>int\<close>.\<close>

definition next_octet :: "byte list \<Rightarrow> nat \<Rightarrow> nat \<Rightarrow> (32 word \<times> nat) cres" where
  "next_octet data n i =
     (if i < n then
        bindr (mem_get data i) (\<lambda>d. if int i = INT_MAX then Fault Signed_Overflow else Ok (ucast d, Suc i))
      else Ok (0, i))"

definition octet_triple :: "32 word \<Rightarrow> 32 word \<Rightarrow> 32 word \<Rightarrow> 32 word" where
  "octet_triple a b c = push_bit 16 a + push_bit 8 b + c"

text \<open>\<open>str_append_char(out_str, encoding_table[(triple >> k * 6) & 0x3F])\<close>.\<close>

definition put_sextet :: "32 word \<Rightarrow> nat \<Rightarrow> str_t \<Rightarrow> str_t cres" where
  "put_sextet triple k out_str =
     bindr (mem_get encoding_table (unat (drop_bit (k * 6) triple AND 0x3F))) (str_append_char out_str)"

function base64_encode_loop :: "byte list \<Rightarrow> nat \<Rightarrow> nat \<Rightarrow> str_t \<Rightarrow> str_t cres" where
  "base64_encode_loop data n i out_str =
     (if i < n then
        bindr (next_octet data n i) (\<lambda>(octet_a, i1).
        bindr (next_octet data n i1) (\<lambda>(octet_b, i2).
        bindr (next_octet data n i2) (\<lambda>(octet_c, i3).
        let triple = octet_triple octet_a octet_b octet_c in
        bindr (put_sextet triple 3 out_str) (\<lambda>o1.
        bindr (put_sextet triple 2 o1) (\<lambda>o2.
        bindr (put_sextet triple 1 o2) (\<lambda>o3.
        bindr (put_sextet triple 0 o3) (\<lambda>o4.
        base64_encode_loop data n i3 o4)))))))
      else Ok out_str)"
  by pat_completeness auto

lemma next_octet_mono: "next_octet data n i = Ok (x, i') \<Longrightarrow> i \<le> i' \<and> (i < n \<longrightarrow> i < i')"
  by (auto simp: next_octet_def cres_simps split: if_splits)

termination base64_encode_loop
proof (relation "measure (\<lambda>(data, n, i, out_str). n - i)", simp, goal_cases)
  case (1 data n i out_str x octet_a i1 xa octet_b i2 xb octet_c i3 triple o1 o2 o3 o4)
  then have "i < i1" "i1 \<le> i2" "i2 \<le> i3"
    using next_octet_mono [of data n i octet_a i1] next_octet_mono [of data n i1 octet_b i2]
      next_octet_mono [of data n i2 octet_c i3] by auto
  then show ?case using 1(1) by simp
qed

declare base64_encode_loop.simps [simp del]

definition base64_encode :: "byte list \<Rightarrow> nat \<Rightarrow> str_t \<Rightarrow> str_t cres" where
  "base64_encode data n out_str =
     bindr (str_set_string out_str [] []) (\<lambda>o1.
     bindr (mem_get mod_table (n mod 3)) (\<lambda>j.
     bindr (base64_encode_loop data n 0 o1) (\<lambda>o2.
     let output_length = str_get_length o2 in
     bindr (if 0 < j then mem_set (s_buffer o2) (size_sub output_length 1) CHR ''='' else Ok (s_buffer o2)) (\<lambda>m1.
     bindr (if 1 < j then mem_set m1 (size_sub output_length 2) CHR ''='' else Ok m1) (\<lambda>m2.
     Ok (o2\<lparr>s_buffer := m2\<rparr>))))))"

section \<open>Decoding\<close>

text \<open>The static \<open>decoding_table\<close>; \<open>base64_cleanup\<close> frees it and leaves the pointer as it is.\<close>

datatype decoding_table = No_Table | Table "byte list" | Freed_Table

fun fill_decoding_table :: "byte list \<Rightarrow> string \<Rightarrow> nat \<Rightarrow> byte list cres" where
  "fill_decoding_table m [] i = Ok m"
| "fill_decoding_table m (c # cs) i =
     bindr (mem_set m (of_char c) (of_nat i)) (\<lambda>m'. fill_decoding_table m' cs (Suc i))"

definition build_decoding_table :: "allocator \<Rightarrow> decoding_table cres" where
  "build_decoding_table al =
     (if granted al 256
      then bindr (fill_decoding_table (malloc_block al 256) encoding_table 0) (\<lambda>m. Ok (Table m))
      else Fault Null_Pointer)"

definition base64_cleanup :: "decoding_table \<Rightarrow> decoding_table cres" where
  "base64_cleanup tab =
     (case tab of No_Table \<Rightarrow> Ok No_Table | Table m \<Rightarrow> Ok Freed_Table | Freed_Table \<Rightarrow> Fault Use_After_Free)"

text \<open>
  One sextet: \<open>char\<close> is signed, so a byte above 127 indexes before the table, and the entry of the
  table is sign-extended to \<open>uint32_t\<close>.
\<close>

definition next_sextet :: "byte list \<Rightarrow> string \<Rightarrow> nat \<Rightarrow> 32 word cres" where
  "next_sextet tab data i =
     bindr (mem_get data i) (\<lambda>c.
     if c = CHR ''='' then Ok 0
     else if 128 \<le> (of_char c :: nat) then Fault Out_Of_Bounds
     else bindr (mem_get tab (of_char c)) (\<lambda>v. Ok (scast v)))"

definition put_byte :: "nat \<Rightarrow> 32 word \<Rightarrow> byte list \<times> nat \<Rightarrow> (byte list \<times> nat) cres" where
  "put_byte output_length v = (\<lambda>(dd, j).
     if j < output_length then bindr (mem_set dd j (ucast (v AND 0xFF))) (\<lambda>dd'. Ok (dd', Suc j)) else Ok (dd, j))"

function base64_decode_loop ::
  "byte list \<Rightarrow> string \<Rightarrow> nat \<Rightarrow> nat \<Rightarrow> nat \<Rightarrow> byte list \<times> nat \<Rightarrow> byte list cres" where
  "base64_decode_loop tab data n output_length i st =
     (if i < n then
        bindr (next_sextet tab data i) (\<lambda>a.
        bindr (next_sextet tab data (i + 1)) (\<lambda>b.
        bindr (next_sextet tab data (i + 2)) (\<lambda>c.
        bindr (next_sextet tab data (i + 3)) (\<lambda>d.
        let triple = push_bit 18 a + push_bit 12 b + push_bit 6 c + d in
        bindr (put_byte output_length (drop_bit 16 triple) st) (\<lambda>s1.
        bindr (put_byte output_length (drop_bit 8 triple) s1) (\<lambda>s2.
        bindr (put_byte output_length triple s2) (\<lambda>s3.
        if INT_MAX < int (i + 4) then Fault Signed_Overflow
        else base64_decode_loop tab data n output_length (i + 4) s3)))))))
      else Ok (fst st))"
  by pat_completeness auto
termination
  by (relation "measure (\<lambda>(tab, data, n, output_length, i, st). n - i)") auto

declare base64_decode_loop.simps [simp del]

text \<open>Returns the decoded block, \<open>None\<close> for NULL, and the table; \<open>*output_length\<close> is the block's length.\<close>

definition base64_decode ::
  "allocator \<Rightarrow> decoding_table \<Rightarrow> string \<Rightarrow> nat \<Rightarrow> (byte list option \<times> decoding_table) cres" where
  "base64_decode al tab data n =
     bindr (case tab of No_Table \<Rightarrow> build_decoding_table al | _ \<Rightarrow> Ok tab) (\<lambda>tab'.
     if n mod 4 \<noteq> 0 then Ok (None, tab')
     else
       bindr (mem_get data (size_sub n 1)) (\<lambda>l1.
       bindr (mem_get data (size_sub n 2)) (\<lambda>l2.
       let len0 = n div 4 * 3;
           len1 = (if l1 = CHR ''='' then size_sub len0 1 else len0);
           output_length = (if l2 = CHR ''='' then size_sub len1 1 else len1)
       in if \<not> granted al output_length then Ok (None, tab')
          else case tab' of
            Table m \<Rightarrow>
              bindr (base64_decode_loop m data n output_length 0 (malloc_block al output_length, 0)) (\<lambda>dd.
              Ok (Some dd, tab'))
          | _ \<Rightarrow> Fault Use_After_Free)))"

section \<open>The reference\<close>

text \<open>The alphabet of table 1 of RFC 4648, by its ranges of characters and not by the table of the code: the
  capital letters, the small letters, the digits, plus and slash.\<close>

definition enc :: "nat \<Rightarrow> char" where
  "enc k = char_of (if k < 26 then of_char CHR ''A'' + k
                    else if k < 52 then of_char CHR ''a'' + (k - 26)
                    else if k < 62 then of_char CHR ''0'' + (k - 52)
                    else if k = 62 then of_char CHR ''+'' else of_char CHR ''/'' :: nat)"

fun b64 :: "byte list \<Rightarrow> string" where
  "b64 [] = []"
| "b64 [a] = [enc (unat a div 4), enc (unat a mod 4 * 16), CHR ''='', CHR ''='']"
| "b64 [a, b] = [enc (unat a div 4), enc (unat a mod 4 * 16 + unat b div 16), enc (unat b mod 16 * 4), CHR ''='']"
| "b64 (a # b # c # xs) =
     [enc (unat a div 4), enc (unat a mod 4 * 16 + unat b div 16), enc (unat b mod 16 * 4 + unat c div 64),
      enc (unat c mod 64)] @ b64 xs"

section \<open>Words and digits\<close>

lemma unat_and_low: "unat (x AND 0x3F :: 32 word) = unat x mod 64" "unat (x AND 0xFF :: 32 word) = unat x mod 256"
proof -
  have m: "(0x3F :: 32 word) = mask 6" "(0xFF :: 32 word) = mask 8"
    by (simp_all add: mask_eq_exp_minus_1)
  show "unat (x AND 0x3F :: 32 word) = unat x mod 64"
    unfolding m(1) take_bit_eq_mask [symmetric] unsigned_take_bit_eq by (simp add: take_bit_eq_mod)
  show "unat (x AND 0xFF :: 32 word) = unat x mod 256"
    unfolding m(2) take_bit_eq_mask [symmetric] unsigned_take_bit_eq by (simp add: take_bit_eq_mod)
qed

lemma unat_drop_bit_div: "unat (drop_bit k x :: 32 word) = unat x div 2 ^ k"
  unfolding unsigned_drop_bit_eq
  by (simp add: drop_bit_eq_div take_bit_nat_eq_self unsigned_less [where ?'a = nat, of x, simplified])

lemma unat_push_bit_small:
  "unat (x :: 32 word) * 2 ^ k < 2 ^ 32 \<Longrightarrow> unat (push_bit k x) = unat x * 2 ^ k"
  unfolding unsigned_push_bit_eq by (simp add: push_bit_eq_mult take_bit_eq_mod)

lemma unat_plus_small:
  "unat (x :: 32 word) + unat y < 2 ^ 32 \<Longrightarrow> unat (x + y) = unat x + unat y"
  by (simp add: unat_word_ariths)

lemma unat_ucast_byte: "unat (ucast (x :: byte) :: 32 word) = unat x"
  by (simp add: unsigned_ucast_eq take_bit_nat_eq_self less_trans [OF byte_bound])

lemma unat_of_nat_small: "n < 2 ^ 32 \<Longrightarrow> unat (of_nat n :: 32 word) = n"
  by (simp add: unat_of_nat)

lemma unat_octet_triple:
  "unat (octet_triple (ucast (a :: byte)) (ucast (b :: byte)) (ucast (c :: byte)))
     = unat a * 65536 + unat b * 256 + unat c"
proof -
  note b = byte_bound [of a] byte_bound [of b] byte_bound [of c]
  have a: "unat (push_bit 16 (ucast a :: 32 word)) = unat a * 65536"
    using unat_push_bit_small [of "ucast a" 16] b by (simp add: unat_ucast_byte)
  have b': "unat (push_bit 8 (ucast b :: 32 word)) = unat b * 256"
    using unat_push_bit_small [of "ucast b" 8] b by (simp add: unat_ucast_byte)
  have "unat (push_bit 16 (ucast a :: 32 word) + push_bit 8 (ucast b)) = unat a * 65536 + unat b * 256"
    using b a b' by (subst unat_plus_small) simp_all
  then show ?thesis
    unfolding octet_triple_def using b by (subst unat_plus_small) (simp_all add: unat_ucast_byte)
qed

text \<open>The four digits to the base 64 of three digits to the base 256, and back.\<close>

lemma digits_64:
  assumes "a < 256" and "b < 256" and "c < (256 :: nat)"
  shows "(a * 65536 + b * 256 + c) div 262144 mod 64 = a div 4"
    and "(a * 65536 + b * 256 + c) div 4096 mod 64 = a mod 4 * 16 + b div 16"
    and "(a * 65536 + b * 256 + c) div 64 mod 64 = b mod 16 * 4 + c div 64"
    and "(a * 65536 + b * 256 + c) mod 64 = c mod 64"
proof -
  have ea: "a = a div 4 * 4 + a mod 4" and eb: "b = b div 16 * 16 + b mod 16"
    and ec: "c = c div 64 * 64 + c mod 64" by simp_all
  have bd: "a div 4 < 64" "a mod 4 < 4" "b div 16 < 16" "b mod 16 < 16" "c div 64 < 4" "c mod 64 < 64"
    using assms by simp_all
  define a1 a0 b1 b0 c1 where "a1 = a div 4" and "a0 = a mod 4" and "b1 = b div 16"
    and "b0 = b mod 16" and "c1 = c div 64"
  define p q r s where "p = a div 4" and "q = a mod 4 * 16 + b div 16"
    and "r = b mod 16 * 4 + c div 64" and "s = c mod 64"
  note parts = a1_def [symmetric] a0_def [symmetric] b1_def [symmetric] b0_def [symmetric]
    c1_def [symmetric]
  have d: "p < 64" "q < 64" "r < 64" "s < 64"
    using bd by (simp_all add: p_def q_def r_def s_def)
  have t: "a * 65536 + b * 256 + c = ((p * 64 + q) * 64 + r) * 64 + s"
    unfolding p_def q_def r_def parts
    by (simp add: ea [unfolded parts] eb [unfolded parts] ec [unfolded parts s_def [symmetric]])
  have e1: "(a * 65536 + b * 256 + c) div 64 = (p * 64 + q) * 64 + r"
    using d by (simp add: t)
  have e2: "(a * 65536 + b * 256 + c) div 4096 = p * 64 + q"
  proof -
    have "(a * 65536 + b * 256 + c) div 4096 = (a * 65536 + b * 256 + c) div 64 div 64"
      by (simp add: div_mult2_eq [of _ 64 64, simplified])
    then show ?thesis using d by (simp add: e1)
  qed
  have e3: "(a * 65536 + b * 256 + c) div 262144 = p"
  proof -
    have "(a * 65536 + b * 256 + c) div 262144 = (a * 65536 + b * 256 + c) div 4096 div 64"
      by (simp add: div_mult2_eq [of _ 4096 64, simplified])
    then show ?thesis using d by (simp add: e2)
  qed
  show "(a * 65536 + b * 256 + c) div 262144 mod 64 = a div 4"
    using d by (simp add: e3 p_def [symmetric])
  show "(a * 65536 + b * 256 + c) div 4096 mod 64 = a mod 4 * 16 + b div 16"
    using d by (simp add: e2 q_def [symmetric])
  show "(a * 65536 + b * 256 + c) div 64 mod 64 = b mod 16 * 4 + c div 64"
    unfolding e1 mod_mult_self3 r_def [symmetric] using d by simp
  show "(a * 65536 + b * 256 + c) mod 64 = c mod 64"
    unfolding t mod_mult_self3 s_def [symmetric] using d by simp
qed

section \<open>The encoder\<close>

text \<open>What the loop writes: whole groups of four, zero octets where the input ends.\<close>

definition quad :: "byte \<Rightarrow> byte \<Rightarrow> byte \<Rightarrow> string" where
  "quad a b c = [enc (unat a div 4), enc (unat a mod 4 * 16 + unat b div 16),
     enc (unat b mod 16 * 4 + unat c div 64), enc (unat c mod 64)]"

fun raw64 :: "byte list \<Rightarrow> string" where
  "raw64 [] = []"
| "raw64 [a] = quad a 0 0"
| "raw64 [a, b] = quad a b 0"
| "raw64 (a # b # c # xs) = quad a b c @ raw64 xs"

lemma length_encoding_table [simp]: "length encoding_table = 64"
  by (simp add: encoding_table_def)

lemma encoding_table_rfc: "map enc [0..<64] = encoding_table"
  by code_simp

lemma encoding_table_nth: "k < 64 \<Longrightarrow> encoding_table ! k = enc k"
  by (simp flip: encoding_table_rfc)

lemma encoding_table_plain: "c \<in> set encoding_table \<Longrightarrow> c \<noteq> NUL \<and> c \<noteq> CHR ''='' \<and> c \<noteq> CHR ''%''"
  by (auto simp: encoding_table_def)

lemma enc_plain: "k < 64 \<Longrightarrow> enc k \<noteq> NUL \<and> enc k \<noteq> CHR ''='' \<and> enc k \<noteq> CHR ''%''"
  by (rule encoding_table_plain) (simp flip: encoding_table_nth)

lemma quad_digits:
  "unat (a :: byte) div 4 < 64" "unat a mod 4 * 16 + unat (b :: byte) div 16 < 64"
  "unat b mod 16 * 4 + unat (c :: byte) div 64 < 64" "unat c mod 64 < 64"
proof -
  have "unat a div 4 < 64" "unat a mod 4 < 4" "unat b div 16 < 16" "unat b mod 16 < 16" "unat c div 64 < 4"
    using byte_bound [of a] byte_bound [of b] byte_bound [of c] by simp_all
  then show "unat a div 4 < 64" "unat a mod 4 * 16 + unat b div 16 < 64"
    "unat b mod 16 * 4 + unat c div 64 < 64" "unat c mod 64 < 64"
    by simp_all
qed

lemma put_sextet_eq:
  assumes "str_ok out_str" and "Suc (s_length out_str) < s_capacity out_str"
    and "unat triple div 2 ^ (k * 6) mod 64 = v"
  shows "\<exists>out'. put_sextet triple k out_str = Ok out' \<and> str_ok out' \<and> s_capacity out' = s_capacity out_str
     \<and> str_val out' = str_val out_str @ [enc v]"
proof -
  have v: "v < 64" using assms(3) by auto
  have "mem_get encoding_table (unat (drop_bit (k * 6) triple AND 0x3F)) = Ok (enc v)"
    using v by (simp add: unat_and_low unat_drop_bit_div assms(3) mem_get_def encoding_table_nth)
  then have "put_sextet triple k out_str = str_append_char out_str (enc v)"
    by (simp add: put_sextet_def)
  also have "\<dots> = Ok (str_store out_str (str_val out_str @ [enc v]))"
    using str_append_char_eq [OF assms(1)] enc_plain [OF v] assms(2) by simp
  finally show ?thesis
    using str_store_ok [OF assms(1), of "str_val out_str @ [enc v]"] assms(1,2) enc_plain [OF v]
    by (auto elim!: str_okE)
qed

lemma put_quad_eq:
  assumes "str_ok out_str" and "s_length out_str + 4 < s_capacity out_str"
  shows "\<exists>out'. bindr (put_sextet (octet_triple (ucast a) (ucast b) (ucast c)) 3 out_str) (\<lambda>o1.
      bindr (put_sextet (octet_triple (ucast a) (ucast b) (ucast c)) 2 o1) (\<lambda>o2.
      bindr (put_sextet (octet_triple (ucast a) (ucast b) (ucast c)) 1 o2)
        (put_sextet (octet_triple (ucast a) (ucast b) (ucast c)) 0))) = Ok out'
     \<and> str_ok out' \<and> s_capacity out' = s_capacity out_str \<and> str_val out' = str_val out_str @ quad a b c"
proof -
  let ?t = "octet_triple (ucast a) (ucast b) (ucast c)"
  note d = digits_64 [OF byte_bound [of a] byte_bound [of b] byte_bound [of c]]
  have len: "length (str_val o') = s_length o'" if "str_ok o'" for o'
    using that by (auto elim: str_okE)
  obtain o1 where 1: "put_sextet ?t 3 out_str = Ok o1" "str_ok o1" "s_capacity o1 = s_capacity out_str"
    "str_val o1 = str_val out_str @ [enc (unat a div 4)]"
    using put_sextet_eq [OF assms(1), of ?t 3] assms(2) d(1) by (auto simp: unat_octet_triple)
  obtain o2 where 2: "put_sextet ?t 2 o1 = Ok o2" "str_ok o2" "s_capacity o2 = s_capacity out_str"
    "str_val o2 = str_val o1 @ [enc (unat a mod 4 * 16 + unat b div 16)]"
    using put_sextet_eq [OF 1(2), of ?t 2] assms d(2) 1 len [OF 1(2)] len [OF assms(1)]
    by (auto simp: unat_octet_triple)
  obtain o3 where 3: "put_sextet ?t 1 o2 = Ok o3" "str_ok o3" "s_capacity o3 = s_capacity out_str"
    "str_val o3 = str_val o2 @ [enc (unat b mod 16 * 4 + unat c div 64)]"
    using put_sextet_eq [OF 2(2), of ?t 1] assms d(3) 1 2 len [OF 2(2)] len [OF assms(1)]
    by (auto simp: unat_octet_triple)
  obtain o4 where "put_sextet ?t 0 o3 = Ok o4" "str_ok o4" "s_capacity o4 = s_capacity out_str"
    "str_val o4 = str_val o3 @ [enc (unat c mod 64)]"
    using put_sextet_eq [OF 3(2), of ?t 0] assms d(4) 1 2 3 len [OF 3(2)] len [OF assms(1)]
    by (auto simp: unat_octet_triple)
  then show ?thesis
    using 1 2 3 by (auto simp: quad_def)
qed

lemma length_raw64: "length (raw64 xs) = 4 * ((length xs + 2) div 3)"
proof (induction xs rule: raw64.induct)
  case (4 a b c xs)
  have "(length (a # b # c # xs) + 2) div 3 = Suc ((length xs + 2) div 3)"
  proof -
    have "length (a # b # c # xs) + 2 = length xs + 2 + 3" by simp
    then show ?thesis by simp
  qed
  then show ?case using 4 by (simp add: quad_def)
qed (simp_all add: quad_def)

lemma next_octet_at:
  assumes "data = pre @ x # xs" and "int (length data) \<le> INT_MAX"
  shows "next_octet data (length data) (length pre) = Ok (ucast x, Suc (length pre))"
  using assms by (simp add: next_octet_def mem_get_def)

lemma next_octet_end: "next_octet data n n = Ok (0, n)"
  by (simp add: next_octet_def)

lemma base64_encode_loop_end: "base64_encode_loop data n n out_str = Ok out_str"
  by (simp add: base64_encode_loop.simps)

lemma base64_encode_loop_round:
  assumes "i < n" and "next_octet data n i = Ok (ucast a, i1)" and "next_octet data n i1 = Ok (ucast b, i2)"
    and "next_octet data n i2 = Ok (ucast c, i3)"
    and "str_ok out_str" and "s_length out_str + 4 < s_capacity out_str"
  shows "\<exists>out'. base64_encode_loop data n i out_str = base64_encode_loop data n i3 out'
     \<and> str_ok out' \<and> s_capacity out' = s_capacity out_str \<and> str_val out' = str_val out_str @ quad a b c"
  using put_quad_eq [OF assms(5,6), of a b c] assms(1-4)
  by (subst base64_encode_loop.simps) (auto simp: Let_def cres_simps)

lemma base64_encode_loop_eq:
  assumes "data = pre @ xs" and "int (length data) \<le> INT_MAX" and "str_ok out_str"
    and "s_length out_str + length (raw64 xs) < s_capacity out_str"
  shows "\<exists>out'. base64_encode_loop data (length data) (length pre) out_str = Ok out' \<and> str_ok out'
     \<and> s_capacity out' = s_capacity out_str \<and> str_val out' = str_val out_str @ raw64 xs"
  using assms
proof (induction xs arbitrary: pre out_str rule: raw64.induct)
  case 1
  then show ?case by (simp add: base64_encode_loop_end)
next
  case (2 a)
  have "next_octet data (length data) (length pre) = Ok (ucast a, length data)"
    using next_octet_at [of data pre a "[]"] 2 by simp
  then show ?case
    using base64_encode_loop_round [of "length pre" "length data" data a "length data" 0 "length data" 0
        "length data" out_str] 2 next_octet_end [of data "length data"]
    by (auto simp: base64_encode_loop_end quad_def)
next
  case (3 a b)
  have "next_octet data (length data) (length pre) = Ok (ucast a, Suc (length pre))"
    "next_octet data (length data) (Suc (length pre)) = Ok (ucast b, length data)"
    using next_octet_at [of data pre a "[b]"] next_octet_at [of data "pre @ [a]" b "[]"] 3 by simp_all
  then show ?case
    using base64_encode_loop_round [of "length pre" "length data" data a "Suc (length pre)" b "length data" 0
        "length data" out_str] 3 next_octet_end [of data "length data"]
    by (auto simp: base64_encode_loop_end quad_def)
next
  case (4 a b c xs)
  let ?pre = "pre @ [a, b, c]"
  have o: "next_octet data (length data) (length pre) = Ok (ucast a, Suc (length pre))"
    "next_octet data (length data) (Suc (length pre)) = Ok (ucast b, Suc (Suc (length pre)))"
    "next_octet data (length data) (Suc (Suc (length pre))) = Ok (ucast c, length ?pre)"
    using next_octet_at [of data pre a "b # c # xs"] next_octet_at [of data "pre @ [a]" b "c # xs"]
      next_octet_at [of data "pre @ [a, b]" c xs] 4(2,3) by simp_all
  have "length pre < length data" using 4(2) by simp
  then obtain o1 where 1: "base64_encode_loop data (length data) (length pre) out_str
        = base64_encode_loop data (length data) (length ?pre) o1"
    "str_ok o1" "s_capacity o1 = s_capacity out_str" "str_val o1 = str_val out_str @ quad a b c"
    using base64_encode_loop_round [OF _ o 4(4)] 4(5) by (auto simp: quad_def)
  have "length (str_val o1) = s_length o1" "length (str_val out_str) = s_length out_str"
    using 1(2) 4(4) by (auto elim: str_okE)
  then have "s_length o1 + length (raw64 xs) < s_capacity o1"
    using 1(3,4) 4(5) by (simp add: quad_def)
  with 4(1) [of ?pre o1] 4(2,3) 1 show ?case by auto
qed

text \<open>Overwriting one character of a text.\<close>

lemma str_overwrite:
  assumes "str_ok str" and "i < length (str_val str)" and "c \<noteq> NUL"
  shows "mem_set (s_buffer str) i c = Ok ((s_buffer str)[i := c])"
    and "str_ok (str\<lparr>s_buffer := (s_buffer str)[i := c]\<rparr>)"
    and "str_val (str\<lparr>s_buffer := (s_buffer str)[i := c]\<rparr>) = (str_val str)[i := c]"
proof -
  obtain rest where r: "s_buffer str = str_val str @ NUL # rest"
    "length (s_buffer str) = s_capacity str" "nul_free (str_val str)" "s_length str = length (str_val str)"
    "s_capacity str < SIZE_MOD"
    using assms(1) by (elim str_okE)
  have "i < length (s_buffer str)"
    using arg_cong [OF r(1), of length] assms(2) by simp
  then show "mem_set (s_buffer str) i c = Ok ((s_buffer str)[i := c])"
    by (simp add: mem_set_def)
  let ?s = "str\<lparr>s_buffer := (s_buffer str)[i := c]\<rparr>"
  have "(s_buffer str)[i := c] = (str_val str @ NUL # rest)[i := c]"
    using r(1) by (rule arg_cong)
  also have "\<dots> = (str_val str)[i := c] @ NUL # rest"
    using assms(2) by (simp add: list_update_append)
  finally have "s_buffer ?s = (str_val str)[i := c] @ NUL # rest"
    by simp
  moreover have "nul_free ((str_val str)[i := c])"
    using r(3) assms(3) set_update_subset_insert [of "str_val str" i c] by (auto simp: nul_free_def)
  ultimately show "str_ok ?s" "str_val ?s = (str_val str)[i := c]"
    using str_okI [of ?s "(str_val str)[i := c]" rest] r by auto
qed

text \<open>The padding turns the zero groups into those of the reference.\<close>

lemma update_from_end:
  "0 < k \<Longrightarrow> k \<le> length r \<Longrightarrow> (q @ r)[length (q @ r) - k := x] = q @ r[length r - k := x]"
proof -
  assume k: "0 < k" "k \<le> length r"
  then have "length (q @ r) - k = length q + (length r - k)" by simp
  then show ?thesis by (simp add: list_update_append del: length_append)
qed

definition pad64 :: "nat \<Rightarrow> string \<Rightarrow> string" where
  "pad64 m r = (if m = 0 then r else if m = 2 then r[length r - 1 := CHR ''='']
                else r[length r - 1 := CHR ''='', length r - 2 := CHR ''=''])"

lemma pad64_append: "2 \<le> length r \<Longrightarrow> pad64 m (q @ r) = q @ pad64 m r"
  using update_from_end [of 1 r q] update_from_end [of 2 "r[length r - 1 := CHR ''='']" q]
  by (simp add: pad64_def)

lemma b64_raw64: "b64 xs = pad64 (length xs mod 3) (raw64 xs)"
proof (induction xs rule: raw64.induct)
  case (4 a b c xs)
  have m: "length (a # b # c # xs) mod 3 = length xs mod 3"
  proof -
    have "length (a # b # c # xs) = length xs + 3" by simp
    then show ?thesis by (simp only: mod_add_self2)
  qed
  have q: "b64 (a # b # c # xs) = quad a b c @ b64 xs" by (simp add: quad_def)
  show ?case
  proof (cases xs)
    case Nil
    then show ?thesis by (simp add: quad_def pad64_def)
  next
    case (Cons y ys)
    then have "2 \<le> length (raw64 xs)" by (simp add: length_raw64)
    then show ?thesis
      unfolding q m 4 by (simp add: pad64_append)
  qed
qed (simp_all add: quad_def pad64_def)

lemma str_val_store_empty:
  assumes "str_ok str"
  shows "str_ok (str_store str [])" "str_val (str_store str []) = []"
    "s_capacity (str_store str []) = s_capacity str" "s_length (str_store str []) = 0"
  using str_store_ok [OF assms, of "[]"] str_ok_capacity [OF assms] by (auto simp: str_store_def)

text \<open>The padding: one or two digits at the end of the text are overwritten in place.\<close>

lemma str_pad:
  assumes ok: "str_ok s" and l: "l = length (str_val s)" "2 \<le> l"
  defines "s1 \<equiv> s\<lparr>s_buffer := (s_buffer s)[l - 1 := CHR ''='']\<rparr>"
  defines "s2 \<equiv> s1\<lparr>s_buffer := (s_buffer s1)[l - 2 := CHR ''='']\<rparr>"
  shows "mem_set (s_buffer s) (l - 1) CHR ''='' = Ok (s_buffer s1)" and "str_ok s1" and "str_val s1 = (str_val s)[l - 1 := CHR ''='']"
    and "mem_set (s_buffer s1) (l - 2) CHR ''='' = Ok (s_buffer s2)" and "str_ok s2"
    and "str_val s2 = (str_val s)[l - 1 := CHR ''='', l - 2 := CHR ''='']"
proof -
  have a: "mem_set (s_buffer s) (l - 1) CHR ''='' = Ok (s_buffer s1)" "str_ok s1" "str_val s1 = (str_val s)[l - 1 := CHR ''='']"
    using str_overwrite [OF ok, of "l - 1" "CHR ''=''"] l by (auto simp: s1_def)
  have "mem_set (s_buffer s1) (l - 2) CHR ''='' = Ok (s_buffer s2)" "str_ok s2"
    "str_val s2 = (str_val s)[l - 1 := CHR ''='', l - 2 := CHR ''='']"
    using str_overwrite [OF a(2), of "l - 2" "CHR ''=''"] l a(3) by (auto simp: s2_def)
  with a show "mem_set (s_buffer s) (l - 1) CHR ''='' = Ok (s_buffer s1)" "str_ok s1" "str_val s1 = (str_val s)[l - 1 := CHR ''='']"
    "mem_set (s_buffer s1) (l - 2) CHR ''='' = Ok (s_buffer s2)" "str_ok s2"
    "str_val s2 = (str_val s)[l - 1 := CHR ''='', l - 2 := CHR ''='']" by blast+
qed

lemma base64_encode_text:
  assumes ok: "str_ok out_str" and n: "int (length data) \<le> INT_MAX"
    and fits: "4 * ((length data + 2) div 3) < s_capacity out_str"
  shows "\<exists>out'. base64_encode data (length data) out_str = Ok out' \<and> str_ok out' \<and> str_val out' = b64 data"
proof -
  let ?m = "length data mod 3" and ?l = "length (raw64 data)"
  have m3: "?m = 0 \<or> ?m = 2 \<or> ?m = 1"
    using mod_less_divisor [of 3 "length data"] by linarith
  have mod: "mem_get mod_table ?m = Ok (if ?m = 0 then 0 else 3 - ?m)"
    using m3 by (auto simp: mem_get_def mod_table_def)
  obtain o2 where o2: "base64_encode_loop data (length data) 0 (str_store out_str []) = Ok o2" "str_ok o2"
    "str_val o2 = raw64 data"
    using base64_encode_loop_eq [of data "[]" data "str_store out_str []"] str_val_store_empty [OF ok] n fits by (auto simp: length_raw64)
  have len: "s_length o2 = ?l" and small: "?l < SIZE_MOD"
    using o2 by (auto elim!: str_okE)
  have l2: "2 \<le> ?l" if "?m \<noteq> 0" using that by (cases data) (auto simp: length_raw64)
  have s1: "size_sub ?l (Suc 0) = ?l - 1" "size_sub ?l 2 = ?l - 2" if "2 \<le> ?l"
    using that small by (simp_all add: size_sub_exact)
  note pad = str_pad [OF o2(2), of ?l, unfolded o2(3), OF refl l2]
  note eq = base64_encode_def str_set_string_empty [OF ok] Let_def str_get_length_def len s1
  consider (none) "?m = 0" | (one) "?m = 2" | (two) "?m = 1" using m3 by (elim disjE)
  then show ?thesis
  proof cases
    case none
    then show ?thesis using o2 mod by (simp add: eq b64_raw64 pad64_def)
  next
    case one
    then show ?thesis using o2 mod pad(1-3) l2 by (simp add: eq b64_raw64 pad64_def)
  next
    case two
    then show ?thesis using o2 mod pad l2 by (simp add: eq b64_raw64 pad64_def)
  qed
qed

text \<open>C21: \<open>base64_encode\<close> writes the encoding of RFC 4648, padding included, for every input that fits the
  string it is given, and stays inside that string.\<close>

theorem base64_encode_correct:
  assumes "str_ok out_str" and "int (length data) \<le> INT_MAX"
    and "4 * ((length data + 2) div 3) < s_capacity out_str"
  shows "\<exists>out'. base64_encode data (length data) out_str = Ok out' \<and> str_ok out' \<and> str_val out' = b64 data"
  using assms by (rule base64_encode_text)

theorem base64_encode_correct_witness:
  "\<exists>out'. base64_encode [102, 111, 111, 98] (length [102, 111, 111, 98 :: byte]) (str_of 64 ''old'') = Ok out'
     \<and> str_ok out' \<and> str_val out' = ''Zm9vYg==''"
proof -
  have "b64 [102, 111, 111, 98] = ''Zm9vYg==''"
    by code_simp
  moreover have "str_ok (str_of 64 ''old'')"
    by (rule str_of_ok) (simp_all add: SIZE_MOD_def)
  ultimately show ?thesis
    using base64_encode_correct [of "str_of 64 ''old''" "[102, 111, 111, 98]"]
    by (simp add: INT_MAX_def str_of_def)
qed

section \<open>The decoder\<close>

lemma fill_decoding_table_eq:
  assumes "length m = 256" and "distinct cs"
  shows "\<exists>m'. fill_decoding_table m cs i = Ok m' \<and> length m' = 256
     \<and> (\<forall>k < length cs. m' ! of_char (cs ! k) = of_nat (i + k))
     \<and> (\<forall>c. c \<notin> set cs \<longrightarrow> m' ! of_char c = m ! of_char c)"
  using assms
proof (induction cs arbitrary: m i)
  case Nil
  then show ?case by simp
next
  case (Cons c cs)
  have b: "(of_char x :: nat) < 256" for x
    by (rule nat_of_char_less_256)
  let ?m = "m[of_char c := of_nat i]"
  have "mem_set m (of_char c) (of_nat i) = Ok ?m"
    using b Cons.prems by (simp add: mem_set_def)
  moreover obtain m' where m': "fill_decoding_table ?m cs (Suc i) = Ok m'" "length m' = 256"
    "\<forall>k < length cs. m' ! of_char (cs ! k) = of_nat (Suc i + k)"
    "\<forall>d. d \<notin> set cs \<longrightarrow> m' ! of_char d = ?m ! of_char d"
    using Cons.IH [of ?m "Suc i"] Cons.prems by auto
  moreover have "m' ! of_char ((c # cs) ! k) = of_nat (i + k)" if "k < length (c # cs)" for k
    using that m'(3,4) Cons.prems b by (cases k) auto
  moreover have "m' ! of_char d = m ! of_char d" if "d \<notin> set (c # cs)" for d
  proof -
    have "(of_char c :: nat) \<noteq> of_char d" using that by auto
    then show ?thesis using that m'(4) by simp
  qed
  ultimately show ?case by (intro exI [of _ m']) simp
qed

lemma distinct_encoding_table: "distinct encoding_table"
  by (simp add: encoding_table_def)

text \<open>A table as \<open>build_decoding_table\<close> leaves it.\<close>

definition table_ok :: "byte list \<Rightarrow> bool" where
  "table_ok m \<longleftrightarrow> length m = 256 \<and> (\<forall>k < 64. m ! of_char (enc k) = of_nat k)"

lemma build_decoding_table_ok:
  assumes "granted al 256"
  shows "\<exists>m. build_decoding_table al = Ok (Table m) \<and> table_ok m"
  using fill_decoding_table_eq [of "malloc_block al 256" encoding_table 0] distinct_encoding_table assms
  by (auto simp: build_decoding_table_def table_ok_def encoding_table_nth)

lemma enc_ascii: "k < 64 \<Longrightarrow> (of_char (enc k) :: nat) < 128"
proof -
  have "\<forall>c \<in> set encoding_table. (of_char c :: nat) < 128"
    by (simp add: encoding_table_def)
  then show "k < 64 \<Longrightarrow> (of_char (enc k) :: nat) < 128"
    by (simp flip: encoding_table_nth)
qed

lemma scast_small: "k < 64 \<Longrightarrow> (scast (of_nat k :: byte) :: 32 word) = of_nat k"
proof -
  have "\<forall>k \<in> set [0..<64]. (scast (of_nat k :: byte) :: 32 word) = of_nat k"
    by code_simp
  then show "k < 64 \<Longrightarrow> (scast (of_nat k :: byte) :: 32 word) = of_nat k"
    by simp
qed

lemma next_sextet_enc:
  assumes "table_ok m" and "i < length data" and "data ! i = enc k" and "k < 64"
  shows "next_sextet m data i = Ok (of_nat k)"
  using assms enc_ascii [of k] enc_plain [of k] scast_small [of k]
  by (simp add: next_sextet_def table_ok_def mem_get_def)

lemma next_sextet_pad:
  "i < length data \<Longrightarrow> data ! i = CHR ''='' \<Longrightarrow> next_sextet m data i = Ok 0"
  by (simp add: next_sextet_def mem_get_def)

lemma digits_sum:
  "a div 4 * 262144 + (a mod 4 * 16 + b div 16) * 4096 + (b mod 16 * 4 + c div 64) * 64 + c mod 64
     = a * 65536 + b * 256 + (c :: nat)"
proof -
  have sum: "a1 * 262144 + (a0 * 16 + b1) * 4096 + (b0 * 4 + c1) * 64 + c0
      = (a1 * 4 + a0) * 65536 + (b1 * 16 + b0) * 256 + (c1 * 64 + c0)" for a1 a0 b1 b0 c1 c0 :: nat
    by simp
  show ?thesis unfolding sum by (simp only: div_mult_mod_eq)
qed

text \<open>Three decoded bytes of four sextets.\<close>

lemma decoded_bytes:
  fixes a b c :: byte
  defines "triple \<equiv> push_bit 18 (of_nat (unat a div 4)) + push_bit 12 (of_nat (unat a mod 4 * 16 + unat b div 16))
     + push_bit 6 (of_nat (unat b mod 16 * 4 + unat c div 64)) + (of_nat (unat c mod 64) :: 32 word)"
  shows "ucast (drop_bit 16 triple AND 0xFF) = a" and "ucast (drop_bit 8 triple AND 0xFF) = b"
    and "ucast (triple AND 0xFF) = c"
proof -
  let ?t = "unat a * 65536 + unat b * 256 + unat c"
  note bd = byte_bound [of a] byte_bound [of b] byte_bound [of c]
  have "triple = of_nat (unat a div 4 * 262144 + (unat a mod 4 * 16 + unat b div 16) * 4096
      + (unat b mod 16 * 4 + unat c div 64) * 64 + unat c mod 64)"
  proof -
    have p: "push_bit 18 w = w * 262144" "push_bit 12 w = w * 4096" "push_bit 6 w = w * 64" for w :: "32 word"
      by (simp_all add: push_bit_eq_mult)
    show ?thesis
      unfolding triple_def p by (simp only: of_nat_add of_nat_mult of_nat_numeral)
  qed
  then have triple: "triple = of_nat ?t"
    by (simp only: digits_sum)
  have "?t < 2 ^ 32" using bd by simp
  then have u: "unat triple = ?t"
    unfolding triple by (rule unat_of_nat_small)
  have t: "?t = (unat a * 256 + unat b) * 256 + unat c" by simp
  have d1: "?t div 65536 = unat a" and d2: "?t div 256 = unat a * 256 + unat b"
    using bd by simp_all
  have d3: "?t mod 256 = unat c"
    unfolding t mod_mult_self3 using bd by simp
  have eq: "(ucast (w :: 32 word) :: byte) = x" if "unat w = unat x" for w x
  proof -
    have "unat (ucast w :: byte) = take_bit 8 (unat x)"
      using that by (simp add: unsigned_ucast_eq)
    then have "unat (ucast w :: byte) = unat x"
      using byte_bound [of x] by (simp add: take_bit_nat_eq_self)
    then show ?thesis by (simp only: word_unat_eq_iff)
  qed
  show "ucast (drop_bit 16 triple AND 0xFF) = a" "ucast (drop_bit 8 triple AND 0xFF) = b"
    "ucast (triple AND 0xFF) = c"
    using bd by (auto intro!: eq simp: unat_and_low unat_drop_bit_div u d1 d2 d3)
qed

lemma ucast_low_byte: "ucast (ucast x AND 0xFF :: 32 word) = (x :: byte)"
proof -
  have "unat (ucast x AND 0xFF :: 32 word) = unat x"
    using byte_bound [of x] by (simp add: unat_and_low unat_ucast_byte)
  then have "unat (ucast (ucast x AND 0xFF :: 32 word) :: byte) = take_bit 8 (unat x)"
    by (simp add: unsigned_ucast_eq)
  then have "unat (ucast (ucast x AND 0xFF :: 32 word) :: byte) = unat x"
    using byte_bound [of x] by (simp add: take_bit_nat_eq_self)
  then show ?thesis by (simp only: word_unat_eq_iff)
qed

lemma put_byte_at:
  "length out < n \<Longrightarrow> put_byte n (ucast (x :: byte)) (out @ y # ys, length out) = Ok (out @ x # ys, Suc (length out))"
  unfolding put_byte_def ucast_low_byte by (simp add: mem_set_def)

lemma put_byte_full: "put_byte n v (out, n) = Ok (out, n)"
  by (simp add: put_byte_def)

text \<open>One round of the loop on four sextets that are the digits of three bytes.\<close>

lemma base64_decode_loop_end: "base64_decode_loop m data n out_len n st = Ok (fst st)"
  by (simp add: base64_decode_loop.simps)

lemma base64_decode_loop_round:
  fixes a b c :: byte
  assumes "i < n" and "int n \<le> INT_MAX" and "n mod 4 = 0" and "i mod 4 = 0"
    and "next_sextet m data i = Ok (of_nat (unat a div 4))"
    and "next_sextet m data (i + 1) = Ok (of_nat (unat a mod 4 * 16 + unat b div 16))"
    and "next_sextet m data (i + 2) = Ok (of_nat (unat b mod 16 * 4 + unat c div 64))"
    and "next_sextet m data (i + 3) = Ok (of_nat (unat c mod 64))"
    and "put_byte out_len (ucast a) st = Ok s1" and "put_byte out_len (ucast b) s1 = Ok s2"
    and "put_byte out_len (ucast c) s2 = Ok s3"
  shows "base64_decode_loop m data n out_len i st = base64_decode_loop m data n out_len (i + 4) s3"
proof -
  let ?t = "push_bit 18 (of_nat (unat a div 4)) + push_bit 12 (of_nat (unat a mod 4 * 16 + unat b div 16))
     + push_bit 6 (of_nat (unat b mod 16 * 4 + unat c div 64)) + (of_nat (unat c mod 64) :: 32 word)"
  have put: "put_byte out_len v s = put_byte out_len (ucast x) s" if "ucast (v AND 0xFF) = (x :: byte)" for v x s
    unfolding put_byte_def that ucast_low_byte by (rule refl)
  have p: "put_byte out_len (drop_bit 16 ?t) st = Ok s1" "put_byte out_len (drop_bit 8 ?t) s1 = Ok s2"
    "put_byte out_len ?t s2 = Ok s3"
    using put [OF decoded_bytes(1) [of a b c]] put [OF decoded_bytes(2) [of a b c]]
      put [OF decoded_bytes(3) [of a b c]] assms(9-11) by simp_all
  have "i + 4 \<le> n" using assms(1,3,4) by presburger
  then have "\<not> INT_MAX < int (i + 4)" using assms(2) by linarith
  then show ?thesis
    using assms(1,5-8) p unfolding base64_decode_loop.simps [of m data n out_len i st] by (simp add: Let_def)
qed

lemma length_b64: "length (b64 xs) = 4 * ((length xs + 2) div 3)"
  by (simp add: b64_raw64 pad64_def length_raw64)

lemma length_3E:
  assumes "length ys = Suc (Suc (Suc n))"
  obtains y1 y2 y3 zs where "ys = y1 # y2 # y3 # zs" and "length zs = n"
  using assms by (auto simp: length_Suc_conv)

text \<open>One round of the loop on the encoding of one, two and three bytes.\<close>

lemma decode_one:
  assumes "table_ok m" and data: "data = pre @ b64 [a]" and pre: "length pre mod 4 = 0" and big: "int (length data) \<le> INT_MAX"
  shows "base64_decode_loop m data (length data) (Suc (length out)) (length pre) (out @ [y], length out) = Ok (out @ [a])"
proof -
  note q = quad_digits(1) [of a] quad_digits(2) [of a 0] quad_digits(3) [of 0 0] quad_digits(4) [of 0]
  have n: "length data = length pre + 4" by (simp add: data)
  have s: "next_sextet m data (length pre) = Ok (of_nat (unat a div 4))"
    "next_sextet m data (length pre + 1) = Ok (of_nat (unat a mod 4 * 16 + unat (0 :: byte) div 16))"
    "next_sextet m data (length pre + 2) = Ok (of_nat (unat (0 :: byte) mod 16 * 4 + unat (0 :: byte) div 64))"
    "next_sextet m data (length pre + 3) = Ok (of_nat (unat (0 :: byte) mod 64))"
    using q by (simp_all add: data next_sextet_enc [OF assms(1)] next_sextet_pad nth_append)
  have "base64_decode_loop m data (length data) (Suc (length out)) (length pre) (out @ [y], length out)
      = base64_decode_loop m data (length data) (Suc (length out)) (length pre + 4) (out @ [a], Suc (length out))"
  proof (rule base64_decode_loop_round [OF _ big _ pre s])
    show "put_byte (Suc (length out)) (ucast a) (out @ [y], length out) = Ok (out @ [a], Suc (length out))"
      by (rule put_byte_at) simp
  qed (use n pre put_byte_full in auto)
  then show ?thesis using n by (simp add: base64_decode_loop_end)
qed

lemma decode_two:
  assumes "table_ok m" and data: "data = pre @ b64 [a, b]" and pre: "length pre mod 4 = 0" and big: "int (length data) \<le> INT_MAX"
  shows "base64_decode_loop m data (length data) (length out + 2) (length pre) (out @ [y, z], length out) = Ok (out @ [a, b])"
proof -
  note q = quad_digits(1) [of a] quad_digits(2) [of a b] quad_digits(3) [of b 0] quad_digits(4) [of 0]
  have n: "length data = length pre + 4" by (simp add: data)
  have s: "next_sextet m data (length pre) = Ok (of_nat (unat a div 4))"
    "next_sextet m data (length pre + 1) = Ok (of_nat (unat a mod 4 * 16 + unat b div 16))"
    "next_sextet m data (length pre + 2) = Ok (of_nat (unat b mod 16 * 4 + unat (0 :: byte) div 64))"
    "next_sextet m data (length pre + 3) = Ok (of_nat (unat (0 :: byte) mod 64))"
    using q by (simp_all add: data next_sextet_enc [OF assms(1)] next_sextet_pad nth_append)
  have "base64_decode_loop m data (length data) (length out + 2) (length pre) (out @ [y, z], length out)
      = base64_decode_loop m data (length data) (length out + 2) (length pre + 4) (out @ [a, b], length out + 2)"
  proof (rule base64_decode_loop_round [OF _ big _ pre s])
    show "put_byte (length out + 2) (ucast a) (out @ [y, z], length out) = Ok (out @ [a, z], Suc (length out))"
      by (rule put_byte_at) simp
    show "put_byte (length out + 2) (ucast b) (out @ [a, z], Suc (length out)) = Ok (out @ [a, b], length out + 2)"
      using put_byte_at [of "out @ [a]" "length out + 2" b z "[]"] by simp
  qed (use n pre put_byte_full in auto)
  then show ?thesis using n by (simp add: base64_decode_loop_end)
qed

lemma decode_three:
  assumes "table_ok m" and data: "data = pre @ b64 (a # b # c # xs)" and pre: "length pre mod 4 = 0"
    and big: "int (length data) \<le> INT_MAX" and n: "n = length out + 3 + length xs"
  shows "base64_decode_loop m data (length data) n (length pre) (out @ y1 # y2 # y3 # zs, length out)
    = base64_decode_loop m data (length data) n (length pre + 4) (out @ a # b # c # zs, length out + 3)"
proof -
  note q = quad_digits(1) [of a] quad_digits(2) [of a b] quad_digits(3) [of b c] quad_digits(4) [of c]
  have s: "next_sextet m data (length pre) = Ok (of_nat (unat a div 4))"
    "next_sextet m data (length pre + 1) = Ok (of_nat (unat a mod 4 * 16 + unat b div 16))"
    "next_sextet m data (length pre + 2) = Ok (of_nat (unat b mod 16 * 4 + unat c div 64))"
    "next_sextet m data (length pre + 3) = Ok (of_nat (unat c mod 64))"
    using q by (simp_all add: data next_sextet_enc [OF assms(1)] nth_append)
  have l: "length data = length pre + 4 + 4 * ((length xs + 2) div 3)" by (simp add: data length_b64)
  show ?thesis
  proof (rule base64_decode_loop_round [OF _ big _ pre s])
    show "put_byte n (ucast a) (out @ y1 # y2 # y3 # zs, length out) = Ok (out @ a # y2 # y3 # zs, Suc (length out))"
      by (rule put_byte_at) (simp add: n)
    show "put_byte n (ucast b) (out @ a # y2 # y3 # zs, Suc (length out)) = Ok (out @ a # b # y3 # zs, Suc (Suc (length out)))"
      using put_byte_at [of "out @ [a]" n b y2 "y3 # zs"] by (simp add: n)
    show "put_byte n (ucast c) (out @ a # b # y3 # zs, Suc (Suc (length out))) = Ok (out @ a # b # c # zs, length out + 3)"
      using put_byte_at [of "out @ [a, b]" n c y3 zs] by (simp add: n eval_nat_numeral)
    show "length data mod 4 = 0" using l pre by presburger
  qed (use l in auto)
qed

lemma base64_decode_loop_eq:
  assumes "table_ok m" and "data = pre @ b64 xs" and "length pre mod 4 = 0"
    and "int (length data) \<le> INT_MAX" and "length ys = length xs"
  shows "base64_decode_loop m data (length data) (length out + length xs) (length pre) (out @ ys, length out)
     = Ok (out @ xs)"
  using assms(2-)
proof (induction xs arbitrary: pre out ys rule: b64.induct)
  case 1
  then show ?case by (simp add: base64_decode_loop.simps)
next
  case (2 a)
  then obtain y where "ys = [y]" by (auto simp: length_Suc_conv)
  then show ?case using decode_one [OF assms(1) 2(1-3)] by simp
next
  case (3 a b)
  then obtain y z where "ys = [y, z]" by (auto simp: length_Suc_conv)
  then show ?case using decode_two [OF assms(1) 3(1-3)] by simp
next
  case (4 a b c xs)
  then obtain y1 y2 y3 zs where ys: "ys = y1 # y2 # y3 # zs" and zs: "length zs = length xs"
    by (auto elim: length_3E)
  let ?pre = "pre @ quad a b c"
  have pre: "length ?pre mod 4 = 0" "data = ?pre @ b64 xs" "length ?pre = length pre + 4"
    using 4(2,3) by (simp_all add: quad_def)
  have "base64_decode_loop m data (length data) (length (out @ [a, b, c]) + length xs) (length ?pre)
        ((out @ [a, b, c]) @ zs, length (out @ [a, b, c])) = Ok ((out @ [a, b, c]) @ xs)"
    by (rule 4(1) [OF pre(2,1) 4(4) zs])
  then have "base64_decode_loop m data (length data) (length out + 3 + length xs) (length pre + 4)
        (out @ a # b # c # zs, length out + 3) = Ok (out @ a # b # c # xs)"
    unfolding pre(3) by (simp add: numeral_3_eq_3)
  then show ?case
    using decode_three [OF assms(1) 4(2-4) refl, of out y1 y2 y3 zs] by (simp add: ys numeral_3_eq_3)
qed

text \<open>The padding says how many bytes the last group holds: the characters at the end of an encoding are
  those of the last group.\<close>

lemma b64_from_end:
  assumes "xs \<noteq> []" and "0 < k" "k \<le> 2"
  shows "b64 (a # b # c # xs) ! (length (b64 (a # b # c # xs)) - k) = b64 xs ! (length (b64 xs) - k)"
proof -
  have "2 \<le> length (b64 xs)" using assms(1) by (cases xs) (auto simp: length_b64)
  then have "length (quad a b c @ b64 xs) - k = length (quad a b c) + (length (b64 xs) - k)"
    using assms(2,3) by simp
  then have "(quad a b c @ b64 xs) ! (length (quad a b c @ b64 xs) - k) = b64 xs ! (length (b64 xs) - k)"
    by (simp only: nth_append_length_plus)
  then show ?thesis by (simp add: quad_def)
qed

lemma b64_last_digits:
  "enc (unat (c :: byte) mod 64) \<noteq> CHR ''=''" "enc (unat (b :: byte) mod 16 * 4 + unat c div 64) \<noteq> CHR ''=''" "enc (unat b mod 16 * 4) \<noteq> CHR ''=''"
  using enc_plain quad_digits(3) [of b c] quad_digits(4) [of c] quad_digits(3) [of b 0] by simp_all

lemma b64_last:
  assumes "xs \<noteq> []"
  shows "(b64 xs ! (length (b64 xs) - 1) = CHR ''='') \<longleftrightarrow> length xs mod 3 \<noteq> 0"
  using assms
proof (induction xs rule: b64.induct)
  case (4 a b c xs)
  have len: "length (a # b # c # xs) = length xs + 3" by simp
  show ?case
  proof (cases "xs = []")
    case True
    then show ?thesis using b64_last_digits by simp
  next
    case False
    then show ?thesis unfolding len mod_add_self2 using b64_from_end [OF False, of 1] 4 by simp
  qed
qed simp_all

lemma b64_second_last:
  assumes "xs \<noteq> []"
  shows "(b64 xs ! (length (b64 xs) - 2) = CHR ''='') \<longleftrightarrow> length xs mod 3 = 1"
  using assms
proof (induction xs rule: b64.induct)
  case (4 a b c xs)
  have len: "length (a # b # c # xs) = length xs + 3" by simp
  show ?case
  proof (cases "xs = []")
    case True
    then show ?thesis using b64_last_digits by simp
  next
    case False
    then show ?thesis unfolding len mod_add_self2 using b64_from_end [OF False, of 2] 4 by simp
  qed
qed (simp_all add: b64_last_digits)

lemma base64_decode_b64:
  assumes al: "granted al 256" "granted al (length xs)" and xs: "xs \<noteq> []"
    and n: "int (length (b64 xs)) \<le> INT_MAX"
  shows "\<exists>m. base64_decode al No_Table (b64 xs) (length (b64 xs)) = Ok (Some xs, Table m) \<and> table_ok m"
proof -
  let ?l = "length (b64 xs)"
  obtain m where m: "build_decoding_table al = Ok (Table m)" "table_ok m"
    using build_decoding_table_ok [OF al(1)] by blast
  have l: "?l = 4 * ((length xs + 2) div 3)" by (rule length_b64)
  have pos: "4 \<le> ?l" using xs by (cases xs) (auto simp: length_b64)
  have small: "?l < SIZE_MOD" using n by (simp add: INT_MAX_def SIZE_MOD_def)
  have d: "mem_get (b64 xs) (size_sub ?l 1) = Ok (b64 xs ! (?l - 1))"
    "mem_get (b64 xs) (size_sub ?l 2) = Ok (b64 xs ! (?l - 2))"
  proof -
    have "size_sub ?l 1 = ?l - 1" "size_sub ?l 2 = ?l - 2"
      by (rule size_sub_exact, use pos in linarith, rule small)+
    moreover have "?l - 1 < ?l" "?l - 2 < ?l" using pos by linarith+
    ultimately show "mem_get (b64 xs) (size_sub ?l 1) = Ok (b64 xs ! (?l - 1))"
      "mem_get (b64 xs) (size_sub ?l 2) = Ok (b64 xs ! (?l - 2))"
      by (simp_all only: mem_get_def if_True)
  qed
  let ?g = "(length xs + 2) div 3 * 3"
  have g: "?l div 4 * 3 = ?g" by (simp add: l)
  have g2: "2 \<le> ?g" using pos l by simp
  have gs: "?g < SIZE_MOD" using small by (simp add: l)
  have out: "(if length xs mod 3 = 1
      then size_sub (if length xs mod 3 \<noteq> 0 then size_sub ?g 1 else ?g) 1
      else if length xs mod 3 \<noteq> 0 then size_sub ?g 1 else ?g) = length xs"
  proof -
    have "length xs mod 3 = 0 \<and> ?g = length xs \<or> length xs mod 3 = 2 \<and> ?g = length xs + 1
        \<or> length xs mod 3 = 1 \<and> ?g = length xs + 2"
      by presburger
    then show ?thesis using g2 gs by (auto simp: size_sub_exact)
  qed
  have "base64_decode_loop m (b64 xs) ?l (length xs) 0 (malloc_block al (length xs), 0) = Ok xs"
    using base64_decode_loop_eq [OF m(2), of "b64 xs" "[]" xs "malloc_block al (length xs)" "[]"] n by simp
  moreover have "\<not> ?l mod 4 \<noteq> 0" by (simp add: l)
  ultimately have "base64_decode al No_Table (b64 xs) ?l = Ok (Some xs, Table m)"
    using al(2) unfolding base64_decode_def decoding_table.case m(1) bindr.simps d g Let_def b64_last [OF xs] b64_second_last [OF xs] out
    by simp
  then show ?thesis using m(2) by blast
qed

text \<open>The text may stand in a longer array: the decoder reads only the length it is given.\<close>

lemma mem_get_append: "mem_get xs i = Ok x \<Longrightarrow> mem_get (xs @ ys) i = Ok x"
  by (auto simp: mem_get_def nth_append split: if_splits)

lemma next_sextet_append: "next_sextet tab data i = Ok v \<Longrightarrow> next_sextet tab (data @ rest) i = Ok v"
  by (auto simp: next_sextet_def bindr_eq_Ok intro: mem_get_append split: if_splits)

lemma base64_decode_loop_append:
  "base64_decode_loop tab data n len i st = Ok r \<Longrightarrow> base64_decode_loop tab (data @ rest) n len i st = Ok r"
proof (induction tab data n len i st rule: base64_decode_loop.induct)
  case (1 tab data n len i st)
  note unfold = base64_decode_loop.simps [of tab _ n len i st] Let_def
  show ?case
  proof (cases "i < n")
    case True
    then obtain a b c d where s: "next_sextet tab data i = Ok a" "next_sextet tab data (i + 1) = Ok b"
      "next_sextet tab data (i + 2) = Ok c" "next_sextet tab data (i + 3) = Ok d"
      using 1(2) unfolding unfold if_P [OF True] bindr_eq_Ok by blast
    let ?t = "push_bit 18 a + push_bit 12 b + push_bit 6 c + d"
    obtain s1 s2 s3 where p: "put_byte len (drop_bit 16 ?t) st = Ok s1" "put_byte len (drop_bit 8 ?t) s1 = Ok s2"
      "put_byte len ?t s2 = Ok s3"
      using 1(2) unfolding unfold if_P [OF True] s bindr.simps bindr_eq_Ok by blast
    have "\<not> INT_MAX < int (i + 4)" "base64_decode_loop tab data n len (i + 4) s3 = Ok r"
      using 1(2) unfolding unfold if_P [OF True] s p bindr.simps by (auto split: if_splits)
    then show ?thesis
      using 1(1) [OF True s refl p] unfolding unfold if_P [OF True] s [THEN next_sextet_append] p bindr.simps by simp
  next
    case False
    then show ?thesis using 1(2) by (simp add: unfold)
  qed
qed

lemma base64_decode_append:
  assumes "base64_decode al tab data n = Ok r"
  shows "base64_decode al tab (data @ rest) n = Ok r"
proof -
  obtain tab' where t: "(case tab of No_Table \<Rightarrow> build_decoding_table al | _ \<Rightarrow> Ok tab) = Ok tab'"
    using assms unfolding base64_decode_def by (auto simp: bindr_eq_Ok)
  show ?thesis
  proof (cases "n mod 4 = 0")
    case True
    then obtain l1 l2 where l: "mem_get data (size_sub n 1) = Ok l1" "mem_get data (size_sub n 2) = Ok l2"
      using assms unfolding base64_decode_def t by (auto simp: bindr_eq_Ok)
    show ?thesis
      using assms base64_decode_loop_append [of _ data n _ 0 _ _ rest] True
      unfolding base64_decode_def t l l [THEN mem_get_append] bindr.simps Let_def
      by (fastforce simp: bindr_eq_Ok split: if_splits decoding_table.splits)
  next
    case False
    then show ?thesis using assms by (simp add: base64_decode_def t)
  qed
qed

text \<open>C27: \<open>base64_decode\<close> undoes \<open>base64_encode\<close>: what the encoder leaves in its string for an input that is not
  empty, fits the string and has an encoding whose length fits an \<open>int\<close> is decoded to the input again, when the
  memory for it is granted, and the call leaves a table for the next one.\<close>

theorem base64_decode_encode:
  assumes "str_ok out_str" and "4 * ((length xs + 2) div 3) < s_capacity out_str"
    and "granted al 256" "granted al (length xs)" and "xs \<noteq> []" and "int (4 * ((length xs + 2) div 3)) \<le> INT_MAX"
  shows "\<exists>out' m. base64_encode xs (length xs) out_str = Ok out'
     \<and> base64_decode al No_Table (s_buffer out') (s_length out') = Ok (Some xs, Table m) \<and> table_ok m"
proof -
  have "int (length xs) \<le> INT_MAX" using assms(6) by simp
  then obtain out' where o: "base64_encode xs (length xs) out_str = Ok out'" "str_ok out'" "str_val out' = b64 xs"
    using base64_encode_text [OF assms(1) _ assms(2)] by blast
  obtain m where m: "base64_decode al No_Table (b64 xs) (length (b64 xs)) = Ok (Some xs, Table m)" "table_ok m"
    using base64_decode_b64 [OF assms(3-5)] assms(6) by (auto simp: length_b64)
  have "s_buffer out' = b64 xs @ dropWhile (\<lambda>c. c \<noteq> NUL) (s_buffer out')"
    using o(3) takeWhile_dropWhile_id [of "\<lambda>c. c \<noteq> NUL" "s_buffer out'"] by (simp add: str_val_def)
  moreover have "s_length out' = length (b64 xs)" using o(2,3) by (simp add: str_ok_def)
  ultimately have "base64_decode al No_Table (s_buffer out') (s_length out') = Ok (Some xs, Table m)"
    using base64_decode_append [OF m(1)] by metis
  then show ?thesis using o(1) m(2) by blast
qed

theorem base64_decode_encode_witness:
  "\<exists>out' m. base64_encode [102, 111, 111, 98] (length [102, 111, 111, 98 :: byte]) (str_of 64 ''old'') = Ok out'
     \<and> base64_decode zero_alloc No_Table (s_buffer out') (s_length out') = Ok (Some [102, 111, 111, 98], Table m)"
proof -
  have "str_ok (str_of 64 ''old'')" by (rule str_of_ok) (simp_all add: SIZE_MOD_def)
  then show ?thesis
    using base64_decode_encode [of "str_of 64 ''old''" "[102, 111, 111, 98]" zero_alloc]
    by (auto simp: PTRDIFF_MAX_def INT_MAX_def str_of_def)
qed

text \<open>The empty encoding is not decoded to the empty input: \<open>base64_decode\<close> reads
  \<open>data[input_length - 1]\<close> before it looks at the length, one byte in front of the text.\<close>

theorem base64_decode_empty_faults:
  assumes "granted al 256" and "length data < SIZE_MOD"
  shows "base64_decode al No_Table data 0 = Fault Out_Of_Bounds"
proof -
  obtain m where "build_decoding_table al = Ok (Table m)"
    using build_decoding_table_ok [OF assms(1)] by blast
  moreover have "size_sub 0 1 = SIZE_MOD - 1" by (simp add: size_sub_def SIZE_MOD_def)
  moreover have "\<not> SIZE_MOD - 1 < length data" using assms(2) by linarith
  ultimately show ?thesis
    by (simp add: base64_decode_def mem_get_def)
qed

theorem base64_decode_empty_faults_witness:
  "base64_decode zero_alloc No_Table [NUL] 0 = Fault Out_Of_Bounds"
  using base64_decode_empty_faults [of zero_alloc "[NUL]"] by (simp add: PTRDIFF_MAX_def SIZE_MOD_def)

end
