(* ===== verification/RqParser.thy ===== *)
theory RqParser
  imports Base64 ParseConfig
begin

text \<open>
  \<open>rqparser.c\<close>: the HTTP request of the opening handshake. Lines are added one by one; a header may
  continue on the next line, so it is analysed when the next one starts. \<open>rq_analyze\<close> decides the
  answer. SHA-1 and \<open>fnmatch\<close> are parameters.
\<close>

section \<open>State\<close>

datatype rq_state = ST_START | ST_HEADER | ST_ERROR

record request_t =
  r_state :: rq_state
  r_line :: "char list"
  r_length :: nat
  r_done :: bool
  r_error :: bool
  r_method_str :: str_t
  r_resource_str :: str_t
  r_protocol_str :: str_t
  r_error_code :: int
  r_host_str :: str_t
  r_upgrade_str :: str_t
  r_connection_str :: str_t
  r_ws_key_str :: str_t
  r_ws_protocol_str :: str_t
  r_protocols :: "str_t list"
  r_protocol_count :: nat
  r_ws_version_str :: str_t
  r_origin_str :: str_t
  r_fl_upgrade_found :: bool
  r_fl_connection_found :: bool

definition LINE_BUFFER_SIZE :: nat where
  "LINE_BUFFER_SIZE = 4096"

definition sizeof_request_t :: nat where
  "sizeof_request_t = 1392"

definition sizeof_strlist_t :: nat where
  "sizeof_strlist_t = 48"

definition rq_create :: "allocator \<Rightarrow> request_t option cres" where
  "rq_create al =
     (if \<not> granted al sizeof_request_t then Ok None
      else if \<not> granted al LINE_BUFFER_SIZE then Ok None
      else
        bindr (str_init (junk_text al 16) 16) (\<lambda>method.
        bindr (str_init (junk_text al 256) 256) (\<lambda>resource.
        bindr (str_init (junk_text al 16) 16) (\<lambda>protocol.
        bindr (str_init (junk_text al 256) 256) (\<lambda>host.
        bindr (str_init (junk_text al 64) 64) (\<lambda>upgrade.
        bindr (str_init (junk_text al 64) 64) (\<lambda>connection.
        bindr (str_init (junk_text al 64) 64) (\<lambda>ws_key.
        bindr (str_init (junk_text al 64) 64) (\<lambda>ws_protocol.
        bindr (str_init (junk_text al 32) 32) (\<lambda>ws_version.
        bindr (str_init (junk_text al 256) 256) (\<lambda>origin.
        Ok (Some \<lparr>r_state = ST_START, r_line = junk_text al LINE_BUFFER_SIZE, r_length = 0,
              r_done = False, r_error = False, r_method_str = method, r_resource_str = resource,
              r_protocol_str = protocol, r_error_code = 0, r_host_str = host, r_upgrade_str = upgrade,
              r_connection_str = connection, r_ws_key_str = ws_key, r_ws_protocol_str = ws_protocol,
              r_protocols = [], r_protocol_count = 0, r_ws_version_str = ws_version,
              r_origin_str = origin, r_fl_upgrade_found = False, r_fl_connection_found = False\<rparr>))))))))))))"

definition rq_clear :: "request_t \<Rightarrow> request_t cres" where
  "rq_clear h =
     bindr (str_clear (r_method_str h)) (\<lambda>method.
     bindr (str_clear (r_resource_str h)) (\<lambda>resource.
     bindr (str_clear (r_protocol_str h)) (\<lambda>protocol.
     bindr (str_clear (r_host_str h)) (\<lambda>host.
     bindr (str_clear (r_upgrade_str h)) (\<lambda>upgrade.
     bindr (str_clear (r_connection_str h)) (\<lambda>connection.
     bindr (str_clear (r_ws_key_str h)) (\<lambda>ws_key.
     bindr (str_clear (r_ws_protocol_str h)) (\<lambda>ws_protocol.
     bindr (str_clear (r_ws_version_str h)) (\<lambda>ws_version.
     bindr (str_clear (r_origin_str h)) (\<lambda>origin.
     Ok (h\<lparr>r_length := 0, r_done := False, r_error := False, r_state := ST_START,
         r_method_str := method, r_resource_str := resource, r_protocol_str := protocol,
         r_host_str := host, r_upgrade_str := upgrade, r_connection_str := connection,
         r_ws_key_str := ws_key, r_ws_protocol_str := ws_protocol, r_ws_version_str := ws_version,
         r_origin_str := origin, r_protocols := [], r_protocol_count := 0, r_error_code := 0,
         r_fl_upgrade_found := False, r_fl_connection_found := False\<rparr>)))))))))))"

section \<open>Lists in a header\<close>

lemma strtok_r_advances:
  assumes "strtok_r delim m p = Ok (m', Some (tok, p'))"
  shows "p < p'" and "p < length m" and "length m' = length m"
proof -
  obtain s where s: "cstr (drop p m) = Ok s"
    using assms by (auto simp: strtok_r_def cres_simps)
  then show "p < length m"
    using cstr_length [of "drop p m" s] by simp
  show "p < p'" "length m' = length m"
    using assms by (auto simp: strtok_r_def s Let_def split: if_splits)
qed

lemma strtok_r_measure:
  "strtok_r delim m p = Ok (m', Some (tok, p')) \<Longrightarrow> length m' - p' < length m - p"
  using strtok_r_advances [of delim m p m' tok p'] by simp

function find_upgrade_loop :: "char list \<Rightarrow> nat \<Rightarrow> str_t \<Rightarrow> bool cres" where
  "find_upgrade_loop m p token_nows =
     bindr (strtok_r '','' m p) (\<lambda>r.
     case snd r of
       None \<Rightarrow> Fault No_Return_Value
     | Some (token, p') \<Rightarrow>
         bindr (str_trim_whitespace token_nows token) (\<lambda>token_nows'.
         bindr (str_is_equal_nocase token_nows' ''Upgrade'') (\<lambda>eq.
         if eq then Ok True else find_upgrade_loop (fst r) p' token_nows')))"
  by pat_completeness auto
termination
  by (relation "measure (\<lambda>(m, p, t). length m - p)") (auto dest: strtok_r_measure)

declare find_upgrade_loop.simps [simp del]

text \<open>
  \<open>_find_connection_upgrade\<close> works on a copy. It has no \<open>return\<close> behind the loop: the caller uses a
  value that was never returned when no element is \<open>Upgrade\<close>.
\<close>

definition find_connection_upgrade :: "allocator \<Rightarrow> request_t \<Rightarrow> bool cres" where
  "find_connection_upgrade al h =
     bindr (str_init (junk_text al 64) 64) (\<lambda>tmp.
     bindr (str_init (junk_text al 16) 16) (\<lambda>token_nows.
     bindr (str_copy_string tmp (r_connection_str h)) (\<lambda>tmp'.
     find_upgrade_loop (str_get_string tmp') 0 token_nows)))"

function get_protocols_loop ::
  "allocator \<Rightarrow> char list \<Rightarrow> nat \<Rightarrow> str_t \<Rightarrow> str_t list \<Rightarrow> (char list \<times> str_t list) cres" where
  "get_protocols_loop al m p token_nows protocols =
     bindr (strtok_r '','' m p) (\<lambda>r.
     case snd r of
       None \<Rightarrow> Ok (fst r, protocols)
     | Some (token, p') \<Rightarrow>
         bindr (str_trim_whitespace token_nows token) (\<lambda>token_nows'.
         bindr (if granted al sizeof_strlist_t then
                  bindr (str_init (junk_text al 16) 16) (\<lambda>el.
                  bindr (str_copy_string el token_nows') (\<lambda>el'. Ok (el' # protocols)))
                else Ok protocols) (\<lambda>protocols'.
         get_protocols_loop al (fst r) p' token_nows' protocols')))"
  by pat_completeness auto
termination
  by (relation "measure (\<lambda>(al, m, p, t, ps). length m - p)") (auto dest: strtok_r_measure)

declare get_protocols_loop.simps [simp del]

text \<open>\<open>_get_protocols\<close> cuts the buffer of \<open>ws_protocol_str\<close> itself into tokens.\<close>

definition get_protocols :: "allocator \<Rightarrow> request_t \<Rightarrow> request_t cres" where
  "get_protocols al h =
     bindr (str_init (junk_text al 16) 16) (\<lambda>token_nows.
     bindr (get_protocols_loop al (str_get_string (r_ws_protocol_str h)) 0 token_nows (r_protocols h)) (\<lambda>(m, ps).
     Ok (h\<lparr>r_ws_protocol_str := (r_ws_protocol_str h)\<lparr>s_buffer := m\<rparr>, r_protocols := ps,
           r_protocol_count := r_protocol_count h + (length ps - length (r_protocols h))\<rparr>)))"

section \<open>Headers and lines\<close>

text \<open>The value is \<open>None\<close> when \<open>strdup\<close> failed; it is only used under a known key.\<close>

definition rq_trim :: "str_t \<Rightarrow> string option \<Rightarrow> str_t cres" where
  "rq_trim str value = (case value of None \<Rightarrow> Fault Null_Pointer | Some v \<Rightarrow> str_trim_beginning str v)"

definition rq_process :: "allocator \<Rightarrow> request_t \<Rightarrow> string \<Rightarrow> string option \<Rightarrow> request_t cres" where
  "rq_process al h key value =
     (if strcaseeq key ''host'' then
        bindr (rq_trim (r_host_str h) value) (\<lambda>s. Ok (h\<lparr>r_host_str := s\<rparr>))
      else if strcaseeq key ''upgrade'' then
        bindr (rq_trim (r_upgrade_str h) value) (\<lambda>s.
        bindr (str_is_equal_nocase s ''websocket'') (\<lambda>eq.
        Ok (if eq then h\<lparr>r_upgrade_str := s, r_fl_upgrade_found := True\<rparr> else h\<lparr>r_upgrade_str := s\<rparr>)))
      else if strcaseeq key ''connection'' then
        bindr (rq_trim (r_connection_str h) value) (\<lambda>s.
        let h1 = h\<lparr>r_connection_str := s\<rparr> in
        bindr (find_connection_upgrade al h1) (\<lambda>found.
        Ok (if found then h1\<lparr>r_fl_connection_found := True\<rparr> else h1)))
      else if strcaseeq key ''Sec-WebSocket-Key'' then
        bindr (rq_trim (r_ws_key_str h) value) (\<lambda>s. Ok (h\<lparr>r_ws_key_str := s\<rparr>))
      else if strcaseeq key ''Sec-WebSocket-Protocol'' then
        bindr (rq_trim (r_ws_protocol_str h) value) (\<lambda>s. get_protocols al (h\<lparr>r_ws_protocol_str := s\<rparr>))
      else if strcaseeq key ''Sec-WebSocket-Version'' then
        bindr (rq_trim (r_ws_version_str h) value) (\<lambda>s. Ok (h\<lparr>r_ws_version_str := s\<rparr>))
      else if strcaseeq key ''Origin'' then
        bindr (rq_trim (r_origin_str h) value) (\<lambda>s.
        bindr (str_tolower s) (\<lambda>s'. Ok (h\<lparr>r_origin_str := s'\<rparr>)))
      else Ok h)"

text \<open>
  \<open>parse_request_line\<close> returns the result and the request. The third field is set from \<open>resource\<close>.
\<close>

definition parse_request_line :: "allocator \<Rightarrow> request_t \<Rightarrow> string \<Rightarrow> (bool \<times> request_t) cres" where
  "parse_request_line al h line =
     (if \<not> strdup_ok al line then Ok (False, h)
      else
        bindr (strtok_r [CHR '' '', CHR 0x09] (line @ [NUL]) 0) (\<lambda>(m1, t1).
        case t1 of None \<Rightarrow> Ok (False, h) | Some (method, p1) \<Rightarrow>
        bindr (str_set_string (r_method_str h) method []) (\<lambda>s1.
        let h1 = h\<lparr>r_method_str := s1\<rparr> in
        bindr (strtok_r [CHR '' '', CHR 0x09] m1 p1) (\<lambda>(m2, t2).
        case t2 of None \<Rightarrow> Ok (False, h1) | Some (resource, p2) \<Rightarrow>
        bindr (str_set_string (r_resource_str h1) resource []) (\<lambda>s2.
        let h2 = h1\<lparr>r_resource_str := s2\<rparr> in
        bindr (strtok_r [CHR '' '', CHR 0x09] m2 p2) (\<lambda>(m3, t3).
        case t3 of None \<Rightarrow> Ok (False, h2) | Some (protocol, p3) \<Rightarrow>
        bindr (str_set_string (r_protocol_str h2) resource []) (\<lambda>s3.
        Ok (True, h2\<lparr>r_protocol_str := s3\<rparr>))))))))"

text \<open>The analysis of the pending header line; the flag is False on the early return.\<close>

definition rq_flush :: "allocator \<Rightarrow> request_t \<Rightarrow> (bool \<times> request_t) cres" where
  "rq_flush al h =
     bindr (cstr (r_line h)) (\<lambda>pending.
     if pending = [] then Ok (True, h)
     else case strchr_split CHR '':'' pending of
       None \<Rightarrow> Ok (False, h\<lparr>r_error := True\<rparr>)
     | Some (key, rest) \<Rightarrow>
         if \<not> strdup_ok al key then Ok (False, h\<lparr>r_error := True\<rparr>)
         else bindr (rq_process al h key (if strdup_ok al rest then Some rest else None)) (\<lambda>h'. Ok (True, h')))"

definition rq_add_line :: "allocator \<Rightarrow> request_t \<Rightarrow> string \<Rightarrow> request_t cres" where
  "rq_add_line al h line =
     (case r_state h of
        ST_START \<Rightarrow>
          bindr (parse_request_line al h line) (\<lambda>(res, h1).
          if \<not> res then Ok (h1\<lparr>r_error := True\<rparr>)
          else bindr (mem_set (r_line h1) 0 NUL) (\<lambda>m. Ok (h1\<lparr>r_state := ST_HEADER, r_line := m\<rparr>)))
      | ST_HEADER \<Rightarrow>
          (let h1 = (if line = [] then h\<lparr>r_done := True\<rparr> else h) in
           bindr (if line = [] \<or> \<not> isspace (hd line) then rq_flush al h1 else Ok (True, h1)) (\<lambda>(go_on, h2).
           if \<not> go_on \<or> line = [] then Ok h2
           else
             bindr (if isspace (hd line) then Ok (r_line h2) else mem_set (r_line h2) 0 NUL) (\<lambda>m.
             let line' = (if isspace (hd line) then tl line else line) in
             bindr (cstr m) (\<lambda>cur.
             bindr (strncpy m (length cur) line' (LINE_BUFFER_SIZE - length cur - 1)) (\<lambda>m'.
             Ok (h2\<lparr>r_line := m'\<rparr>))))))
      | ST_ERROR \<Rightarrow> Ok h)"

definition rq_done :: "request_t \<Rightarrow> bool" where
  "rq_done h = r_done h"

definition rq_is_error :: "request_t \<Rightarrow> bool" where
  "rq_is_error h = r_error h"

definition rq_get_host :: "request_t \<Rightarrow> char list" where
  "rq_get_host h = str_get_string (r_host_str h)"

definition rq_get_upgrade :: "request_t \<Rightarrow> char list" where
  "rq_get_upgrade h = str_get_string (r_upgrade_str h)"

definition rq_get_connection :: "request_t \<Rightarrow> char list" where
  "rq_get_connection h = str_get_string (r_connection_str h)"

definition rq_get_websocket_key :: "request_t \<Rightarrow> char list" where
  "rq_get_websocket_key h = str_get_string (r_ws_key_str h)"

definition rq_get_websocket_protocol :: "request_t \<Rightarrow> char list" where
  "rq_get_websocket_protocol h = str_get_string (r_ws_protocol_str h)"

definition rq_get_websocket_version :: "request_t \<Rightarrow> char list" where
  "rq_get_websocket_version h = str_get_string (r_ws_version_str h)"

definition rq_get_origin :: "request_t \<Rightarrow> char list" where
  "rq_get_origin h = str_get_string (r_origin_str h)"

definition rq_get_protocol_count :: "request_t \<Rightarrow> nat" where
  "rq_get_protocol_count h = r_protocol_count h"

text \<open>\<open>None\<close> is NULL; following the list past its end would dereference NULL.\<close>

definition rq_get_protocol :: "request_t \<Rightarrow> int \<Rightarrow> char list option cres" where
  "rq_get_protocol h index =
     (if index < 0 \<or> int (r_protocol_count h) \<le> index then Ok None
      else if nat index < length (r_protocols h) then Ok (Some (str_get_string (r_protocols h ! nat index)))
      else Fault Null_Pointer)"

fun protocols_contain :: "str_t list \<Rightarrow> string \<Rightarrow> bool cres" where
  "protocols_contain [] protocol = Ok False"
| "protocols_contain (x # xs) protocol =
     bindr (cstr (str_get_string x)) (\<lambda>s. if s = protocol then Ok True else protocols_contain xs protocol)"

definition rq_protocols_contains :: "request_t \<Rightarrow> string \<Rightarrow> bool cres" where
  "rq_protocols_contains h protocol = protocols_contain (r_protocols h) protocol"

text \<open>\<open>trim_beginning\<close> stops at the terminator at the latest, which is no white space.\<close>

fun trim_beginning :: "string \<Rightarrow> string" where
  "trim_beginning [] = []"
| "trim_beginning (c # cs) = (if isspace c then trim_beginning cs else c # cs)"

section \<open>The answer\<close>

definition MAGIC_STRING :: string where
  "MAGIC_STRING = ''258EAFA5-E914-47DA-95CA-C5AB0DC85B11''"

definition rq_get_access :: "(byte list \<Rightarrow> byte list) \<Rightarrow> allocator \<Rightarrow> string \<Rightarrow> str_t \<Rightarrow> str_t cres" where
  "rq_get_access sha1 al challenge response =
     bindr (vsnprintf (junk_text al 1024) 1024 ''%s%s'' [challenge, MAGIC_STRING]) (\<lambda>buff1.
     bindr (cstr buff1) (\<lambda>text.
     base64_encode (sha1 (map byte_of_char text)) 20 response))"

definition CRLF :: string where
  "CRLF = [CHR 0x0D, CHR 0x0A]"

definition resp_405 :: string where
  "resp_405 = ''HTTP/1.1 405 Method Not Allowed'' @ CRLF @ CRLF"

definition resp_403 :: string where
  "resp_403 = ''HTTP/1.1 403 Forbidden'' @ CRLF @ CRLF"

definition resp_400 :: string where
  "resp_400 = ''HTTP/1.1 400 Bad Request'' @ CRLF @ CRLF"

definition resp_404 :: string where
  "resp_404 = ''HTTP/1.1 404 Not Found'' @ CRLF @ CRLF"

definition resp_426 :: string where
  "resp_426 = ''HTTP/1.1 426 Upgrade Required'' @ CRLF @ ''Sec-WebSocket-Version: 13'' @ CRLF @ CRLF"

definition resp_101 :: string where
  "resp_101 = ''HTTP/1.1 101 Switching Protocols'' @ CRLF @ ''Upgrade: websocket'' @ CRLF
     @ ''Connection: %s'' @ CRLF @ ''Sec-WebSocket-Accept: %s'' @ CRLF
     @ ''Sec-WebSocket-Protocol: xmpp'' @ CRLF @ CRLF"

definition refuse :: "str_t \<Rightarrow> string \<Rightarrow> (bool \<times> str_t) cres" where
  "refuse response text = bindr (str_set_string response text []) (\<lambda>s. Ok (False, s))"

definition rq_analyze ::
  "(string \<Rightarrow> string \<Rightarrow> bool) \<Rightarrow> (byte list \<Rightarrow> byte list) \<Rightarrow> allocator \<Rightarrow> request_t \<Rightarrow> jsconf_t \<Rightarrow> str_t
     \<Rightarrow> (bool \<times> str_t) cres" where
  "rq_analyze fnm sha1 al h conf response =
     bindr (str_init (junk_text al 64) 64) (\<lambda>accept_str.
     bindr (str_is_equal_nocase (r_method_str h) ''GET'') (\<lambda>is_get.
     if \<not> is_get then refuse response resp_405
     else
       bindr (cstr (rq_get_origin h)) (\<lambda>origin.
       if \<not> config_check_origin fnm conf origin then refuse response resp_403
       else
         bindr (rq_protocols_contains h ''xmpp'') (\<lambda>xmpp.
         if \<not> xmpp then refuse response resp_400
         else
           bindr (cstr (rq_get_websocket_key h)) (\<lambda>key.
           if key = [] then refuse response resp_400
           else
             bindr (cstr (rq_get_host h)) (\<lambda>host.
             if cf_host conf \<noteq> None \<and> the (cf_host conf) \<noteq> host then refuse response resp_400
             else if \<not> r_fl_upgrade_found h then refuse response resp_400
             else if \<not> r_fl_connection_found h then refuse response resp_400
             else
               bindr (case cf_resource conf of None \<Rightarrow> Ok True
                      | Some res \<Rightarrow> str_is_equal_nocase (r_resource_str h) res) (\<lambda>res_ok.
               if \<not> res_ok then refuse response resp_404
               else
                 bindr (cstr (rq_get_websocket_version h)) (\<lambda>version.
                 if version \<noteq> ''13'' then refuse response resp_426
                 else
                   bindr (rq_get_access sha1 al key accept_str) (\<lambda>accept'.
                   bindr (cstr (str_get_string (r_connection_str h))) (\<lambda>connection.
                   bindr (cstr (str_get_string accept')) (\<lambda>acc.
                   bindr (str_set_string response resp_101 [connection, acc]) (\<lambda>s. Ok (True, s)))))))))))))"

end
