(* ===== verification/RqHandshake.thy ===== *)
theory RqHandshake
  imports RqParser Util_Buffer "HOL-Library.Code_Target_Nat"
begin

text \<open>
  What the parser of \<open>rqparser.c\<close> makes of a request. \<open>areq\<close> is the request as plain texts, without
  arrays; \<open>aadd_line\<close> adds a line to it. The refinement lemmas show that the code does the same on its
  fixed arrays, as long as the line is harmless (\<open>line_safe\<close>): no text of the client reaches a format
  string with a percent sign, the line fits the line buffer, and a \<open>Connection\<close> header names
  \<open>Upgrade\<close>. Each of the three conditions is shown to be needed.
\<close>

section \<open>Tokens\<close>

lemma tokens_Nil [simp]: "tokens delim [] = []"
  by (simp add: tokens.simps)

lemma tokens_skip: "c \<in> set delim \<Longrightarrow> tokens delim (c # s) = tokens delim s"
  by (simp add: tokens.simps [of delim "c # s"] tokens.simps [of delim s])

lemma tokens_nul_free:
  assumes "t \<in> set (tokens delim s)" shows "set t \<subseteq> set s" and "t \<noteq> []"
proof -
  have "t \<in> set (tokens delim s) \<Longrightarrow> set t \<subseteq> set s \<and> t \<noteq> []"
  proof (induction delim s rule: tokens.induct)
    case (1 delim s)
    let ?s' = "dropWhile (\<lambda>c. c \<in> set delim) s"
    let ?tok = "takeWhile (\<lambda>c. c \<notin> set delim) ?s'"
    have ne: "?tok \<noteq> []"
      using 1(2) by (subst (asm) tokens.simps) (auto simp: Let_def split: if_splits)
    then have "t = ?tok \<or> t \<in> set (tokens delim (drop (length ?tok) ?s'))"
      using 1(2) by (subst (asm) tokens.simps) (auto simp: Let_def)
    moreover have "set ?tok \<subseteq> set s" "set (drop (length ?tok) ?s') \<subseteq> set s"
      by (auto dest: set_takeWhileD set_dropWhileD in_set_dropD)
    ultimately show ?case using 1(1) [OF refl refl ne] ne by auto
  qed
  with assms show "set t \<subseteq> set s" "t \<noteq> []" by auto
qed

text \<open>The first token of a text, behind \<open>k\<close> delimiters, and the text behind the delimiter that ends it.\<close>

lemma tokens_Cons:
  assumes "tokens delim s = t # ts" and "k = length (takeWhile (\<lambda>c. c \<in> set delim) s)"
  shows "takeWhile (\<lambda>c. c \<notin> set delim) (drop k s) = t" and "t \<noteq> []" and "k + length t \<le> length s"
    and "ts = tokens delim (drop (Suc (k + length t)) s)"
proof -
  let ?s' = "dropWhile (\<lambda>c. c \<in> set delim) s"
  let ?tok = "takeWhile (\<lambda>c. c \<notin> set delim) ?s'"
  have s': "?s' = drop k s" unfolding assms(2) by (rule dropWhile_eq_drop)
  have t: "t = ?tok" "?tok \<noteq> []" and rest: "ts = tokens delim (drop (length ?tok) ?s')"
    using assms(1) by (subst (asm) tokens.simps; simp add: Let_def split: if_splits)+
  show "takeWhile (\<lambda>c. c \<notin> set delim) (drop k s) = t" "t \<noteq> []" using t s' by simp_all
  have "k \<le> length s" by (simp add: assms(2) length_takeWhile_le)
  moreover have "length t \<le> length (drop k s)" unfolding t(1) s' by (rule length_takeWhile_le)
  ultimately show "k + length t \<le> length s" by simp
  have d: "drop (length t) (drop k s) = dropWhile (\<lambda>c. c \<notin> set delim) (drop k s)"
    unfolding t(1) s' by (rule dropWhile_eq_drop [symmetric])
  show "ts = tokens delim (drop (Suc (k + length t)) s)"
  proof (cases "drop (length t) (drop k s)")
    case Nil
    then show ?thesis using rest s' t(1) by (simp add: add.commute)
  next
    case (Cons c s2)
    then have "dropWhile (\<lambda>c. c \<notin> set delim) (drop k s) = c # s2" using d by metis
    then have "c \<in> set delim" by (simp add: dropWhile_eq_Cons_conv)
    moreover have "s2 = drop (Suc (k + length t)) s"
      using Cons by (metis add.commute drop_Suc drop_drop list.sel(3) tl_drop)
    ultimately show ?thesis using rest s' t(1) Cons by (simp add: tokens_skip)
  qed
qed

lemma strtok_r_tokens:
  assumes "cstr (drop p m) = Ok s"
  shows "tokens delim s = [] \<Longrightarrow> strtok_r delim m p = Ok (m, None)"
    and "tokens delim s = t # ts \<Longrightarrow> NUL \<notin> set delim \<Longrightarrow>
      \<exists>m' p' s'. strtok_r delim m p = Ok (m', Some (t, p')) \<and> cstr (drop p' m') = Ok s' \<and> tokens delim s' = ts
        \<and> set s' \<subseteq> set s"
proof -
  define k where "k = length (takeWhile (\<lambda>c. c \<in> set delim) s)"
  have s': "dropWhile (\<lambda>c. c \<in> set delim) s = drop k s" unfolding k_def by (rule dropWhile_eq_drop)
  show "strtok_r delim m p = Ok (m, None)" if "tokens delim s = []"
    using that assms
    by (subst (asm) tokens.simps) (simp add: strtok_r_def Let_def s' k_def [symmetric] split: if_splits)
  assume "tokens delim s = t # ts"
  note t = tokens_Cons [OF this k_def]
  obtain r where m: "drop p m = s @ NUL # r" and nf: "nul_free s" using assms by (rule cstr_OkE)
  let ?e = "p + k + length t"
  show "\<exists>m' p' s'. strtok_r delim m p = Ok (m', Some (t, p')) \<and> cstr (drop p' m') = Ok s' \<and> tokens delim s' = ts
        \<and> set s' \<subseteq> set s"
  proof (cases "k + length t = length s")
    case True
    have "drop ?e m = drop (k + length t) (drop p m)" by (simp add: add.commute add.left_commute)
    also have "\<dots> = NUL # r" using True by (simp add: m)
    finally have "cstr (drop ?e m) = Ok []" by simp
    moreover have "strtok_r delim m p = Ok (m, Some (t, ?e))"
      using assms True t by (simp add: strtok_r_def k_def [symmetric] Let_def)
    ultimately show ?thesis using True t(4) by auto
  next
    case False
    have st: "strtok_r delim m p = Ok (m[?e := NUL], Some (t, Suc ?e))"
      using assms False t by (simp add: strtok_r_def k_def [symmetric] Let_def)
    have "drop (Suc ?e) (m[?e := NUL]) = drop (Suc (k + length t)) (drop p m)" by (simp add: add.commute add.left_commute)
    also have "\<dots> = drop (Suc (k + length t)) s @ NUL # r" using False t(3) by (simp add: m)
    finally have "cstr (drop (Suc ?e) (m[?e := NUL])) = Ok (drop (Suc (k + length t)) s)" using nf by simp
    then show ?thesis using st t(4) set_drop_subset by metis
  qed
qed

section \<open>Lists in a header\<close>

definition names_upgrade :: "string \<Rightarrow> bool" where
  "names_upgrade s \<longleftrightarrow> (\<exists>t \<in> set (tokens '','' s). strcaseeq (strip t) ''Upgrade'')"

definition proto_names :: "string \<Rightarrow> string list" where
  "proto_names s = map (\<lambda>t. take 15 (strip t)) (tokens '','' s)"

lemma strcaseeq_length: "strcaseeq a b \<Longrightarrow> length a = length b"
  by (metis strcaseeq_def length_map)

lemma strcaseeq_take: "length b < n \<Longrightarrow> strcaseeq (take n a) b \<longleftrightarrow> strcaseeq a b"
  by (cases "length a \<le> n") (auto dest: strcaseeq_length)

lemma set_strip: "set (strip t) \<subseteq> set t"
  by (auto simp: strip_def dest!: set_dropWhileD)

lemma nul_free_subset: "nul_free s \<Longrightarrow> set t \<subseteq> set s \<Longrightarrow> nul_free t"
  by (auto simp: nul_free_def)

lemma token_strip:
  assumes "cstr (drop p m) = Ok s" and "t \<in> set (tokens delim s)" and "length m < SIZE_MOD"
  shows "nul_free (strip t)" and "set (strip t) \<subseteq> set s" and "length t < SIZE_MOD"
proof -
  have nf: "nul_free s" using assms(1) by (rule cstr_nul_free)
  have sub: "set t \<subseteq> set s" using tokens_nul_free(1) [OF assms(2)] .
  then show "set (strip t) \<subseteq> set s" using set_strip by blast
  then show "nul_free (strip t)" using nul_free_subset [OF nf] by blast
  have "length t \<le> length s"
    using assms(2)
  proof (induction delim s rule: tokens.induct)
    case (1 delim s)
    let ?s' = "dropWhile (\<lambda>c. c \<in> set delim) s"
    let ?tok = "takeWhile (\<lambda>c. c \<notin> set delim) ?s'"
    have ne: "?tok \<noteq> []"
      using 1(2) by (subst (asm) tokens.simps) (auto simp: Let_def split: if_splits)
    then have "t = ?tok \<or> t \<in> set (tokens delim (drop (length ?tok) ?s'))"
      using 1(2) by (subst (asm) tokens.simps) (auto simp: Let_def)
    moreover have "length ?tok \<le> length s"
      using length_takeWhile_le [of _ ?s'] length_dropWhile_le [of _ s] le_trans by blast
    moreover have "length (drop (length ?tok) ?s') \<le> length s"
      using length_dropWhile_le [of "\<lambda>c. c \<in> set delim" s] by simp
    ultimately show ?case using 1(1) [OF refl refl ne] le_trans by blast
  qed
  then show "length t < SIZE_MOD"
    using cstr_length [OF assms(1)] assms(3) by simp
qed

lemma find_upgrade_loop_eq:
  assumes "cstr (drop p m) = Ok s" and "length m < SIZE_MOD" and "str_ok tn" and "s_capacity tn = 16"
  shows "find_upgrade_loop m p tn = (if names_upgrade s then Ok True else Fault No_Return_Value)"
  using assms
proof (induction "tokens '','' s" arbitrary: m p s tn)
  case Nil
  then show ?case
    by (simp add: find_upgrade_loop.simps [of m p tn] strtok_r_tokens(1) names_upgrade_def)
next
  case (Cons t ts)
  have ts: "tokens '','' s = t # ts" using Cons(2) by simp
  obtain m' p' s' where st: "strtok_r '','' m p = Ok (m', Some (t, p'))"
    and s': "cstr (drop p' m') = Ok s'" "tokens '','' s' = ts"
    using strtok_r_tokens(2) [OF Cons.prems(1) ts] by auto
  note tk = token_strip [OF Cons.prems(1) _ Cons.prems(2), of t "'',''", unfolded ts, simplified]
  let ?tn = "str_store tn (take 15 (strip t))"
  have trim: "str_trim_whitespace tn t = Ok ?tn"
    using str_trim_whitespace_eq [OF Cons.prems(3) tk(3)] Cons.prems(4) by simp
  have tn: "str_ok ?tn" "str_val ?tn = take 15 (strip t)" "s_capacity ?tn = 16"
    using str_store_ok [OF Cons.prems(3), of "take 15 (strip t)"] tk(1) Cons.prems(4) by auto
  have eq: "str_is_equal_nocase ?tn ''Upgrade'' = Ok (strcaseeq (strip t) ''Upgrade'')"
    using str_is_equal_nocase_eq [OF tn(1)] tn(2) by (simp add: strcaseeq_take)
  have "length m' < SIZE_MOD" using strtok_r_advances(3) [OF st] Cons.prems(2) by simp
  note ih = Cons(1) [of s' p' m' ?tn, OF s'(2) [symmetric] s'(1) this tn(1,3)]
  have "names_upgrade s \<longleftrightarrow> strcaseeq (strip t) ''Upgrade'' \<or> names_upgrade s'"
    by (simp add: names_upgrade_def ts s'(2))
  then show ?case
    by (simp add: find_upgrade_loop.simps [of m p tn] st trim eq ih)
qed

lemma str_init_junk:
  assumes "0 < n" and "n < SIZE_MOD"
  obtains s where "str_init (junk_text al n) n = Ok s" and "str_ok s" and "str_val s = []" and "s_capacity s = n"
  using str_init_spec [of "junk_text al n" n] assms by auto

lemma get_protocols_loop_eq:
  assumes "cstr (drop p m) = Ok s" and "length m < SIZE_MOD" and "str_ok tn" and "s_capacity tn = 16"
    and "CHR ''%'' \<notin> set s" and "granted al sizeof_strlist_t"
  shows "\<exists>m' new. get_protocols_loop al m p tn ps = Ok (m', new @ ps) \<and> length m' = length m
     \<and> (\<forall>x \<in> set new. str_ok x) \<and> map str_val new = rev (proto_names s)"
  using assms
proof (induction "tokens '','' s" arbitrary: m p s tn ps)
  case Nil
  then show ?case
    by (simp add: get_protocols_loop.simps [of al m p tn] strtok_r_tokens(1) proto_names_def)
next
  case (Cons t ts)
  have ts: "tokens '','' s = t # ts" using Cons(2) by simp
  obtain m' p' s' where st: "strtok_r '','' m p = Ok (m', Some (t, p'))"
    and s': "cstr (drop p' m') = Ok s'" "tokens '','' s' = ts" "set s' \<subseteq> set s"
    using strtok_r_tokens(2) [OF Cons.prems(1) ts] by auto
  note tk = token_strip [OF Cons.prems(1) _ Cons.prems(2), of t "'',''", unfolded ts, simplified]
  let ?u = "take 15 (strip t)"
  let ?tn = "str_store tn ?u"
  have trim: "str_trim_whitespace tn t = Ok ?tn"
    using str_trim_whitespace_eq [OF Cons.prems(3) tk(3)] Cons.prems(4) by simp
  have tn: "str_ok ?tn" "str_val ?tn = ?u" "s_capacity ?tn = 16"
    using str_store_ok [OF Cons.prems(3), of ?u] tk(1) Cons.prems(4) by auto
  obtain el where el: "str_init (junk_text al 16) 16 = Ok el" "str_ok el" "s_capacity el = 16"
    by (rule str_init_junk [of 16]) (auto simp: SIZE_MOD_def)
  have "CHR ''%'' \<notin> set ?u" using tk(2) Cons.prems(5) by (auto dest: in_set_takeD)
  then have cp: "str_copy_string el ?tn = Ok (str_store el ?u)"
    using str_copy_string_eq [OF el(2) tn(1)] tn(2) el(3) by simp
  have el': "str_ok (str_store el ?u)" "str_val (str_store el ?u) = ?u"
    using str_store_ok [OF el(2), of ?u] tk(1) el(3) by auto
  have len: "length m' < SIZE_MOD" "length m' = length m"
    using strtok_r_advances(3) [OF st] Cons.prems(2) by auto
  have "CHR ''%'' \<notin> set s'" using s'(3) Cons.prems(5) by auto
  with Cons(1) [of s' p' m' ?tn "str_store el ?u # ps", OF s'(2) [symmetric] s'(1) len(1) tn(1,3)]
  obtain m'' new where "get_protocols_loop al m' p' ?tn (str_store el ?u # ps) = Ok (m'', new @ str_store el ?u # ps)"
    "length m'' = length m'" "\<forall>x \<in> set new. str_ok x" "map str_val new = rev (proto_names s')"
    using Cons.prems(6) by auto
  moreover have "proto_names s = ?u # proto_names s'"
    by (simp add: proto_names_def ts s'(2))
  ultimately show ?case
    using el' len Cons.prems(6) el cp
    by (intro exI [of _ m''] exI [of _ "new @ [str_store el ?u]"])
      (simp add: get_protocols_loop.simps [of al m p tn] st trim)
qed

section \<open>Requests as plain texts\<close>

record areq =
  q_state :: rq_state
  q_pending :: string
  q_done :: bool
  q_error :: bool
  q_method :: string
  q_resource :: string
  q_protocol :: string
  q_host :: string
  q_upgrade :: string
  q_connection :: string
  q_key :: string
  q_protocols :: "string list"
  q_version :: string
  q_origin :: string
  q_fl_upgrade :: bool
  q_fl_connection :: bool

definition areq_init :: areq where
  "areq_init = \<lparr>q_state = ST_START, q_pending = [], q_done = False, q_error = False, q_method = [],
     q_resource = [], q_protocol = [], q_host = [], q_upgrade = [], q_connection = [], q_key = [],
     q_protocols = [], q_version = [], q_origin = [], q_fl_upgrade = False, q_fl_connection = False\<rparr>"

text \<open>The field of a header: the text behind the white space, cut to the array it is stored in.\<close>

definition field :: "nat \<Rightarrow> string \<Rightarrow> string" where
  "field cap value = take (cap - 1) (dropWhile isspace value)"

definition aprocess_header :: "string \<Rightarrow> string \<Rightarrow> areq \<Rightarrow> areq" where
  "aprocess_header key value a =
     (if strcaseeq key ''host'' then a\<lparr>q_host := field 256 value\<rparr>
      else if strcaseeq key ''upgrade'' then
        a\<lparr>q_upgrade := field 64 value,
          q_fl_upgrade := q_fl_upgrade a \<or> strcaseeq (field 64 value) ''websocket''\<rparr>
      else if strcaseeq key ''connection'' then
        a\<lparr>q_connection := field 64 value,
          q_fl_connection := q_fl_connection a \<or> names_upgrade (field 64 value)\<rparr>
      else if strcaseeq key ''Sec-WebSocket-Key'' then a\<lparr>q_key := field 64 value\<rparr>
      else if strcaseeq key ''Sec-WebSocket-Protocol'' then
        a\<lparr>q_protocols := rev (proto_names (field 64 value)) @ q_protocols a\<rparr>
      else if strcaseeq key ''Sec-WebSocket-Version'' then a\<lparr>q_version := field 32 value\<rparr>
      else if strcaseeq key ''Origin'' then a\<lparr>q_origin := map tolower (field 256 value)\<rparr>
      else a)"

definition aflush :: "areq \<Rightarrow> bool \<times> areq" where
  "aflush a =
     (if q_pending a = [] then (True, a)
      else case strchr_split CHR '':'' (q_pending a) of
        None \<Rightarrow> (False, a\<lparr>q_error := True\<rparr>)
      | Some (key, value) \<Rightarrow> (True, aprocess_header key value a))"

definition arequest_line :: "string \<Rightarrow> areq \<Rightarrow> areq" where
  "arequest_line line a =
     (case tokens [CHR '' '', CHR 0x09] line of
        [] \<Rightarrow> a\<lparr>q_error := True\<rparr>
      | [m] \<Rightarrow> a\<lparr>q_method := take 15 m, q_error := True\<rparr>
      | [m, r] \<Rightarrow> a\<lparr>q_method := take 15 m, q_resource := take 255 r, q_error := True\<rparr>
      | m # r # p # _ \<Rightarrow> a\<lparr>q_method := take 15 m, q_resource := take 255 r, q_protocol := take 15 r,
            q_state := ST_HEADER, q_pending := []\<rparr>)"

definition aadd_line :: "string \<Rightarrow> areq \<Rightarrow> areq" where
  "aadd_line line a =
     (case q_state a of
        ST_START \<Rightarrow> arequest_line line a
      | ST_HEADER \<Rightarrow>
          (if line = [] then snd (aflush (a\<lparr>q_done := True\<rparr>))
           else if isspace (hd line) then a\<lparr>q_pending := q_pending a @ tl line\<rparr>
           else if fst (aflush a) then (snd (aflush a))\<lparr>q_pending := line\<rparr>
           else snd (aflush a))
      | ST_ERROR \<Rightarrow> a)"

section \<open>Harmless lines\<close>

definition known_header :: "string \<Rightarrow> bool" where
  "known_header key \<longleftrightarrow> (\<exists>k \<in> set [''host'', ''upgrade'', ''connection'', ''Sec-WebSocket-Key'',
     ''Sec-WebSocket-Protocol'', ''Sec-WebSocket-Version'', ''Origin'']. strcaseeq key k)"

definition header_safe :: "string \<Rightarrow> bool" where
  "header_safe pending \<longleftrightarrow>
     (case strchr_split CHR '':'' pending of
        None \<Rightarrow> True
      | Some (key, value) \<Rightarrow>
          (known_header key \<longrightarrow> CHR ''%'' \<notin> set value)
          \<and> (strcaseeq key ''connection'' \<longrightarrow> names_upgrade (field 64 value)))"

definition line_safe :: "areq \<Rightarrow> string \<Rightarrow> bool" where
  "line_safe a line \<longleftrightarrow> nul_free line \<and> length line + 1 \<le> PTRDIFF_MAX
     \<and> (case q_state a of
          ST_START \<Rightarrow> CHR ''%'' \<notin> set line
        | ST_HEADER \<Rightarrow>
            (line = [] \<or> \<not> isspace (hd line) \<longrightarrow> header_safe (q_pending a))
            \<and> (line \<noteq> [] \<longrightarrow>
                 (if isspace (hd line) then length (q_pending a) + length line < 4096 else length line < 4095))
        | ST_ERROR \<Rightarrow> True)"

fun lines_safe :: "areq \<Rightarrow> string list \<Rightarrow> bool" where
  "lines_safe a [] \<longleftrightarrow> True"
| "lines_safe a (l # ls) \<longleftrightarrow> line_safe a l \<and> lines_safe (aadd_line l a) ls"

section \<open>The invariant and the abstraction\<close>

definition str_cap :: "nat \<Rightarrow> str_t \<Rightarrow> bool" where
  "str_cap n s \<longleftrightarrow> str_ok s \<and> s_capacity s = n"

text \<open>The array of \<open>ws_protocol_str\<close> is cut into tokens, so its recorded length is not its text's.\<close>

definition rq_ok :: "request_t \<Rightarrow> bool" where
  "rq_ok h \<longleftrightarrow> str_cap 16 (r_method_str h) \<and> str_cap 256 (r_resource_str h) \<and> str_cap 16 (r_protocol_str h)
     \<and> str_cap 256 (r_host_str h) \<and> str_cap 64 (r_upgrade_str h) \<and> str_cap 64 (r_connection_str h)
     \<and> str_cap 64 (r_ws_key_str h) \<and> str_cap 32 (r_ws_version_str h) \<and> str_cap 256 (r_origin_str h)
     \<and> length (s_buffer (r_ws_protocol_str h)) = 64 \<and> s_capacity (r_ws_protocol_str h) = 64
     \<and> (\<forall>x \<in> set (r_protocols h). str_ok x) \<and> r_protocol_count h = length (r_protocols h)
     \<and> length (r_line h) = 4096 \<and> (r_state h = ST_HEADER \<longrightarrow> NUL \<in> set (r_line h))"

definition line_text :: "char list \<Rightarrow> string" where
  "line_text m = takeWhile (\<lambda>c. c \<noteq> NUL) m"

definition absq :: "request_t \<Rightarrow> areq" where
  "absq h = \<lparr>q_state = r_state h, q_pending = (if r_state h = ST_HEADER then line_text (r_line h) else []),
     q_done = r_done h, q_error = r_error h, q_method = str_val (r_method_str h),
     q_resource = str_val (r_resource_str h), q_protocol = str_val (r_protocol_str h),
     q_host = str_val (r_host_str h), q_upgrade = str_val (r_upgrade_str h),
     q_connection = str_val (r_connection_str h), q_key = str_val (r_ws_key_str h),
     q_protocols = map str_val (r_protocols h), q_version = str_val (r_ws_version_str h),
     q_origin = str_val (r_origin_str h), q_fl_upgrade = r_fl_upgrade_found h,
     q_fl_connection = r_fl_connection_found h\<rparr>"

section \<open>Refinement\<close>

lemma set_string_cap:
  assumes "str_cap n s" and "CHR ''%'' \<notin> set v" and "nul_free v"
  shows "str_set_string s v args = Ok (str_store s (take (n - 1) v))"
    and "str_cap n (str_store s (take (n - 1) v))" and "str_val (str_store s (take (n - 1) v)) = take (n - 1) v"
proof -
  have s: "str_ok s" "s_capacity s = n" using assms(1) by (auto simp: str_cap_def)
  show "str_set_string s v args = Ok (str_store s (take (n - 1) v))"
    using str_set_string_plain [OF s(1) assms(2,3)] s(2) by simp
  have "0 < n" using str_ok_capacity [OF s(1)] s(2) by simp
  then have "length (take (n - 1) v) < s_capacity s" using s(2) by auto
  from str_store_ok [OF s(1) _ this] assms(3) s(2)
  show "str_cap n (str_store s (take (n - 1) v))" "str_val (str_store s (take (n - 1) v)) = take (n - 1) v"
    by (auto simp: str_cap_def)
qed

lemma set_dropWhile_subset: "set (dropWhile P s) \<subseteq> set s"
  by (auto dest: set_dropWhileD)

lemma rq_trim_field:
  assumes "str_cap n s" and "CHR ''%'' \<notin> set v" and "nul_free v"
  shows "rq_trim s (Some v) = Ok (str_store s (field n v))"
    and "str_cap n (str_store s (field n v))" and "str_val (str_store s (field n v)) = field n v"
proof -
  have sub: "set (dropWhile isspace v) \<subseteq> set v" by (rule set_dropWhile_subset)
  then have "CHR ''%'' \<notin> set (dropWhile isspace v)" using assms(2) by (rule contra_subsetD)
  moreover have "nul_free (dropWhile isspace v)" using assms(3) sub by (rule nul_free_subset)
  ultimately have set: "str_set_string s (dropWhile isspace v) [] = Ok (str_store s (field n v))"
    "str_cap n (str_store s (field n v))" "str_val (str_store s (field n v)) = field n v"
    unfolding field_def by (rule set_string_cap [OF assms(1)])+
  from set
  show "rq_trim s (Some v) = Ok (str_store s (field n v))"
    and "str_cap n (str_store s (field n v))" and "str_val (str_store s (field n v)) = field n v"
    by (simp_all add: rq_trim_def str_trim_beginning_eq field_def)
qed

lemma field_subset: "set (field n v) \<subseteq> set v"
  by (auto simp: field_def dest!: in_set_takeD set_dropWhileD)

lemma find_connection_upgrade_eq:
  assumes "str_cap 64 (r_connection_str h)" and "CHR ''%'' \<notin> set (str_val (r_connection_str h))"
  shows "find_connection_upgrade al h
    = (if names_upgrade (str_val (r_connection_str h)) then Ok True else Fault No_Return_Value)"
proof -
  let ?c = "r_connection_str h"
  have c: "str_ok ?c" "s_capacity ?c = 64" using assms(1) by (auto simp: str_cap_def)
  obtain tmp where tmp: "str_init (junk_text al 64) 64 = Ok tmp" "str_ok tmp" "s_capacity tmp = 64"
    by (rule str_init_junk [of 64]) (auto simp: SIZE_MOD_def)
  obtain tn where tn: "str_init (junk_text al 16) 16 = Ok tn" "str_ok tn" "s_capacity tn = 16"
    by (rule str_init_junk [of 16]) (auto simp: SIZE_MOD_def)
  have len: "length (str_val ?c) < 64" using c by (auto elim: str_okE)
  then have cp: "str_copy_string tmp ?c = Ok (str_store tmp (str_val ?c))"
    using str_copy_string_eq [OF tmp(2) c(1) assms(2)] tmp(3) by simp
  have nf: "nul_free (str_val ?c)" using c(1) by (elim str_okE)
  then have st: "str_ok (str_store tmp (str_val ?c))" "str_val (str_store tmp (str_val ?c)) = str_val ?c"
    "s_capacity (str_store tmp (str_val ?c)) = 64"
    using str_store_ok [OF tmp(2)] len tmp(3) by auto
  then have "cstr (drop 0 (s_buffer (str_store tmp (str_val ?c)))) = Ok (str_val ?c)"
    by (simp add: str_ok_def)
  moreover have "length (s_buffer (str_store tmp (str_val ?c))) < SIZE_MOD"
    using st by (auto simp: str_ok_def)
  ultimately show ?thesis
    using find_upgrade_loop_eq [OF _ _ tn(2,3)]
    by (simp add: find_connection_upgrade_def tmp(1) tn(1) cp str_get_string_def)
qed

text \<open>Setting a text needs the array only, not the old text.\<close>

lemma rq_trim_array:
  assumes "length (s_buffer s) = 64" and "s_capacity s = 64" and "CHR ''%'' \<notin> set v" and "nul_free v"
  shows "\<exists>s'. rq_trim s (Some v) = Ok s' \<and> str_cap 64 s' \<and> str_val s' = field 64 v"
proof -
  let ?s0 = "\<lparr>s_buffer = replicate 64 NUL, s_length = 0, s_capacity = 64\<rparr>"
  have f: "CHR ''%'' \<notin> set (dropWhile isspace v)"
    using set_dropWhile_subset assms(3) by (rule contra_subsetD)
  have nf: "nul_free (field 64 v)"
    using assms(4) field_subset by (rule nul_free_subset)
  let ?m = "field 64 v @ NUL # drop (Suc (length (field 64 v))) (s_buffer s)"
  let ?s' = "s\<lparr>s_buffer := ?m, s_length := length (field 64 v)\<rparr>"
  have "vsnprintf (s_buffer s) 64 (dropWhile isspace v) [] = Ok ?m"
    using vsnprintf_plain [OF f, of 64 "s_buffer s"] assms(1) by (simp add: field_def)
  then have "rq_trim s (Some v) = Ok ?s'"
    using nf assms(2)
    by (simp add: rq_trim_def str_trim_beginning_eq str_set_string_def str_set_vstring_def)
  moreover have "length ?m = 64" using assms(1) by (simp add: field_def)
  then have "str_cap 64 ?s'" "str_val ?s' = field 64 v"
    using str_okI [of ?s' "field 64 v"] nf assms(2) by (auto simp: str_cap_def SIZE_MOD_def)
  ultimately show ?thesis by blast
qed

lemma get_protocols_eq:
  assumes "rq_ok h" and "str_cap 64 (r_ws_protocol_str h)" and "CHR ''%'' \<notin> set (str_val (r_ws_protocol_str h))"
    and "granted al sizeof_strlist_t"
  shows "\<exists>h'. get_protocols al h = Ok h' \<and> rq_ok h'
     \<and> absq h' = absq h\<lparr>q_protocols := rev (proto_names (str_val (r_ws_protocol_str h))) @ q_protocols (absq h)\<rparr>
     \<and> r_line h' = r_line h \<and> r_state h' = r_state h"
proof -
  let ?w = "r_ws_protocol_str h"
  obtain tn where tn: "str_init (junk_text al 16) 16 = Ok tn" "str_ok tn" "s_capacity tn = 16"
    by (rule str_init_junk [of 16]) (auto simp: SIZE_MOD_def)
  have w: "str_ok ?w" using assms(2) by (simp add: str_cap_def)
  then have "cstr (drop 0 (s_buffer ?w)) = Ok (str_val ?w)" "length (s_buffer ?w) < SIZE_MOD"
    by (auto simp: str_ok_def)
  from get_protocols_loop_eq [OF this tn(2,3) assms(3,4)] obtain m' new where
    l: "get_protocols_loop al (s_buffer ?w) 0 tn (r_protocols h) = Ok (m', new @ r_protocols h)"
    "length m' = length (s_buffer ?w)" "\<forall>x \<in> set new. str_ok x" "map str_val new = rev (proto_names (str_val ?w))"
    by blast
  let ?h = "h\<lparr>r_ws_protocol_str := ?w\<lparr>s_buffer := m'\<rparr>, r_protocols := new @ r_protocols h,
      r_protocol_count := r_protocol_count h + length new\<rparr>"
  have "get_protocols al h = Ok ?h"
    by (simp add: get_protocols_def tn(1) str_get_string_def l(1))
  moreover have "rq_ok ?h" using assms(1) l by (auto simp: rq_ok_def)
  moreover have "absq ?h = absq h\<lparr>q_protocols := rev (proto_names (str_val ?w)) @ q_protocols (absq h)\<rparr>"
    by (simp add: absq_def l(4))
  ultimately show ?thesis by auto
qed

lemma rq_process_unknown: "\<not> known_header key \<Longrightarrow> rq_process al h key v = Ok h"
  by (simp add: known_header_def rq_process_def)

lemma aprocess_unknown: "\<not> known_header key \<Longrightarrow> aprocess_header key v a = a"
  by (simp add: known_header_def aprocess_header_def)

lemma str_tolower_cap:
  assumes "str_cap n s"
  shows "str_tolower s = Ok (str_store s (map tolower (str_val s)))"
    and "str_cap n (str_store s (map tolower (str_val s)))"
    and "str_val (str_store s (map tolower (str_val s))) = map tolower (str_val s)"
proof -
  have s: "str_ok s" "s_capacity s = n" using assms by (auto simp: str_cap_def)
  show "str_tolower s = Ok (str_store s (map tolower (str_val s)))" by (rule str_tolower_eq [OF s(1)])
  have "nul_free (map tolower (str_val s))" "length (map tolower (str_val s)) < s_capacity s"
    using s(1) by (auto elim: str_okE)
  from str_store_ok [OF s(1) this] s(2)
  show "str_cap n (str_store s (map tolower (str_val s)))"
    "str_val (str_store s (map tolower (str_val s))) = map tolower (str_val s)"
    by (auto simp: str_cap_def)
qed

lemma str_nocase_cap: "str_cap n s \<Longrightarrow> str_is_equal_nocase s lit = Ok (strcaseeq (str_val s) lit)"
  by (simp add: str_cap_def str_is_equal_nocase_eq)

lemma rq_process_protocol:
  assumes ok: "rq_ok h" and al: "granted al sizeof_strlist_t" and nf: "nul_free v" and p: "CHR ''%'' \<notin> set v"
    and no: "\<not> strcaseeq key ''host''" "\<not> strcaseeq key ''upgrade''" "\<not> strcaseeq key ''connection''"
      "\<not> strcaseeq key ''Sec-WebSocket-Key''" "strcaseeq key ''Sec-WebSocket-Protocol''"
  shows "\<exists>h'. rq_process al h key (Some v) = Ok h' \<and> rq_ok h' \<and> absq h' = aprocess_header key v (absq h)
     \<and> r_line h' = r_line h \<and> r_state h' = r_state h"
proof -
  have "length (s_buffer (r_ws_protocol_str h)) = 64" "s_capacity (r_ws_protocol_str h) = 64"
    using ok by (auto simp: rq_ok_def)
  then obtain s' where s': "rq_trim (r_ws_protocol_str h) (Some v) = Ok s'" "str_cap 64 s'"
    "str_val s' = field 64 v"
    using rq_trim_array [OF _ _ p nf] by blast
  let ?h1 = "h\<lparr>r_ws_protocol_str := s'\<rparr>"
  have "length (s_buffer s') = 64" using s'(2) by (auto simp: str_cap_def str_ok_def)
  then have h1: "rq_ok ?h1" "absq ?h1 = absq h"
    using ok s'(2) by (simp_all add: rq_ok_def str_cap_def absq_def)
  have "CHR ''%'' \<notin> set (field 64 v)" using field_subset p by (rule contra_subsetD)
  then obtain h' where "get_protocols al ?h1 = Ok h'" "rq_ok h'"
    "absq h' = absq h\<lparr>q_protocols := rev (proto_names (field 64 v)) @ q_protocols (absq h)\<rparr>"
    "r_line h' = r_line h" "r_state h' = r_state h"
    using get_protocols_eq [OF h1(1) _ _ al] s' h1(2) by auto
  then show ?thesis
    using no s'(1) by (simp add: rq_process_def aprocess_header_def)
qed

lemma rq_process_refines_ws:
  assumes ok: "rq_ok h" and al: "granted al sizeof_strlist_t" and nf: "nul_free v"
    and known: "known_header key" and p: "CHR ''%'' \<notin> set v"
    and no: "\<not> strcaseeq key ''host''" "\<not> strcaseeq key ''upgrade''" "\<not> strcaseeq key ''connection''"
  shows "\<exists>h'. rq_process al h key (Some v) = Ok h' \<and> rq_ok h' \<and> absq h' = aprocess_header key v (absq h)
     \<and> r_line h' = r_line h \<and> r_state h' = r_state h"
proof -
  note f = rq_trim_field [OF _ p nf]
  have s: "str_cap 64 (r_ws_key_str h)" "str_cap 32 (r_ws_version_str h)" "str_cap 256 (r_origin_str h)"
    using ok by (auto simp: rq_ok_def)
  consider (key) "strcaseeq key ''Sec-WebSocket-Key''"
    | (proto) "\<not> strcaseeq key ''Sec-WebSocket-Key''" "strcaseeq key ''Sec-WebSocket-Protocol''"
    | (version) "\<not> strcaseeq key ''Sec-WebSocket-Key''" "\<not> strcaseeq key ''Sec-WebSocket-Protocol''"
        "strcaseeq key ''Sec-WebSocket-Version''"
    | (origin) "\<not> strcaseeq key ''Sec-WebSocket-Key''" "\<not> strcaseeq key ''Sec-WebSocket-Protocol''"
        "\<not> strcaseeq key ''Sec-WebSocket-Version''" "strcaseeq key ''Origin''"
    using known no by (auto simp: known_header_def)
  then show ?thesis
  proof cases
    case key
    then show ?thesis
      using no f [OF s(1)] ok by (simp add: rq_process_def aprocess_header_def rq_ok_def absq_def)
  next
    case proto
    then show ?thesis using rq_process_protocol [OF ok al nf p no] by blast
  next
    case version
    then show ?thesis
      using no f [OF s(2)] ok by (simp add: rq_process_def aprocess_header_def rq_ok_def absq_def)
  next
    case origin
    then show ?thesis
      using no f [OF s(3)] str_tolower_cap [OF f(2) [OF s(3)]] ok
      by (simp add: rq_process_def aprocess_header_def rq_ok_def absq_def)
  qed
qed

lemma rq_process_refines:
  assumes ok: "rq_ok h" and al: "granted al sizeof_strlist_t" and nf: "nul_free v"
    and pc: "known_header key \<longrightarrow> CHR ''%'' \<notin> set v"
    and cn: "strcaseeq key ''connection'' \<longrightarrow> names_upgrade (field 64 v)"
  shows "\<exists>h'. rq_process al h key (Some v) = Ok h' \<and> rq_ok h' \<and> absq h' = aprocess_header key v (absq h)
     \<and> r_line h' = r_line h \<and> r_state h' = r_state h"
proof (cases "known_header key")
  case False
  then show ?thesis using ok by (simp add: rq_process_unknown aprocess_unknown)
next
  case True
  with pc have p: "CHR ''%'' \<notin> set v" by simp
  note f = rq_trim_field [OF _ p nf]
  consider (host) "strcaseeq key ''host''" | (up) "\<not> strcaseeq key ''host''" "strcaseeq key ''upgrade''"
    | (conn) "\<not> strcaseeq key ''host''" "\<not> strcaseeq key ''upgrade''" "strcaseeq key ''connection''"
    | (other) "\<not> strcaseeq key ''host''" "\<not> strcaseeq key ''upgrade''" "\<not> strcaseeq key ''connection''"
    by blast
  then show ?thesis
  proof cases
    case host
    have s: "str_cap 256 (r_host_str h)" using ok by (simp add: rq_ok_def)
    show ?thesis
      using host f [OF s] ok by (simp add: rq_process_def aprocess_header_def rq_ok_def absq_def)
  next
    case up
    have s: "str_cap 64 (r_upgrade_str h)" using ok by (simp add: rq_ok_def)
    show ?thesis
      using up f [OF s] str_nocase_cap [OF f(2) [OF s]] ok
      by (simp add: rq_process_def aprocess_header_def rq_ok_def absq_def)
  next
    case conn
    have s: "str_cap 64 (r_connection_str h)" using ok by (simp add: rq_ok_def)
    let ?h1 = "h\<lparr>r_connection_str := str_store (r_connection_str h) (field 64 v)\<rparr>"
    have "CHR ''%'' \<notin> set (field 64 v)" using field_subset p by (rule contra_subsetD)
    then have "find_connection_upgrade al ?h1 = Ok True"
      using find_connection_upgrade_eq [of ?h1 al] f [OF s] cn conn(3) by simp
    then show ?thesis
      using conn f [OF s] cn ok by (simp add: rq_process_def aprocess_header_def rq_ok_def absq_def Let_def)
  next
    case other
    then show ?thesis using rq_process_refines_ws [OF ok al nf True p] by simp
  qed
qed

lemma cstr_line: "NUL \<in> set m \<Longrightarrow> cstr m = Ok (line_text m)"
  by (simp add: cstr_def line_text_def)

lemma line_text_app: "nul_free s \<Longrightarrow> line_text (s @ NUL # r) = s"
  using cstr_terminated [of s r] cstr_line [of "s @ NUL # r"] by simp

lemma strncpy_line:
  assumes "length m = 4096" and "cstr m = Ok cur" and "length cur + length s < 4095" and "nul_free s"
  shows "\<exists>m'. strncpy m (length cur) s (LINE_BUFFER_SIZE - length cur - 1) = Ok m' \<and> length m' = 4096
     \<and> NUL \<in> set m' \<and> line_text m' = cur @ s"
proof -
  let ?n = "LINE_BUFFER_SIZE - length cur - 1"
  have n: "?n = 4095 - length cur" by (simp add: LINE_BUFFER_SIZE_def)
  obtain r where m: "m = cur @ NUL # r" and nf: "nul_free cur"
    using assms(2) by (rule cstr_OkE)
  obtain k where k: "?n - length s = Suc k"
    unfolding n using assms(3) by (cases "4095 - length cur - length s") auto
  let ?m = "cur @ s @ NUL # replicate k NUL @ drop (length cur + ?n) m"
  have t: "take ?n s = s" using assms(3) n by simp
  have "length (take ?n s @ replicate (?n - length s) NUL) = ?n"
    using assms(3) n by simp
  moreover have "length cur + ?n \<le> length m" using assms(1,3) n by simp
  ultimately have "strncpy m (length cur) s ?n = Ok (take (length cur) m @ (take ?n s @ replicate (?n - length s) NUL) @ drop (length cur + ?n) m)"
    by (simp only: strncpy_def mem_write_def if_True)
  also have "take (length cur) m = cur" by (simp add: m)
  finally have eq: "strncpy m (length cur) s ?n = Ok ?m"
    by (simp only: t k replicate_Suc append_assoc append_Cons)
  have "line_text ?m = cur @ s"
    using line_text_app [of "cur @ s" "replicate k NUL @ drop (length cur + ?n) m"] nf assms(4) by simp
  moreover have "length ?m = 4096"
    using assms(1,3) k n by simp
  ultimately show ?thesis using eq by auto
qed

lemma rq_flush_refines:
  assumes ok: "rq_ok h" and al: "generous al" and st: "r_state h = ST_HEADER"
    and safe: "header_safe (q_pending (absq h))"
  shows "\<exists>h'. rq_flush al h = Ok (fst (aflush (absq h)), h') \<and> rq_ok h' \<and> absq h' = snd (aflush (absq h))
     \<and> r_line h' = r_line h \<and> r_state h' = r_state h"
proof -
  let ?t = "line_text (r_line h)"
  have c: "cstr (r_line h) = Ok ?t" and len: "length ?t < 4096"
    using ok st cstr_line cstr_length [of "r_line h" ?t] by (auto simp: rq_ok_def)
  have pend: "q_pending (absq h) = ?t" using st by (simp add: absq_def)
  have g: "granted al k" if "k \<le> 5000" for k
    using al that by (simp add: generous_granted PTRDIFF_MAX_def)
  consider (empty) "?t = []" | (none) "?t \<noteq> []" "strchr_split CHR '':'' ?t = None"
    | (some) key v where "?t \<noteq> []" "strchr_split CHR '':'' ?t = Some (key, v)"
    by (cases "strchr_split CHR '':'' ?t") auto
  then show ?thesis
  proof cases
    case empty
    then show ?thesis using ok pend c by (simp add: rq_flush_def aflush_def)
  next
    case none
    then show ?thesis
      using ok pend c st by (simp add: rq_flush_def aflush_def) (simp add: rq_ok_def absq_def)
  next
    case some
    then have split: "?t = key @ CHR '':'' # v" by (simp add: strchr_split_Some)
    have nf: "nul_free v" using cstr_nul_free [OF c] unfolding split by simp
    have dup: "strdup_ok al key" "strdup_ok al v"
      using g len split by (auto simp: strdup_ok_def)
    have hs: "known_header key \<longrightarrow> CHR ''%'' \<notin> set v"
      "strcaseeq key ''connection'' \<longrightarrow> names_upgrade (field 64 v)"
      using safe pend some(2) by (auto simp: header_safe_def)
    have "granted al sizeof_strlist_t" using g by (simp add: sizeof_strlist_t_def)
    from rq_process_refines [OF ok this nf hs] some dup c pend
    show ?thesis by (auto simp: rq_flush_def aflush_def)
  qed
qed

lemma aflush_pending: "q_pending (snd (aflush a)) = q_pending a" "q_state (snd (aflush a)) = q_state a"
  by (auto simp: aflush_def aprocess_header_def split: option.splits)

text \<open>A new pending line: the array gets it, everything else stays.\<close>

lemma set_line:
  assumes "rq_ok h" and "r_state h = ST_HEADER" and "length m = 4096" and "NUL \<in> set m"
  shows "rq_ok (h\<lparr>r_line := m\<rparr>)" and "absq (h\<lparr>r_line := m\<rparr>) = absq h\<lparr>q_pending := line_text m\<rparr>"
  using assms by (simp_all add: rq_ok_def absq_def)

lemma rq_add_blank_line:
  assumes ok: "rq_ok h" and al: "generous al" and st: "r_state h = ST_HEADER" and safe: "line_safe (absq h) []"
  shows "\<exists>h'. rq_add_line al h [] = Ok h' \<and> rq_ok h' \<and> absq h' = aadd_line [] (absq h)"
proof -
  let ?h = "h\<lparr>r_done := True\<rparr>"
  have q: "q_state (absq h) = ST_HEADER" using st by (simp add: absq_def)
  have "rq_ok ?h" "absq ?h = absq h\<lparr>q_done := True\<rparr>" using ok by (simp_all add: rq_ok_def absq_def)
  moreover have "header_safe (q_pending (absq ?h))" using safe q by (simp add: line_safe_def absq_def)
  ultimately show ?thesis
    using rq_flush_refines [of ?h al] al st q by (auto simp: rq_add_line_def aadd_line_def)
qed

lemma rq_add_continuation:
  assumes ok: "rq_ok h" and st: "r_state h = ST_HEADER" and safe: "line_safe (absq h) line"
    and line: "line \<noteq> []" "isspace (hd line)"
  shows "\<exists>h'. rq_add_line al h line = Ok h' \<and> rq_ok h' \<and> absq h' = aadd_line line (absq h)"
proof -
  have q: "q_state (absq h) = ST_HEADER" and pend: "q_pending (absq h) = line_text (r_line h)"
    using st by (simp_all add: absq_def)
  have lm: "length (r_line h) = 4096" "NUL \<in> set (r_line h)" using ok st by (auto simp: rq_ok_def)
  have "nul_free (tl line)" using safe by (cases line) (auto simp: line_safe_def)
  moreover have "length (line_text (r_line h)) + length (tl line) < 4095"
    using safe line q pend by (cases line) (auto simp: line_safe_def)
  ultimately obtain m' where "strncpy (r_line h) (length (line_text (r_line h))) (tl line)
      (LINE_BUFFER_SIZE - length (line_text (r_line h)) - 1) = Ok m'" "length m' = 4096" "NUL \<in> set m'"
    "line_text m' = line_text (r_line h) @ tl line"
    using strncpy_line [OF lm(1) cstr_line [OF lm(2)]] by blast
  then show ?thesis
    using line st q pend set_line [OF ok st, of m'] cstr_line [OF lm(2)]
    by (simp add: rq_add_line_def aadd_line_def)
qed

lemma rq_add_new_line:
  assumes ok: "rq_ok h" and al: "generous al" and st: "r_state h = ST_HEADER" and safe: "line_safe (absq h) line"
    and line: "line \<noteq> []" "\<not> isspace (hd line)"
  shows "\<exists>h'. rq_add_line al h line = Ok h' \<and> rq_ok h' \<and> absq h' = aadd_line line (absq h)"
proof -
  have q: "q_state (absq h) = ST_HEADER" using st by (simp add: absq_def)
  have safe': "header_safe (q_pending (absq h))" "nul_free line" "length line < 4095"
    using safe line q by (auto simp: line_safe_def)
  then obtain h2 where h2: "rq_flush al h = Ok (fst (aflush (absq h)), h2)" "rq_ok h2"
    "absq h2 = snd (aflush (absq h))" "r_line h2 = r_line h" "r_state h2 = ST_HEADER"
    using rq_flush_refines [OF ok al st] st by auto
  show ?thesis
  proof (cases "fst (aflush (absq h))")
    case False
    then show ?thesis using line st q h2 by (simp add: rq_add_line_def aadd_line_def)
  next
    case True
    let ?m = "(r_line h)[0 := NUL]"
    have lm: "length (r_line h) = 4096" using ok st by (simp add: rq_ok_def)
    then obtain c0 cs where line0: "r_line h = c0 # cs" by (cases "r_line h") auto
    have m0: "mem_set (r_line h2) 0 NUL = Ok ?m" "cstr ?m = Ok []" "length ?m = 4096"
      using lm h2(4) by (auto simp: mem_set_def line0)
    obtain m' where "strncpy ?m 0 line (LINE_BUFFER_SIZE - 0 - 1) = Ok m'" "length m' = 4096" "NUL \<in> set m'"
      "line_text m' = line"
      using strncpy_line [OF m0(3,2), of line] safe'(2,3) by auto
    then show ?thesis
      using line st q True h2 m0 set_line [OF h2(2,5), of m']
      by (simp add: rq_add_line_def aadd_line_def)
  qed
qed

lemma rq_add_header_line:
  assumes "rq_ok h" and "generous al" and "r_state h = ST_HEADER" and "line_safe (absq h) line"
  shows "\<exists>h'. rq_add_line al h line = Ok h' \<and> rq_ok h' \<and> absq h' = aadd_line line (absq h)"
  using rq_add_blank_line [OF assms(1-3)] rq_add_continuation [OF assms(1,3,4)] rq_add_new_line [OF assms] assms(4)
  by (cases "line = []") auto

section \<open>The request line\<close>

abbreviation blanks :: string where
  "blanks \<equiv> [CHR '' '', CHR 0x09]"

lemma blanks_no_nul: "NUL \<notin> set blanks"
  by simp

text \<open>The fields that the tokens of the request line are stored in; the third one gets the second token.\<close>

definition request_fields :: "request_t \<Rightarrow> string list \<Rightarrow> request_t" where
  "request_fields h ts = (case ts of
     [] \<Rightarrow> h
   | [m] \<Rightarrow> h\<lparr>r_method_str := str_store (r_method_str h) (take 15 m)\<rparr>
   | [m, r] \<Rightarrow> h\<lparr>r_method_str := str_store (r_method_str h) (take 15 m), r_resource_str := str_store (r_resource_str h) (take 255 r)\<rparr>
   | m # r # _ \<Rightarrow> h\<lparr>r_method_str := str_store (r_method_str h) (take 15 m), r_resource_str := str_store (r_resource_str h) (take 255 r),
       r_protocol_str := str_store (r_protocol_str h) (take 15 r)\<rparr>)"

lemma parse_request_line_eq:
  assumes ok: "rq_ok h" and al: "generous al" and nf: "nul_free line" and pc: "CHR ''%'' \<notin> set line"
    and len: "length line + 1 \<le> PTRDIFF_MAX"
  shows "parse_request_line al h line = Ok (3 \<le> length (tokens blanks line), request_fields h (tokens blanks line))"
proof -
  have dup: "strdup_ok al line" using al len by (simp add: strdup_ok_def generous_granted)
  have c0: "cstr (drop 0 (line @ [NUL])) = Ok line" using nf by simp
  have caps: "str_cap 16 (r_method_str h)" "str_cap 256 (r_resource_str h)" "str_cap 16 (r_protocol_str h)"
    using ok by (auto simp: rq_ok_def)
  have tk: "CHR ''%'' \<notin> set t" "nul_free t" if "t \<in> set (tokens blanks line)" for t
    using tokens_nul_free(1) [OF that] pc nul_free_subset [OF nf] by auto
  note sets = caps [THEN set_string_cap(1)]
  note eq = parse_request_line_def request_fields_def dup
  show ?thesis
  proof (cases "tokens blanks line")
    case Nil
    then show ?thesis using strtok_r_tokens(1) [OF c0 Nil] by (simp add: eq)
  next
    case C1: (Cons m ts)
    obtain m1 p1 s1 where s1: "strtok_r blanks (line @ [NUL]) 0 = Ok (m1, Some (m, p1))" "cstr (drop p1 m1) = Ok s1" "tokens blanks s1 = ts"
      using strtok_r_tokens(2) [OF c0 C1 blanks_no_nul] by auto
    note f1 = sets(1) [OF tk [of m]]
    show ?thesis
    proof (cases ts)
      case Nil
      then show ?thesis using s1 C1 f1 strtok_r_tokens(1) [OF s1(2)] by (simp add: eq)
    next
      case C2: (Cons r us)
      obtain m2 p2 s2 where s2: "strtok_r blanks m1 p1 = Ok (m2, Some (r, p2))" "cstr (drop p2 m2) = Ok s2" "tokens blanks s2 = us"
        using strtok_r_tokens(2) [OF s1(2) _ blanks_no_nul, of r us] s1(3) C2 by auto
      note f2 = f1 sets(2,3) [OF tk [of r]]
      show ?thesis
      proof (cases us)
        case Nil
        then show ?thesis using s1 s2 C1 C2 f2 strtok_r_tokens(1) [OF s2(2)] by (simp add: eq)
      next
        case C3: (Cons pr vs)
        obtain m3 p3 where "strtok_r blanks m2 p2 = Ok (m3, Some (pr, p3))"
          using strtok_r_tokens(2) [OF s2(2) _ blanks_no_nul, of pr vs] s2(3) C3 by auto
        then show ?thesis using s1 s2 C1 C2 C3 f2 by (simp add: eq)
      qed
    qed
  qed
qed

lemma request_fields_ok:
  assumes ok: "rq_ok h" and ts: "\<forall>t \<in> set ts. nul_free t \<and> CHR ''%'' \<notin> set t"
  shows "rq_ok (request_fields h ts)" and "r_state (request_fields h ts) = r_state h" and "r_line (request_fields h ts) = r_line h"
    and "absq (request_fields h ts) = (case ts of
          [] \<Rightarrow> absq h
        | [m] \<Rightarrow> absq h\<lparr>q_method := take 15 m\<rparr>
        | [m, r] \<Rightarrow> absq h\<lparr>q_method := take 15 m, q_resource := take 255 r\<rparr>
        | m # r # p # _ \<Rightarrow> absq h\<lparr>q_method := take 15 m, q_resource := take 255 r, q_protocol := take 15 r\<rparr>)"
proof -
  have caps: "str_cap 16 (r_method_str h)" "str_cap 256 (r_resource_str h)" "str_cap 16 (r_protocol_str h)"
    using ok by (auto simp: rq_ok_def)
  have st: "str_cap 16 (str_store (r_method_str h) (take 15 t))" "str_val (str_store (r_method_str h) (take 15 t)) = take 15 t"
    "str_cap 256 (str_store (r_resource_str h) (take 255 t))" "str_val (str_store (r_resource_str h) (take 255 t)) = take 255 t"
    "str_cap 16 (str_store (r_protocol_str h) (take 15 t))" "str_val (str_store (r_protocol_str h) (take 15 t)) = take 15 t"
    if "t \<in> set ts" for t
    using caps [THEN set_string_cap(2)] caps [THEN set_string_cap(3)] ts that by fastforce+
  show "rq_ok (request_fields h ts)" using ok st by (auto simp: request_fields_def rq_ok_def split: list.split)
  show "r_state (request_fields h ts) = r_state h" "r_line (request_fields h ts) = r_line h"
    by (simp_all add: request_fields_def split: list.split)
  show "absq (request_fields h ts) = (case ts of
          [] \<Rightarrow> absq h
        | [m] \<Rightarrow> absq h\<lparr>q_method := take 15 m\<rparr>
        | [m, r] \<Rightarrow> absq h\<lparr>q_method := take 15 m, q_resource := take 255 r\<rparr>
        | m # r # p # _ \<Rightarrow> absq h\<lparr>q_method := take 15 m, q_resource := take 255 r, q_protocol := take 15 r\<rparr>)"
    using st by (simp add: request_fields_def absq_def split: list.split)
qed

lemma parse_request_line_refines:
  assumes ok: "rq_ok h" and al: "generous al" and nf: "nul_free line" and pc: "CHR ''%'' \<notin> set line"
    and len: "length line + 1 \<le> PTRDIFF_MAX"
  shows "\<exists>h'. parse_request_line al h line = Ok (3 \<le> length (tokens blanks line), h') \<and> rq_ok h'
     \<and> r_state h' = r_state h \<and> r_line h' = r_line h
     \<and> absq h' = (case tokens blanks line of
          [] \<Rightarrow> absq h
        | [m] \<Rightarrow> absq h\<lparr>q_method := take 15 m\<rparr>
        | [m, r] \<Rightarrow> absq h\<lparr>q_method := take 15 m, q_resource := take 255 r\<rparr>
        | m # r # p # _ \<Rightarrow> absq h\<lparr>q_method := take 15 m, q_resource := take 255 r, q_protocol := take 15 r\<rparr>)"
proof -
  have "\<forall>t \<in> set (tokens blanks line). nul_free t \<and> CHR ''%'' \<notin> set t"
    using tokens_nul_free(1) pc nul_free_subset [OF nf] by blast
  from request_fields_ok [OF ok this] show ?thesis unfolding parse_request_line_eq [OF assms] by blast
qed

lemma rq_add_request_line:
  assumes ok: "rq_ok h" and al: "generous al" and st: "r_state h = ST_START" and safe: "line_safe (absq h) line"
  shows "\<exists>h'. rq_add_line al h line = Ok h' \<and> rq_ok h' \<and> absq h' = aadd_line line (absq h)"
proof -
  have q: "q_state (absq h) = ST_START" using st by (simp add: absq_def)
  have s: "nul_free line" "CHR ''%'' \<notin> set line" "length line + 1 \<le> PTRDIFF_MAX"
    using safe q by (auto simp: line_safe_def)
  let ?ts = "tokens blanks line"
  obtain h1 where h1: "parse_request_line al h line = Ok (3 \<le> length ?ts, h1)" "rq_ok h1"
    "r_state h1 = ST_START" "r_line h1 = r_line h"
    "absq h1 = (case ?ts of [] \<Rightarrow> absq h | [m] \<Rightarrow> absq h\<lparr>q_method := take 15 m\<rparr>
        | [m, r] \<Rightarrow> absq h\<lparr>q_method := take 15 m, q_resource := take 255 r\<rparr>
        | m # r # p # _ \<Rightarrow> absq h\<lparr>q_method := take 15 m, q_resource := take 255 r, q_protocol := take 15 r\<rparr>)"
    using parse_request_line_refines [OF ok al s] st by auto
  show ?thesis
  proof (cases "3 \<le> length ?ts")
    case False
    have "rq_ok (h1\<lparr>r_error := True\<rparr>)" "absq (h1\<lparr>r_error := True\<rparr>) = absq h1\<lparr>q_error := True\<rparr>"
      using h1(2) by (simp_all add: rq_ok_def absq_def)
    moreover have "aadd_line line (absq h) = absq h1\<lparr>q_error := True\<rparr>"
      using False h1(5) q by (auto simp: aadd_line_def arequest_line_def split: list.splits)
    ultimately show ?thesis
      using False h1(1) st by (simp add: rq_add_line_def)
  next
    case True
    let ?m = "(r_line h)[0 := NUL]"
    let ?h2 = "h1\<lparr>r_state := ST_HEADER, r_line := ?m\<rparr>"
    obtain c0 cs where line0: "r_line h = c0 # cs"
      using h1(2,4) by (cases "r_line h") (auto simp: rq_ok_def)
    have len: "length (r_line h) = 4096" using ok by (simp add: rq_ok_def)
    have "rq_ok ?h2" "absq ?h2 = absq h1\<lparr>q_state := ST_HEADER, q_pending := []\<rparr>"
      using h1(2,4) len by (simp_all add: rq_ok_def absq_def line0 line_text_def)
    moreover have "aadd_line line (absq h) = absq h1\<lparr>q_state := ST_HEADER, q_pending := []\<rparr>"
      using True h1(5) q by (auto simp: aadd_line_def arequest_line_def split: list.splits)
    moreover have "mem_set (r_line h1) 0 NUL = Ok ?m"
      using h1(4) len by (simp add: mem_set_def)
    ultimately show ?thesis
      using True h1(1) st by (simp add: rq_add_line_def)
  qed
qed

lemma rq_add_line_refines:
  assumes "rq_ok h" and "generous al" and "line_safe (absq h) line"
  shows "\<exists>h'. rq_add_line al h line = Ok h' \<and> rq_ok h' \<and> absq h' = aadd_line line (absq h)"
proof (cases "r_state h")
  case ST_ERROR
  then show ?thesis using assms(1) by (simp add: rq_add_line_def aadd_line_def absq_def)
qed (use rq_add_request_line [OF assms(1,2) _ assms(3)] rq_add_header_line [OF assms(1,2) _ assms(3)] in blast)+

section \<open>A whole request\<close>

fun rq_add_lines :: "allocator \<Rightarrow> string list \<Rightarrow> request_t \<Rightarrow> request_t cres" where
  "rq_add_lines al [] h = Ok h"
| "rq_add_lines al (l # ls) h = bindr (rq_add_line al h l) (rq_add_lines al ls)"

fun aadd_lines :: "string list \<Rightarrow> areq \<Rightarrow> areq" where
  "aadd_lines [] a = a"
| "aadd_lines (l # ls) a = aadd_lines ls (aadd_line l a)"

lemma rq_add_lines_refines:
  assumes "rq_ok h" and "generous al" and "lines_safe (absq h) ls"
  shows "\<exists>h'. rq_add_lines al ls h = Ok h' \<and> rq_ok h' \<and> absq h' = aadd_lines ls (absq h)"
  using assms
proof (induction ls arbitrary: h)
  case Nil
  then show ?case by simp
next
  case (Cons l ls)
  then obtain h1 where h1: "rq_add_line al h l = Ok h1" "rq_ok h1" "absq h1 = aadd_line l (absq h)"
    using rq_add_line_refines [of h al l] by auto
  then show ?case using Cons.IH [of h1] Cons.prems by auto
qed

lemma rq_create_ok:
  assumes "generous al"
  shows "\<exists>h. rq_create al = Ok (Some h) \<and> rq_ok h \<and> absq h = areq_init"
proof -
  have g: "granted al k" if "k \<le> 5000" for k
    using assms that by (simp add: generous_granted PTRDIFF_MAX_def)
  have init: "\<exists>s. str_init (junk_text al n) n = Ok s \<and> str_cap n s \<and> str_val s = []"
    if "n \<in> {16, 32, 64, 256}" for n
    using str_init_spec [of "junk_text al n" n] that by (auto simp: str_cap_def SIZE_MOD_def)
  obtain s16 s32 s64 s256 where
    "str_init (junk_text al 16) 16 = Ok s16" "str_cap 16 s16" "str_val s16 = []"
    "str_init (junk_text al 32) 32 = Ok s32" "str_cap 32 s32" "str_val s32 = []"
    "str_init (junk_text al 64) 64 = Ok s64" "str_cap 64 s64" "str_val s64 = []"
    "str_init (junk_text al 256) 256 = Ok s256" "str_cap 256 s256" "str_val s256 = []"
    using init [of 16] init [of 32] init [of 64] init [of 256] by auto
  moreover from this have "length (s_buffer s64) = 64" "s_capacity s64 = 64"
    by (auto simp: str_cap_def str_ok_def)
  ultimately show ?thesis
    using g [of sizeof_request_t] g [of LINE_BUFFER_SIZE]
    by (simp add: rq_create_def rq_ok_def absq_def areq_init_def sizeof_request_t_def LINE_BUFFER_SIZE_def)
qed

section \<open>The answer\<close>

datatype verdict = V_101 | V_405 | V_403 | V_400 | V_404 | V_426

text \<open>The decision of \<open>rq_analyze\<close>, on plain texts.\<close>

definition averdict :: "(string \<Rightarrow> string \<Rightarrow> bool) \<Rightarrow> jsconf_t \<Rightarrow> areq \<Rightarrow> verdict" where
  "averdict fnm conf a =
     (if \<not> strcaseeq (q_method a) ''GET'' then V_405
      else if \<not> config_check_origin fnm conf (q_origin a) then V_403
      else if ''xmpp'' \<notin> set (q_protocols a) then V_400
      else if q_key a = [] then V_400
      else if cf_host conf \<noteq> None \<and> the (cf_host conf) \<noteq> q_host a then V_400
      else if \<not> q_fl_upgrade a then V_400
      else if \<not> q_fl_connection a then V_400
      else if cf_resource conf \<noteq> None \<and> \<not> strcaseeq (q_resource a) (the (cf_resource conf)) then V_404
      else if q_version a \<noteq> ''13'' then V_426
      else V_101)"

definition accept_key :: "(byte list \<Rightarrow> byte list) \<Rightarrow> string \<Rightarrow> string" where
  "accept_key sha1 key = b64 (sha1 (map byte_of_char (key @ MAGIC_STRING)))"

definition answer :: "(byte list \<Rightarrow> byte list) \<Rightarrow> areq \<Rightarrow> verdict \<Rightarrow> string" where
  "answer sha1 a v =
     (case v of
        V_405 \<Rightarrow> resp_405 | V_403 \<Rightarrow> resp_403 | V_400 \<Rightarrow> resp_400 | V_404 \<Rightarrow> resp_404 | V_426 \<Rightarrow> resp_426
      | V_101 \<Rightarrow> ''HTTP/1.1 101 Switching Protocols'' @ CRLF @ ''Upgrade: websocket'' @ CRLF
           @ ''Connection: '' @ q_connection a @ CRLF
           @ ''Sec-WebSocket-Accept: '' @ accept_key sha1 (q_key a) @ CRLF
           @ ''Sec-WebSocket-Protocol: xmpp'' @ CRLF @ CRLF)"

lemma set_b64: "set (b64 xs) \<subseteq> insert CHR ''='' (set encoding_table)"
proof -
  have e: "enc k \<in> set encoding_table" if "k < 64" for k using that by (simp flip: encoding_table_nth)
  show ?thesis
  proof (induction xs rule: b64.induct)
    case (2 a)
    then show ?case using e quad_digits(1) [of a] quad_digits(2) [of a 0] by simp
  next
    case (3 a b)
    then show ?case using e quad_digits(1) [of a] quad_digits(2) [of a b] quad_digits(3) [of b 0] by simp
  next
    case (4 a b c xs)
    then show ?case
      using e quad_digits(1) [of a] quad_digits(2) [of a b] quad_digits(3) [of b c] quad_digits(4) [of c] by simp
  qed simp
qed

lemma nul_free_b64: "nul_free (b64 xs)"
  using set_b64 [of xs] encoding_table_plain by (auto simp: nul_free_def)

lemma rq_get_access_eq:
  assumes "nul_free key" and "length key < 64" and "\<And>xs. length (sha1 xs) = 20" and "str_cap 64 out"
  shows "\<exists>out'. rq_get_access sha1 al key out = Ok out' \<and> str_ok out' \<and> str_val out' = accept_key sha1 key"
proof -
  let ?t = "key @ MAGIC_STRING"
  have magic: "nul_free MAGIC_STRING" "length MAGIC_STRING = 36"
    by (simp_all add: MAGIC_STRING_def)
  have "vformat ''%s%s'' [key, MAGIC_STRING] = Ok ?t" by simp
  then have "vsnprintf (junk_text al 1024) 1024 ''%s%s'' [key, MAGIC_STRING]
      = Ok (?t @ NUL # drop (Suc (length ?t)) (junk_text al 1024))"
    using assms(2) magic by (simp add: vsnprintf_def mem_write_def)
  moreover have "cstr (?t @ NUL # drop (Suc (length ?t)) (junk_text al 1024)) = Ok ?t"
    using assms(1) magic by (intro cstr_terminated) simp
  moreover obtain out' where "base64_encode (sha1 (map byte_of_char ?t)) 20 out = Ok out'" "str_ok out'"
    "str_val out' = accept_key sha1 key"
    using base64_encode_text [of out "sha1 (map byte_of_char ?t)"] assms(3,4)
    by (auto simp: str_cap_def INT_MAX_def accept_key_def)
  ultimately show ?thesis
    unfolding rq_get_access_def by (metis (no_types, lifting) bindr.simps(1))
qed

lemma refuse_eq:
  assumes "str_cap 1024 response" and "text \<in> {resp_405, resp_403, resp_400, resp_404, resp_426}"
  shows "\<exists>r. refuse response text = Ok (False, r) \<and> str_ok r \<and> str_val r = text"
proof -
  have t: "CHR ''%'' \<notin> set text" "nul_free text" "length text < 1023"
    using assms(2) by (auto simp: resp_405_def resp_403_def resp_400_def resp_404_def resp_426_def CRLF_def)
  then show ?thesis
    using set_string_cap [OF assms(1) t(1,2)] by (auto simp: refuse_def str_cap_def)
qed

lemma protocols_contain_eq:
  "\<forall>x \<in> set ps. str_ok x \<Longrightarrow> protocols_contain ps name = Ok (name \<in> set (map str_val ps))"
  by (induction ps) (auto simp: str_get_string_def str_ok_def)

lemma cstr_cap: "str_cap n s \<Longrightarrow> cstr (str_get_string s) = Ok (str_val s)"
  by (simp add: str_cap_def str_ok_def str_get_string_def)

lemma str_cap_val: "str_cap n s \<Longrightarrow> length (str_val s) < n \<and> nul_free (str_val s)"
  by (auto simp: str_cap_def elim: str_okE)

lemma accept_answer_eq:
  assumes "str_cap 1024 response" and "nul_free c" and "length c < 64" and "nul_free k" and "length k < 64"
  shows "\<exists>r. str_set_string response resp_101 [c, k] = Ok r \<and> str_ok r
     \<and> str_val r = ''HTTP/1.1 101 Switching Protocols'' @ CRLF @ ''Upgrade: websocket'' @ CRLF
           @ ''Connection: '' @ c @ CRLF @ ''Sec-WebSocket-Accept: '' @ k @ CRLF
           @ ''Sec-WebSocket-Protocol: xmpp'' @ CRLF @ CRLF"
proof -
  let ?out = "''HTTP/1.1 101 Switching Protocols'' @ CRLF @ ''Upgrade: websocket'' @ CRLF
           @ ''Connection: '' @ c @ CRLF @ ''Sec-WebSocket-Accept: '' @ k @ CRLF
           @ ''Sec-WebSocket-Protocol: xmpp'' @ CRLF @ CRLF"
  have s: "str_ok response" "s_capacity response = 1024" using assms(1) by (auto simp: str_cap_def)
  have f: "vformat resp_101 [c, k] = Ok ?out"
    by (simp add: resp_101_def CRLF_def)
  have nf: "nul_free ?out" using assms by (simp add: CRLF_def)
  have len: "length ?out \<le> 1023" "length ?out < 1024" using assms by (simp_all add: CRLF_def)
  have "str_set_string response resp_101 [c, k] = Ok (str_store response ?out)"
    using str_set_string_formatted [OF s(1) f nf] s(2) len(1) by simp
  then show ?thesis
    using str_store_ok [OF s(1) nf] len(2) s(2) by auto
qed

lemma rq_analyze_eq:
  assumes ok: "rq_ok h" and resp: "str_cap 1024 response" and sha1: "\<And>xs. length (sha1 xs) = 20"
  shows "\<exists>r. rq_analyze fnm sha1 al h conf response = Ok (averdict fnm conf (absq h) = V_101, r)
     \<and> str_ok r \<and> str_val r = answer sha1 (absq h) (averdict fnm conf (absq h))"
proof -
  have caps: "str_cap 16 (r_method_str h)" "str_cap 256 (r_resource_str h)" "str_cap 256 (r_host_str h)"
    "str_cap 64 (r_connection_str h)" "str_cap 64 (r_ws_key_str h)" "str_cap 32 (r_ws_version_str h)"
    "str_cap 256 (r_origin_str h)" "\<forall>x \<in> set (r_protocols h). str_ok x"
    using ok by (auto simp: rq_ok_def)
  obtain acc where acc: "str_init (junk_text al 64) 64 = Ok acc" "str_cap 64 acc"
    by (rule str_init_junk [of 64]) (auto simp: SIZE_MOD_def str_cap_def)
  obtain acc' where acc': "rq_get_access sha1 al (str_val (r_ws_key_str h)) acc = Ok acc'" "str_ok acc'"
    "str_val acc' = accept_key sha1 (str_val (r_ws_key_str h))"
    using rq_get_access_eq [of "str_val (r_ws_key_str h)" sha1 acc al] sha1 acc(2) str_cap_val [OF caps(5)]
    by blast
  have k: "nul_free (accept_key sha1 x)" "length (accept_key sha1 x) < 64" for x
    by (simp_all add: accept_key_def nul_free_b64 length_b64 sha1)
  have cacc: "cstr (str_get_string acc') = Ok (accept_key sha1 (str_val (r_ws_key_str h)))"
    using acc' by (simp add: str_ok_def str_get_string_def)
  obtain r where r: "str_set_string response resp_101 [str_val (r_connection_str h), accept_key sha1 (str_val (r_ws_key_str h))] = Ok r"
    "str_ok r" "str_val r = answer sha1 (absq h) V_101"
    using accept_answer_eq [OF resp _ _ k] str_cap_val [OF caps(4)] by (auto simp: answer_def absq_def)
  note texts = str_nocase_cap [OF caps(1)] str_nocase_cap [OF caps(2)] cstr_cap [OF caps(3)] cstr_cap [OF caps(4)]
    cstr_cap [OF caps(5)] cstr_cap [OF caps(6)] cstr_cap [OF caps(7)] protocols_contain_eq [OF caps(8)]
  note an = rq_analyze_def rq_get_origin_def rq_protocols_contains_def rq_get_websocket_key_def rq_get_host_def
    rq_get_websocket_version_def averdict_def
  have res: "(case cf_resource conf of None \<Rightarrow> Ok True | Some res \<Rightarrow> str_is_equal_nocase (r_resource_str h) res)
      = Ok (\<not> (cf_resource conf \<noteq> None \<and> \<not> strcaseeq (str_val (r_resource_str h)) (the (cf_resource conf))))"
    by (auto simp: texts split: option.splits)
  have q: "q_method (absq h) = str_val (r_method_str h)" "q_origin (absq h) = str_val (r_origin_str h)"
    "q_protocols (absq h) = map str_val (r_protocols h)" "q_key (absq h) = str_val (r_ws_key_str h)"
    "q_host (absq h) = str_val (r_host_str h)" "q_fl_upgrade (absq h) = r_fl_upgrade_found h"
    "q_fl_connection (absq h) = r_fl_connection_found h" "q_resource (absq h) = str_val (r_resource_str h)"
    "q_version (absq h) = str_val (r_ws_version_str h)"
    by (simp_all add: absq_def)
  let ?v = "averdict fnm conf (absq h)"
  have eq: "rq_analyze fnm sha1 al h conf response =
      (case ?v of V_101 \<Rightarrow> Ok (True, r) | V_405 \<Rightarrow> refuse response resp_405 | V_403 \<Rightarrow> refuse response resp_403
       | V_400 \<Rightarrow> refuse response resp_400 | V_404 \<Rightarrow> refuse response resp_404 | V_426 \<Rightarrow> refuse response resp_426)"
    by (simp add: an acc(1) texts res q acc'(1) cacc r(1))
  show ?thesis
  proof (cases ?v)
    case V_101
    then show ?thesis using eq r by simp
  qed (use eq refuse_eq [OF resp] in \<open>auto simp: answer_def\<close>)
qed

text \<open>C5: for every request whose lines are harmless, the parser and \<open>rq_analyze\<close> together answer exactly
  what the decision table says of the plain request: the status, and for an accepted request the
  \<open>Sec-WebSocket-Accept\<close> key of RFC 6455 for the key the client sent. Nothing is read or written outside
  an array. SHA-1 is only assumed to return 20 bytes.\<close>

theorem handshake_answer:
  assumes "generous al" and "\<And>xs. length (sha1 xs) = 20" and "lines_safe areq_init ls"
    and "str_ok response" and "s_capacity response = 1024"
  shows "\<exists>h h' r. rq_create al = Ok (Some h) \<and> rq_add_lines al ls h = Ok h'
     \<and> rq_done h' = q_done (aadd_lines ls areq_init) \<and> rq_is_error h' = q_error (aadd_lines ls areq_init)
     \<and> rq_analyze fnm sha1 al h' conf response = Ok (averdict fnm conf (aadd_lines ls areq_init) = V_101, r)
     \<and> str_val r = answer sha1 (aadd_lines ls areq_init) (averdict fnm conf (aadd_lines ls areq_init))"
proof -
  obtain h where h: "rq_create al = Ok (Some h)" "rq_ok h" "absq h = areq_init"
    using rq_create_ok [OF assms(1)] by blast
  obtain h' where h': "rq_add_lines al ls h = Ok h'" "rq_ok h'" "absq h' = aadd_lines ls areq_init"
    using rq_add_lines_refines [OF h(2) assms(1)] assms(3) h(3) by auto
  have "str_cap 1024 response" using assms(4,5) by (simp add: str_cap_def)
  with assms(2) obtain r where "rq_analyze fnm sha1 al h' conf response = Ok (averdict fnm conf (absq h') = V_101, r)"
    "str_val r = answer sha1 (absq h') (averdict fnm conf (absq h'))"
    using rq_analyze_eq [OF h'(2), of response sha1 fnm al conf] by blast
  moreover have "rq_done h' = q_done (absq h')" "rq_is_error h' = q_error (absq h')"
    by (simp_all add: rq_done_def rq_is_error_def absq_def)
  ultimately show ?thesis using h h' by auto
qed

definition sample_request :: "string list" where
  "sample_request = [''GET /xmpp HTTP/1.1'', ''Host: example.com'', ''Upgrade: websocket'',
     ''Connection: keep-alive,'', '' Upgrade'', ''Sec-WebSocket-Key: abc'', ''Sec-WebSocket-Protocol: chat, xmpp'',
     ''Sec-WebSocket-Version: 13'', []]"

lemma sample_request_safe: "lines_safe areq_init sample_request"
  by code_simp

lemma sample_request_read:
  "averdict (=) empty_conf (aadd_lines sample_request areq_init) = V_101"
  "q_key (aadd_lines sample_request areq_init) = ''abc''"
  by code_simp+

lemma accept_response_ok: "str_ok (str_of 1024 [])" "s_capacity (str_of 1024 []) = 1024"
  by (rule str_of_ok; simp add: SIZE_MOD_def) (simp add: str_of_def)

theorem handshake_answer_witness:
  "\<exists>h h' r. rq_create zero_alloc = Ok (Some h) \<and> rq_add_lines zero_alloc sample_request h = Ok h'
     \<and> rq_analyze (=) (\<lambda>_. replicate 20 0) zero_alloc h' empty_conf (str_of 1024 []) = Ok (True, r)
     \<and> str_val r = answer (\<lambda>_. replicate 20 0) (aadd_lines sample_request areq_init) V_101"
proof -
  have "length ((\<lambda>_. replicate 20 0 :: byte list) xs) = 20" for xs :: "byte list" by simp
  from handshake_answer [OF generous_zero_alloc this sample_request_safe accept_response_ok, of "(=)" empty_conf]
  show ?thesis by (auto simp: sample_request_read)
qed

section \<open>Headers of a request\<close>

text \<open>
  A header with its continuation lines, as the client sends it and as RFC 7230 reads it. Each
  continuation line starts with one blank, which is dropped.
\<close>

type_synonym header = "string \<times> string \<times> string list"

fun physical :: "header \<Rightarrow> string list" where
  "physical (k, v, cs) = (k @ CHR '':'' # v) # map (\<lambda>c. CHR '' '' # c) cs"

fun logical :: "header \<Rightarrow> string" where
  "logical (k, v, cs) = k @ CHR '':'' # v @ concat cs"

fun good_header :: "header \<Rightarrow> bool" where
  "good_header (k, v, cs) \<longleftrightarrow> k \<noteq> [] \<and> \<not> isspace (hd k) \<and> CHR '':'' \<notin> set k
     \<and> nul_free (logical (k, v, cs)) \<and> length (logical (k, v, cs)) < 4095
     \<and> (known_header k \<longrightarrow> CHR ''%'' \<notin> set (v @ concat cs))
     \<and> (strcaseeq k ''connection'' \<longrightarrow> names_upgrade (field 64 (v @ concat cs)))"

fun apply_header :: "header \<Rightarrow> areq \<Rightarrow> areq" where
  "apply_header (k, v, cs) a = aprocess_header k (v @ concat cs) a"

fun apply_headers :: "header list \<Rightarrow> areq \<Rightarrow> areq" where
  "apply_headers [] a = a"
| "apply_headers (x # xs) a = apply_headers xs (apply_header x a)"

lemma aprocess_header_frame [simp]:
  "aprocess_header k v (a\<lparr>q_pending := p\<rparr>) = (aprocess_header k v a)\<lparr>q_pending := p\<rparr>"
  "aprocess_header k v (a\<lparr>q_done := d\<rparr>) = (aprocess_header k v a)\<lparr>q_done := d\<rparr>"
  "q_state (aprocess_header k v a) = q_state a" "q_pending (aprocess_header k v a) = q_pending a"
  "q_done (aprocess_header k v a) = q_done a" "q_error (aprocess_header k v a) = q_error a"
  by (simp_all add: aprocess_header_def)

lemma aflush_logical:
  assumes "good_header x" and "q_pending a = logical x"
  shows "aflush a = (True, apply_header x a)" and "header_safe (logical x)"
proof -
  obtain k v cs where x: "x = (k, v, cs)" by (cases x)
  have "strchr_split CHR '':'' (logical x) = Some (k, v @ concat cs)"
    using assms(1) by (simp add: x strchr_split_Some)
  then show "aflush a = (True, apply_header x a)" "header_safe (logical x)"
    using assms by (auto simp: x aflush_def header_safe_def)
qed

lemma cont_lines:
  assumes "q_state a = ST_HEADER" and "nul_free (q_pending a @ concat cs)"
    and "length (q_pending a @ concat cs) < 4095"
  shows "aadd_lines (map (\<lambda>c. CHR '' '' # c) cs) a = a\<lparr>q_pending := q_pending a @ concat cs\<rparr>"
    and "lines_safe a (map (\<lambda>c. CHR '' '' # c) cs)"
proof -
  have sp: "isspace CHR '' ''" by (simp add: isspace_def)
  have "aadd_lines (map (\<lambda>c. CHR '' '' # c) cs) a = a\<lparr>q_pending := q_pending a @ concat cs\<rparr>
      \<and> lines_safe a (map (\<lambda>c. CHR '' '' # c) cs)"
    using assms
  proof (induction cs arbitrary: a)
    case Nil
    then show ?case by simp
  next
    case (Cons c cs)
    let ?a = "a\<lparr>q_pending := q_pending a @ c\<rparr>"
    have "aadd_line (CHR '' '' # c) a = ?a" using Cons.prems(1) sp by (simp add: aadd_line_def)
    moreover have "line_safe a (CHR '' '' # c)"
      using Cons.prems sp by (simp add: line_safe_def PTRDIFF_MAX_def)
    ultimately show ?case using Cons.IH [of ?a] Cons.prems by simp
  qed
  then show "aadd_lines (map (\<lambda>c. CHR '' '' # c) cs) a = a\<lparr>q_pending := q_pending a @ concat cs\<rparr>"
    "lines_safe a (map (\<lambda>c. CHR '' '' # c) cs)" by auto
qed

lemma aadd_lines_append: "aadd_lines (xs @ ys) a = aadd_lines ys (aadd_lines xs a)"
  by (induction xs arbitrary: a) auto

lemma lines_safe_append: "lines_safe a (xs @ ys) \<longleftrightarrow> lines_safe a xs \<and> lines_safe (aadd_lines xs a) ys"
  by (induction xs arbitrary: a) auto

text \<open>A header is stored when the next one starts: what was pending is applied, the new one waits.\<close>

lemma header_lines:
  assumes st: "q_state a = ST_HEADER" and x: "good_header x"
    and fl: "aflush a = (True, b)" "header_safe (q_pending a)" and b: "q_state b = ST_HEADER"
  shows "aadd_lines (physical x) a = b\<lparr>q_pending := logical x\<rparr>" and "lines_safe a (physical x)"
proof -
  obtain k v cs where kvs: "x = (k, v, cs)" by (cases x)
  let ?l = "k @ CHR '':'' # v"
  have h: "?l \<noteq> []" "\<not> isspace (hd ?l)" using x by (auto simp: kvs)
  have add: "aadd_line ?l a = b\<lparr>q_pending := ?l\<rparr>"
    using st fl h by (simp add: aadd_line_def)
  have safe: "line_safe a ?l"
    using st x fl(2) h by (auto simp: kvs line_safe_def PTRDIFF_MAX_def)
  have c: "q_state (b\<lparr>q_pending := ?l\<rparr>) = ST_HEADER"
    "nul_free (q_pending (b\<lparr>q_pending := ?l\<rparr>) @ concat cs)"
    "length (q_pending (b\<lparr>q_pending := ?l\<rparr>) @ concat cs) < 4095"
    using b x by (auto simp: kvs)
  show "aadd_lines (physical x) a = b\<lparr>q_pending := logical x\<rparr>" "lines_safe a (physical x)"
    using cont_lines [OF c] add safe by (simp_all add: kvs)
qed

lemma apply_header_frame [simp]:
  "q_state (apply_header x a) = q_state a" "apply_header x (a\<lparr>q_pending := p\<rparr>) = (apply_header x a)\<lparr>q_pending := p\<rparr>"
  "apply_header x (a\<lparr>q_done := d\<rparr>) = (apply_header x a)\<lparr>q_done := d\<rparr>"
  "q_error (apply_header x a) = q_error a"
  by (cases x; simp)+

lemma apply_headers_frame [simp]:
  "apply_headers xs (a\<lparr>q_pending := p\<rparr>) = (apply_headers xs a)\<lparr>q_pending := p\<rparr>"
  "q_error (apply_headers xs a) = q_error a"
  by (induction xs arbitrary: a) auto

lemma headers_pending:
  assumes "q_state a = ST_HEADER" and "good_header x" and "q_pending a = logical x"
    and "\<forall>y \<in> set xs. good_header y"
  shows "aadd_lines (concat (map physical xs) @ [[]]) a
      = (apply_headers (x # xs) a)\<lparr>q_pending := logical (last (x # xs)), q_done := True\<rparr>
     \<and> lines_safe a (concat (map physical xs) @ [[]])"
  using assms
proof (induction xs arbitrary: a x)
  case Nil
  have "(apply_header x a)\<lparr>q_pending := logical x\<rparr> = apply_header x a"
    using Nil.prems(3) apply_header_frame(2) [where x = x and a = a and p = "logical x"] by (cases a) simp
  then have "aadd_line [] a = (apply_header x a)\<lparr>q_pending := logical x, q_done := True\<rparr>"
    using aflush_logical(1) [OF Nil.prems(2), of "a\<lparr>q_done := True\<rparr>"] Nil.prems
    by (simp add: aadd_line_def)
  moreover have "line_safe a []"
    using aflush_logical(2) [OF Nil(2)] Nil by (simp add: line_safe_def PTRDIFF_MAX_def)
  ultimately show ?case by simp
next
  case (Cons y ys)
  let ?b = "apply_header x a"
  have y: "good_header y" using Cons.prems(4) by simp
  have fl: "aflush a = (True, ?b)" "header_safe (q_pending a)"
    using aflush_logical [OF Cons.prems(2), of a] Cons.prems(3) by auto
  note hl = header_lines [OF Cons.prems(1) y fl, simplified, OF Cons.prems(1)]
  have "aadd_lines (concat (map physical ys) @ [[]]) (?b\<lparr>q_pending := logical y\<rparr>)
      = (apply_headers (y # ys) (?b\<lparr>q_pending := logical y\<rparr>))\<lparr>q_pending := logical (last (y # ys)), q_done := True\<rparr>
     \<and> lines_safe (?b\<lparr>q_pending := logical y\<rparr>) (concat (map physical ys) @ [[]])"
    using Cons.IH [of "?b\<lparr>q_pending := logical y\<rparr>" y] Cons.prems y by simp
  then show ?case
    using hl by (simp add: aadd_lines_append lines_safe_append)
qed

text \<open>The request line, on plain texts.\<close>

lemma aadd_request_line:
  assumes "tokens [CHR '' '', CHR 0x09] line = m # r # p # rest"
  shows "aadd_line line areq_init
     = areq_init\<lparr>q_method := take 15 m, q_resource := take 255 r, q_protocol := take 15 r, q_state := ST_HEADER\<rparr>"
  using assms by (simp add: aadd_line_def arequest_line_def areq_init_def)

text \<open>The request a client means: the method, the resource and the protocol of its request line, each cut to its
  array, and what its headers say.\<close>

definition meant_request :: "string \<Rightarrow> string \<Rightarrow> string \<Rightarrow> header list \<Rightarrow> areq" where
  "meant_request m r p hs = apply_headers hs
     (areq_init\<lparr>q_method := take 15 m, q_resource := take 255 r, q_protocol := take 15 p, q_state := ST_HEADER\<rparr>)"

lemma apply_headers_protocol: "apply_headers xs (a\<lparr>q_protocol := p\<rparr>) = (apply_headers xs a)\<lparr>q_protocol := p\<rparr>"
proof (induction xs arbitrary: a)
  case (Cons x xs)
  have "apply_header x (a\<lparr>q_protocol := p\<rparr>) = (apply_header x a)\<lparr>q_protocol := p\<rparr>"
    by (cases x) (simp add: aprocess_header_def)
  then show ?case using Cons.IH by simp
qed simp

text \<open>What the code makes of the request line: the resource is stored a second time where the protocol belongs.\<close>

lemma meant_request_misread:
  "apply_headers hs (areq_init\<lparr>q_method := take 15 m, q_resource := take 255 r, q_protocol := take 15 r, q_state := ST_HEADER\<rparr>)
     = (meant_request m r p hs)\<lparr>q_protocol := take 15 r\<rparr>"
proof -
  let ?a = "areq_init\<lparr>q_method := take 15 m, q_resource := take 255 r, q_protocol := take 15 p, q_state := ST_HEADER\<rparr>"
  have "areq_init\<lparr>q_method := take 15 m, q_resource := take 255 r, q_protocol := take 15 r, q_state := ST_HEADER\<rparr>
      = ?a\<lparr>q_protocol := take 15 r\<rparr>" by simp
  then show ?thesis unfolding meant_request_def by (simp only: apply_headers_protocol)
qed



end
