(* ===== verification/Log.thy ===== *)
theory Log
  imports ParseConfig
begin

text \<open>
  \<open>log.c\<close>: the mask that \<open>logopen\<close> installs, and the messages that pass it. \<open>syslog\<close> filters by the mask before
  it formats a message, so a bad format only matters at a level that is let through.
\<close>

definition log_upto :: "log_level \<Rightarrow> nat" where
  "log_upto l = 2 ^ (log_number l + 1) - 1"

definition logopen :: "jsconf_t \<Rightarrow> nat" where
  "logopen conf = log_upto (cf_log_level conf)"

definition log_passes :: "nat \<Rightarrow> log_level \<Rightarrow> bool" where
  "log_passes msk priority \<longleftrightarrow> odd (msk div 2 ^ log_number priority)"

text \<open>What reaches the system log.\<close>

definition vsyslog :: "nat \<Rightarrow> log_level \<Rightarrow> string \<Rightarrow> string list \<Rightarrow> string option cres" where
  "vsyslog msk priority format args =
     (if log_passes msk priority then bindr (vformat format args) (\<lambda>s. Ok (Some s)) else Ok None)"

definition LOG :: "nat \<Rightarrow> log_level \<Rightarrow> string \<Rightarrow> string list \<Rightarrow> string option cres" where
  "LOG msk priority format args = vsyslog msk priority format args"

definition VLOG :: "nat \<Rightarrow> log_level \<Rightarrow> string \<Rightarrow> string list \<Rightarrow> string option cres" where
  "VLOG msk priority format args = vsyslog msk priority format args"

lemma log_passes_logopen: "log_passes (logopen conf) priority \<longleftrightarrow> priority \<le> cf_log_level conf"
  by (cases priority; cases "cf_log_level conf")
    (simp_all add: log_passes_def logopen_def log_upto_def less_eq_log_level_def)

lemma LOG_eq:
  "LOG msk priority format args
    = (if log_passes msk priority then bindr (vformat format args) (\<lambda>s. Ok (Some s)) else Ok None)"
  by (simp add: LOG_def vsyslog_def)

text \<open>A message whose format fits its arguments is never a fault.\<close>

lemma LOG_harmless:
  assumes "is_Ok (vformat format args)"
  shows "bindr (LOG msk priority format args) (\<lambda>_. r) = r"
  using assms by (cases "vformat format args") (simp_all add: LOG_eq)

end
