(* ===== verification/WsServer.thy ===== *)
theory WsServer
  imports WsStream RqHandshake Log
begin

unbundle bit_operations_syntax

text \<open>
  \<open>wsserver.c\<close>: one WebSocket connection, from the handshake over the exchange of frames to the
  closing. The callbacks that libevent calls are functions on the connection; what libevent hands
  to them (the lines and the bytes it has read, the fill of its output buffer, the event flags) is
  an argument, and what they hand to libevent (\<open>evbuffer_add\<close>) is recorded in \<open>c_output\<close>. The calls of
  \<open>LOG\<close> that print more than a fixed text are part of the model; the log itself is not recorded.

  The server knows its client, the connection manager, only through the callbacks of \<open>ws_set_cb\<close>,
  so the model is generic in them and in the type \<open>'c\<close> of the context they work on. A callback gets
  \<open>conn->message_buffer\<close>, the only field of the connection the callbacks of the program look at.
\<close>

section \<open>State\<close>

datatype ws_state = WS_ST_START | WS_ST_RECEIVING | WS_ST_CLOSING | WS_ST_CLOSED

datatype cm_state = CM_ST_START | CM_ST_CREATED | CM_ST_CLOSING | CM_ST_CLOSED

datatype ws_what = WSCB_CONNECTED | WSCB_MESSAGE | WSCB_CLOSE | WSCB_DELETE

type_synonym 'c ws_cb = "ws_what \<Rightarrow> buffer_t \<Rightarrow> 'c \<Rightarrow> 'c cres"

record 'c wsserver_t =
  s_create_cb :: "'c option cres"
  s_delete_cb :: "'c \<Rightarrow> 'c cres"
  s_cb :: "'c ws_cb option"
  s_conf :: "jsconf_t option"

record 'c wsconn_t =
  c_ws_state :: ws_state
  c_cm_state :: cm_state
  c_fl_ws_closing :: bool
  c_fl_cm_closed :: bool
  c_conf :: jsconf_t
  c_req :: request_t
  c_wsmsg :: wsmsg_t
  c_message_buffer :: buffer_t
  c_cb :: "'c ws_cb option"
  c_custom_ctx :: 'c
  c_host :: string
  c_serv :: string
  c_status :: nat
  c_output :: "byte list"

text \<open>A connection after an operation that may free it; the context is what the callback left.\<close>

datatype 'c conn = Live "'c wsconn_t" | Deleted 'c

text \<open>
  The surroundings of the server: the allocator, \<open>fnmatch\<close>, SHA-1, and the mask of the log.
\<close>

record env =
  e_al :: allocator
  e_fnm :: "string \<Rightarrow> string \<Rightarrow> bool"
  e_sha1 :: "byte list \<Rightarrow> byte list"
  e_log_mask :: nat

abbreviation e_log_info :: "env \<Rightarrow> bool" where
  "e_log_info e \<equiv> log_passes (e_log_mask e) LOG_INFO"

text \<open>What libevent has for a read callback: the lines \<open>evbuffer_readln\<close> returns until NULL, and the
  bytes \<open>evbuffer_remove\<close> takes out of the input.\<close>

record input =
  i_lines :: "char list list"
  i_data :: "byte list"

datatype bev_event =
  BEV_EVENT_READING | BEV_EVENT_WRITING | BEV_EVENT_EOF | BEV_EVENT_ERROR | BEV_EVENT_TIMEOUT | BEV_EVENT_CONNECTED

section \<open>The server\<close>

definition sizeof_wsserver_t :: nat where
  "sizeof_wsserver_t = 56"

definition sizeof_wsconn_t :: nat where
  "sizeof_wsconn_t = 248"

text \<open>The cleared structure: a call through one of its pointers is a fault.\<close>

definition zeroed_server :: "'c wsserver_t" where
  "zeroed_server = \<lparr>s_create_cb = Fault Null_Pointer, s_delete_cb = (\<lambda>_. Fault Null_Pointer), s_cb = None, s_conf = None\<rparr>"

text \<open>\<open>ws_create\<close> clears the structure before it tests the pointer. \<open>listening\<close> tells whether
  \<open>evconnlistener_new_bind\<close> gave a listener.\<close>

definition ws_create :: "allocator \<Rightarrow> bool \<Rightarrow> 'c wsserver_t option cres" where
  "ws_create al listening =
     (if \<not> granted al sizeof_wsserver_t then Fault Null_Pointer
      else if \<not> listening then Ok None
      else Ok (Some zeroed_server))"

definition ws_set_config :: "'c wsserver_t \<Rightarrow> jsconf_t option \<Rightarrow> 'c wsserver_t" where
  "ws_set_config ws conf = ws\<lparr>s_conf := conf\<rparr>"

definition ws_set_cb ::
  "'c wsserver_t \<Rightarrow> 'c option cres \<Rightarrow> ('c \<Rightarrow> 'c cres) \<Rightarrow> 'c ws_cb option \<Rightarrow> 'c wsserver_t" where
  "ws_set_cb ws create_cb delete_cb cb = ws\<lparr>s_cb := cb, s_create_cb := create_cb, s_delete_cb := delete_cb\<rparr>"

definition ws_get_cb :: "'c wsserver_t \<Rightarrow> 'c ws_cb option" where
  "ws_get_cb ws = s_cb ws"

text \<open>\<open>wsconn_create\<close>; the error paths free what was created and return NULL. \<open>bev\<close> tells whether
  \<open>bufferevent_socket_new\<close> gave a bufferevent: its result is used at the end without a test.\<close>

definition wsconn_create :: "allocator \<Rightarrow> bool \<Rightarrow> 'c wsserver_t \<Rightarrow> 'c wsconn_t option cres" where
  "wsconn_create al bev ws =
     (if \<not> granted al sizeof_wsconn_t then Ok None
      else
        bindr (rq_create al) (\<lambda>req.
        case req of None \<Rightarrow> Ok None | Some rq \<Rightarrow>
        (case s_conf ws of None \<Rightarrow> Fault Null_Pointer | Some conf \<Rightarrow>
        bindr (wsmsg_create al conf) (\<lambda>wsmsg.
        case wsmsg of None \<Rightarrow> Ok None | Some w \<Rightarrow>
        (case buffer_create al 0 of None \<Rightarrow> Ok None | Some mb \<Rightarrow>
        bindr (s_create_cb ws) (\<lambda>ctx.
        case ctx of None \<Rightarrow> Ok None | Some cx \<Rightarrow>
        if \<not> bev then Fault Null_Pointer
        else Ok (Some \<lparr>c_ws_state = WS_ST_START, c_cm_state = CM_ST_CREATED, c_fl_ws_closing = False,
              c_fl_cm_closed = True, c_conf = conf, c_req = rq, c_wsmsg = w, c_message_buffer = mb,
              c_cb = s_cb ws, c_custom_ctx = cx, c_host = [], c_serv = [], c_status = 0, c_output = []\<rparr>)))))))"

text \<open>The callback of the listener. \<open>peer\<close> is what \<open>getnameinfo\<close> gives: whether it succeeds, and the names that
  the arrays \<open>host\<close> and \<open>serv\<close> hold then.\<close>

definition ws_accept_conn_cb ::
  "env \<Rightarrow> bool \<Rightarrow> bool \<times> string \<times> string \<Rightarrow> 'c wsserver_t \<Rightarrow> 'c wsconn_t option cres" where
  "ws_accept_conn_cb e bev peer ws =
     bindr (wsconn_create (e_al e) bev ws) (\<lambda>r.
     case r of
       None \<Rightarrow>
         bindr (LOG (e_log_mask e) LOG_ERR ''wsserver.c:ws_accept_conn_cb: connection creation failed'' []) (\<lambda>_. Ok None)
     | Some conn0 \<Rightarrow>
         bindr (LOG (e_log_mask e) LOG_DEBUG ''wsserver.c:ws_accept_conn_cb: created connection'' []) (\<lambda>_.
         let conn = conn0\<lparr>c_host := fst (snd peer), c_serv := snd (snd peer)\<rparr> in
         if \<not> fst peer then
           bindr (LOG (e_log_mask e) LOG_WARNING ''wsserver.c:ws_accept_conn_cb: getnameinfo failed'' []) (\<lambda>_. Ok (Some conn))
         else
           bindr (LOG (e_log_mask e) LOG_INFO ''wsserver.c:ws_accept_conn_cb: connection from host %s:%s''
                    [c_host conn, c_serv conn]) (\<lambda>_. Ok (Some conn))))"

lemma log_texts [simp]:
  "bindr (LOG m LOG_ERR ''wsserver.c:ws_accept_conn_cb: connection creation failed'' []) (\<lambda>_. r) = r"
  "bindr (LOG m LOG_DEBUG ''wsserver.c:ws_accept_conn_cb: created connection'' []) (\<lambda>_. r) = r"
  "bindr (LOG m LOG_WARNING ''wsserver.c:ws_accept_conn_cb: getnameinfo failed'' []) (\<lambda>_. r) = r"
  "bindr (LOG m LOG_INFO ''wsserver.c:ws_accept_conn_cb: connection from host %s:%s'' [host, serv]) (\<lambda>_. r) = r"
  "bindr (LOG m LOG_INFO ''wsserver.c:ws_accept_conn_cb: (%s:%s) evbuffer_readln error'' [host, serv]) (\<lambda>_. r) = r"
  "bindr (LOG m LOG_ERR ''wsserver.c:wsconn_read_cb: closing connection'' []) (\<lambda>_. r) = r"
  by (rule LOG_harmless; simp)+

lemma ws_accept_eq:
  "ws_accept_conn_cb e bev peer ws
    = bindr (wsconn_create (e_al e) bev ws)
        (\<lambda>r. Ok (map_option (\<lambda>conn. conn\<lparr>c_host := fst (snd peer), c_serv := snd (snd peer)\<rparr>) r))"
  by (cases "wsconn_create (e_al e) bev ws") (auto simp: ws_accept_conn_cb_def Let_def split: option.splits)

text \<open>The format of \<open>wsconn_event_cb\<close> ends in \<open>%h\<close>, a conversion without its letter.\<close>

lemma event_cb_format: "vformat ''wsserver.c:wsconn_event_cb (%s:%s) events=%h'' [host, serv] = Fault Bad_Format"
  by simp

section \<open>Callbacks\<close>

definition run_cb :: "ws_what \<Rightarrow> 'c wsconn_t \<Rightarrow> 'c wsconn_t cres" where
  "run_cb what conn =
     (case c_cb conn of
        None \<Rightarrow> Fault Null_Pointer
      | Some cb \<Rightarrow> bindr (cb what (c_message_buffer conn) (c_custom_ctx conn)) (\<lambda>cx. Ok (conn\<lparr>c_custom_ctx := cx\<rparr>)))"

text \<open>The calls behind \<open>if (conn->cb != NULL)\<close>.\<close>

definition run_cb_if :: "ws_what \<Rightarrow> 'c wsconn_t \<Rightarrow> 'c wsconn_t cres" where
  "run_cb_if what conn = (if c_cb conn = None then Ok conn else run_cb what conn)"

text \<open>\<open>wsconn_delete\<close> frees the connection and then logs \<open>conn->host\<close> and \<open>conn->serv\<close>, which are read when the
  level passes the mask.\<close>

definition wsconn_delete :: "env \<Rightarrow> 'c wsconn_t \<Rightarrow> 'c conn cres" where
  "wsconn_delete e conn =
     bindr (run_cb_if WSCB_DELETE conn) (\<lambda>conn'.
     if e_log_info e then Fault Use_After_Free else Ok (Deleted (c_custom_ctx conn')))"

section \<open>Writing frames\<close>

text \<open>\<open>htons\<close> of the low 16 bits, as the two bytes in memory.\<close>

definition htons_bytes :: "nat \<Rightarrow> byte list" where
  "htons_bytes n = [of_nat (n div 256), of_nat n]"

text \<open>The array \<open>block1\<close> of \<open>wsconn_write_frame\<close> and its used size. In the third case \<open>htons\<close> is applied
  to the 32-bit size: on a little-endian machine the result starts at byte 5.\<close>

definition length_block :: "nat \<Rightarrow> byte list \<times> nat" where
  "length_block sz =
     (if sz \<le> 125 then (of_nat sz # replicate 8 0, 1)
      else if sz < 2 * 2 ^ 16 - 1 then (126 # htons_bytes sz @ replicate 6 0, 3)
      else (127 # replicate 4 0 @ htons_bytes sz @ [0, 0], 9))"

definition wsconn_write_frame :: "allocator \<Rightarrow> 'c wsconn_t \<Rightarrow> byte \<Rightarrow> byte list \<Rightarrow> nat \<Rightarrow> 'c wsconn_t cres" where
  "wsconn_write_frame al conn opcode data sz =
     (case buffer_create al 0 of
        None \<Rightarrow> Ok conn
      | Some b0 \<Rightarrow>
          bindr (buffer_append al b0 [0x80 + (0x0F AND opcode)] 1) (\<lambda>(res, b1).
          if \<not> res then Ok conn
          else
            bindr (buffer_append al b1 (fst (length_block sz)) (snd (length_block sz))) (\<lambda>(res, b2).
            if \<not> res then Ok conn
            else
              bindr (buffer_append al b2 data sz) (\<lambda>(res, b3).
              if \<not> res then Ok conn
              else
                (let (message, message_size) = buffer_peek_data b3 in
                 bindr (mem_read message 0 message_size) (\<lambda>out.
                 bindr (buffer_remove_data b3 message_size) (\<lambda>b4.
                 Ok (conn\<lparr>c_output := c_output conn @ out\<rparr>))))))))"

definition wsconn_write :: "allocator \<Rightarrow> 'c wsconn_t \<Rightarrow> byte list \<Rightarrow> nat \<Rightarrow> 'c wsconn_t cres" where
  "wsconn_write al conn data sz = wsconn_write_frame al conn 1 data sz"

section \<open>Closing\<close>

definition wsconn_close :: "env \<Rightarrow> 'c wsconn_t \<Rightarrow> 'c conn cres" where
  "wsconn_close e conn =
     (let c1 = conn\<lparr>c_ws_state := WS_ST_CLOSED\<rparr> in
      if c_cm_state c1 = CM_ST_CREATED then
        bindr (run_cb WSCB_CLOSE c1) (\<lambda>c2. Ok (Live (c2\<lparr>c_cm_state := CM_ST_CLOSING\<rparr>)))
      else if c_fl_cm_closed c1 then wsconn_delete e c1
      else Ok (Live c1))"

definition wsconn_close_send :: "'c wsconn_t \<Rightarrow> 'c wsconn_t cres" where
  "wsconn_close_send conn =
     (let c1 = conn\<lparr>c_ws_state := WS_ST_CLOSING\<rparr> in
      if c_cm_state c1 = CM_ST_CREATED then
        bindr (run_cb WSCB_CLOSE c1) (\<lambda>c2. Ok (c2\<lparr>c_cm_state := CM_ST_CLOSING\<rparr>))
      else Ok c1)"

text \<open>The payload of the Close frame; \<open>None\<close> when an append failed.\<close>

definition close_payload :: "allocator \<Rightarrow> buffer_t \<Rightarrow> nat \<Rightarrow> byte list \<Rightarrow> nat \<Rightarrow> buffer_t option cres" where
  "close_payload al b status reason reason_size =
     (if 0 < status then
        bindr (buffer_append al b (htons_bytes status) 2) (\<lambda>(res, b1).
        if \<not> res then Ok None
        else if 0 < reason_size then
          bindr (buffer_append al b1 reason reason_size) (\<lambda>(res, b2). Ok (if res then Some b2 else None))
        else Ok (Some b1))
      else Ok (Some b))"

definition wsconn_initiate_close ::
  "allocator \<Rightarrow> 'c wsconn_t \<Rightarrow> nat \<Rightarrow> byte list \<Rightarrow> nat \<Rightarrow> 'c wsconn_t cres" where
  "wsconn_initiate_close al conn status reason reason_size =
     (if c_fl_ws_closing conn then Ok conn
      else
        (let finish = (\<lambda>c. c\<lparr>c_ws_state := WS_ST_CLOSING, c_fl_ws_closing := True\<rparr>) in
         case buffer_create al 0 of
           None \<Rightarrow> Ok (finish conn)
         | Some b \<Rightarrow>
             bindr (close_payload al b status reason reason_size) (\<lambda>r.
             case r of
               None \<Rightarrow> Ok (finish conn)
             | Some b' \<Rightarrow>
                 (let (message, message_size) = buffer_peek_data b' in
                  bindr (wsconn_write_frame al conn 8 message message_size) (\<lambda>c1.
                  bindr (buffer_remove_data b' message_size) (\<lambda>b''.
                  let c2 = c1\<lparr>c_ws_state := WS_ST_CLOSING\<rparr> in
                  bindr (if c_cm_state c2 = CM_ST_CREATED then
                           bindr (run_cb WSCB_CLOSE c2) (\<lambda>c3. Ok (c3\<lparr>c_cm_state := CM_ST_CLOSING\<rparr>))
                         else Ok c2) (\<lambda>c3.
                  Ok (finish c3))))))))"

definition xmpp_closed :: "byte list" where
  "xmpp_closed = map byte_of_char ''XMPP server closed''"

definition wsconn_onclosed :: "env \<Rightarrow> 'c wsconn_t \<Rightarrow> 'c conn cres" where
  "wsconn_onclosed e conn =
     (let c1 = conn\<lparr>c_cm_state := CM_ST_CLOSED, c_fl_cm_closed := True\<rparr> in
      if c_ws_state c1 = WS_ST_RECEIVING then
        bindr (wsconn_initiate_close (e_al e) c1 1001 xmpp_closed (length xmpp_closed)) (\<lambda>c2. Ok (Live c2))
      else if c_ws_state c1 = WS_ST_CLOSED then wsconn_delete e c1
      else Ok (Live c1))"

section \<open>The handshake\<close>

definition wsconn_handshake :: "env \<Rightarrow> 'c wsconn_t \<Rightarrow> 'c conn cres" where
  "wsconn_handshake e conn =
     bindr (str_init (junk_text (e_al e) 1024) 1024) (\<lambda>response.
     bindr (rq_analyze (e_fnm e) (e_sha1 e) (e_al e) (c_req conn) (c_conf conn) response) (\<lambda>(res, response').
     bindr (mem_read (str_get_string response') 0 (str_get_length response')) (\<lambda>text.
     let c1 = conn\<lparr>c_output := c_output conn @ map byte_of_char text\<rparr> in
     if res then
       bindr (run_cb_if WSCB_CONNECTED c1) (\<lambda>c2.
       bindr (run_cb_if WSCB_CONNECTED (c2\<lparr>c_ws_state := WS_ST_RECEIVING, c_fl_cm_closed := False\<rparr>)) (\<lambda>c3.
       Ok (Live c3)))
     else wsconn_close e c1)))"

text \<open>The loop over the lines of the request; \<open>rq_add_line\<close> sees a line up to its first NUL.\<close>

fun read_lines :: "env \<Rightarrow> char list list \<Rightarrow> 'c wsconn_t \<Rightarrow> 'c conn cres" where
  "read_lines e [] conn =
     bindr (LOG (e_log_mask e) LOG_INFO ''wsserver.c:ws_accept_conn_cb: (%s:%s) evbuffer_readln error''
              [c_host conn, c_serv conn]) (\<lambda>_. Ok (Live conn))"
| "read_lines e (line # ls) conn =
     bindr (rq_add_line (e_al e) (c_req conn) (line_text line)) (\<lambda>req.
     let c1 = conn\<lparr>c_req := req\<rparr> in
     if rq_is_error req then
       bindr (LOG (e_log_mask e) LOG_ERR ''wsserver.c:wsconn_read_cb: closing connection'' []) (\<lambda>_. wsconn_close e c1)
     else if rq_done req then wsconn_handshake e c1
     else read_lines e ls c1)"

section \<open>Frames from the client\<close>

text \<open>The loop of \<open>wsconn_process_frame\<close> ends because every round takes a frame or a message away.\<close>

definition pending_work :: "wsmsg_t \<Rightarrow> nat" where
  "pending_work w = 2 * b_length (w_frame_buffer w) + of_bool (w_frame w) + of_bool (w_message w)"

lemma frame_body_not_ready:
  assumes "frame_body al src buffer f oc m ml hl = Ok (fs, src', buffer')"
    and "\<forall>fin opcode msk. fs \<noteq> FS_READY fin opcode msk"
  shows "src' = src"
  using assms by (auto simp: frame_body_def Let_def bindr_eq_Ok split: if_splits)

lemma get_frame_not_ready:
  assumes "get_frame al src buffer = Ok (fs, src', buffer')" and "\<forall>fin opcode msk. fs \<noteq> FS_READY fin opcode msk"
  shows "src' = src"
  using assms frame_body_not_ready [OF _ assms(2)]
  by (auto simp: get_frame_def Let_def bindr_eq_Ok split: if_splits option.splits prod.splits)

lemma wsmsg_step_pending:
  assumes "wsmsg_step al w = Ok (go_on, w')"
  shows "pending_work w' \<le> pending_work w"
proof -
  obtain fs fb fd where g: "get_frame al (w_frame_buffer w) (w_frame_data w) = Ok (fs, fb, fd)"
    using assms by (auto simp: wsmsg_step_def cres_simps)
  show ?thesis
  proof (cases fs)
    case (FS_READY fin opcode msk)
    with g have "b_length fb < b_length (w_frame_buffer w)"
      by (auto intro: get_frame_ready_shrinks)
    then show ?thesis
      using assms FS_READY by (auto simp: wsmsg_step_def g Let_def cres_simps pending_work_def split: if_splits)
  qed (use assms get_frame_not_ready [OF g] in \<open>auto simp: wsmsg_step_def g pending_work_def\<close>)
qed

lemma wsmsg_process_loop_pending:
  "wsmsg_process_loop al w = Ok w' \<Longrightarrow> pending_work w' \<le> pending_work w"
proof (induction al w rule: wsmsg_process_loop.induct)
  case (1 al w)
  from 1(2) obtain r where r: "wsmsg_step al w = Ok r"
    "(if fst r then wsmsg_process_loop al (snd r) else Ok (snd r)) = Ok w'"
    by (subst (asm) wsmsg_process_loop.simps) (auto simp: cres_simps)
  have "pending_work (snd r) \<le> pending_work w" using r(1) wsmsg_step_pending by (cases r) auto
  then show ?case using 1(1) [OF r(1)] r(2) by (auto split: if_splits)
qed

lemma wsmsg_process_pending: "wsmsg_process al w = Ok w' \<Longrightarrow> pending_work w' \<le> pending_work w"
  by (auto simp: wsmsg_process_def dest: wsmsg_process_loop_pending split: if_splits)

lemma wsmsg_get_frame_pending:
  assumes "wsmsg_get_frame al w b = Ok (res, w', b', Some hdr)"
  shows "pending_work w' < pending_work w"
proof -
  obtain fd where "w_frame w" "wsmsg_process al (w\<lparr>w_frame := False, w_frame_data := fd\<rparr>) = Ok w'"
    using assms by (auto simp: wsmsg_get_frame_def cres_simps Let_def split: if_splits)
  then show ?thesis by (auto dest!: wsmsg_process_pending simp: pending_work_def)
qed

lemma wsmsg_get_message_pending:
  assumes "wsmsg_get_message al w b = Ok (res, w', b', Some opcode)"
  shows "pending_work w' < pending_work w"
proof -
  obtain mb where "w_message w"
    "wsmsg_process al (w\<lparr>w_message := False, w_message_started := False, w_message_buffer := mb\<rparr>) = Ok w'"
    using assms by (auto simp: wsmsg_get_message_def cres_simps Let_def split: if_splits)
  then show ?thesis by (auto dest!: wsmsg_process_pending simp: pending_work_def)
qed

text \<open>A Close frame: its status and reason are sent back.\<close>

definition on_close_frame :: "env \<Rightarrow> 'c wsconn_t \<Rightarrow> buffer_t \<Rightarrow> 'c conn cres" where
  "on_close_frame e conn buffer =
     (case buffer_create (e_al e) 0 of
        None \<Rightarrow> wsconn_close e conn
      | Some buffer_reason \<Rightarrow>
          bindr (if buffer_get_length buffer < 2 then Ok (1001, buffer_reason)
                 else
                   bindr (mem_read (b_data buffer) 0 2) (\<lambda>st.
                   if 2 < buffer_get_length buffer then
                     bindr (buffer_set_data (e_al e) buffer_reason (drop 2 (b_data buffer)) (buffer_get_length buffer - 2))
                       (\<lambda>(res, r). Ok (be_val st, r))
                   else Ok (be_val st, buffer_reason))) (\<lambda>(status, reason).
          bindr (wsconn_initiate_close (e_al e) (conn\<lparr>c_status := status\<rparr>) status (b_data reason)
                   (buffer_get_length reason)) (\<lambda>c. Ok (Live c))))"

text \<open>One round of the loop: \<open>Inl\<close> where it is left, \<open>Inr\<close> where it goes on.\<close>

definition process_round ::
  "env \<Rightarrow> 'c wsconn_t \<Rightarrow> buffer_t \<Rightarrow> ('c conn + 'c wsconn_t \<times> buffer_t) cres" where
  "process_round e conn buffer =
     (let w = c_wsmsg conn in
      if wsmsg_fail w then bindr (wsconn_close e conn) (\<lambda>c. Ok (Inl c))
      else if wsmsg_has_frame w then
        bindr (wsmsg_get_frame (e_al e) w buffer) (\<lambda>(res, w', buffer', hdr).
        let c1 = conn\<lparr>c_wsmsg := w'\<rparr> in
        if \<not> res then bindr (wsconn_close e c1) (\<lambda>c. Ok (Inl c))
        else (case hdr of
                None \<Rightarrow> Fault Uninitialised
              | Some (fin, opcode, msk) \<Rightarrow>
                  if opcode = OPCODE_CLOSE then bindr (on_close_frame e c1 buffer') (\<lambda>c. Ok (Inl c))
                  else if opcode = OPCODE_PING then
                    bindr (wsconn_write_frame (e_al e) c1 (of_nat OPCODE_PONG) (b_data buffer')
                             (buffer_get_length buffer')) (\<lambda>c2. Ok (Inl (Live c2)))
                  else Ok (Inr (c1, buffer'))))
      else if \<not> wsmsg_has_message w then Ok (Inl (Live conn))
      else
        bindr (wsmsg_get_message (e_al e) w (c_message_buffer conn)) (\<lambda>(res, w', mb, oc).
        case oc of
          None \<Rightarrow> Fault Uninitialised
        | Some opcode \<Rightarrow>
            (let c1 = conn\<lparr>c_wsmsg := w', c_message_buffer := mb\<rparr> in
             case c_cb c1 of
               None \<Rightarrow> Ok (Inr (c1, buffer))
             | Some cb \<Rightarrow>
                 if opcode = OPCODE_TEXT then
                   bindr (cb WSCB_MESSAGE mb (c_custom_ctx c1)) (\<lambda>cx. Ok (Inr (c1\<lparr>c_custom_ctx := cx\<rparr>, buffer)))
                 else if opcode = OPCODE_BINARY then bindr (wsconn_close e c1) (\<lambda>c. Ok (Inl c))
                 else Ok (Inr (c1, buffer)))))"

lemma process_round_frame:
  assumes "process_round e conn buffer = Ok (Inr (conn', buffer'))" and "wsmsg_has_frame (c_wsmsg conn)"
  shows "\<exists>res hdr. wsmsg_get_frame (e_al e) (c_wsmsg conn) buffer = Ok (res, c_wsmsg conn', buffer', Some hdr)"
proof (cases "wsmsg_get_frame (e_al e) (c_wsmsg conn) buffer")
  case (Ok r)
  obtain res w' b hdr where r: "r = (res, w', b, hdr)" by (cases r)
  show ?thesis
    using assms Ok r by (cases hdr) (auto simp: process_round_def Let_def bindr_eq_Ok split: if_split_asm)
qed (use assms in \<open>auto simp: process_round_def Let_def bindr_eq_Ok split: if_split_asm\<close>)

lemma process_round_message:
  assumes "process_round e conn buffer = Ok (Inr (conn', buffer'))" and "\<not> wsmsg_has_frame (c_wsmsg conn)"
  shows "\<exists>res mb opcode. wsmsg_get_message (e_al e) (c_wsmsg conn) (c_message_buffer conn) = Ok (res, c_wsmsg conn', mb, Some opcode)"
proof (cases "wsmsg_get_message (e_al e) (c_wsmsg conn) (c_message_buffer conn)")
  case (Ok r)
  obtain res w' mb oc where r: "r = (res, w', mb, oc)" by (cases r)
  show ?thesis
    using assms Ok r by (cases oc; cases "c_cb conn") (auto simp: process_round_def Let_def bindr_eq_Ok split: if_split_asm)
qed (use assms in \<open>auto simp: process_round_def Let_def bindr_eq_Ok split: if_split_asm\<close>)

lemma process_round_pending:
  assumes "process_round e conn buffer = Ok (Inr (conn', buffer'))"
  shows "pending_work (c_wsmsg conn') < pending_work (c_wsmsg conn)"
  using process_round_frame [OF assms] process_round_message [OF assms] wsmsg_get_frame_pending wsmsg_get_message_pending
  by blast

function process_loop :: "env \<Rightarrow> 'c wsconn_t \<Rightarrow> buffer_t \<Rightarrow> 'c conn cres" where
  "process_loop e conn buffer =
     bindr (process_round e conn buffer) (\<lambda>r.
     case r of Inl c \<Rightarrow> Ok c | Inr (conn', buffer') \<Rightarrow> process_loop e conn' buffer')"
  by pat_completeness auto
termination
  by (relation "measure (\<lambda>(e, conn, buffer). pending_work (c_wsmsg conn))") (auto dest: process_round_pending)

declare process_loop.simps [simp del]

text \<open>The loop with a bound on its rounds; \<open>None\<close> when they are used up.\<close>

fun process_rounds :: "nat \<Rightarrow> env \<Rightarrow> 'c wsconn_t \<Rightarrow> buffer_t \<Rightarrow> 'c conn cres option" where
  "process_rounds 0 e conn buffer = None"
| "process_rounds (Suc n) e conn buffer =
     (case process_round e conn buffer of
        Fault f \<Rightarrow> Some (Fault f)
      | Ok (Inl c) \<Rightarrow> Some (Ok c)
      | Ok (Inr (conn', buffer')) \<Rightarrow> process_rounds n e conn' buffer')"

lemma process_rounds_enough:
  "pending_work (c_wsmsg conn) < n \<Longrightarrow> process_rounds n e conn buffer = Some (process_loop e conn buffer)"
proof (induction n arbitrary: conn buffer)
  case (Suc n)
  show ?case
  proof (cases "process_round e conn buffer")
    case (Ok r)
    then show ?thesis
      using Suc process_round_pending [of e conn buffer]
      by (cases r) (fastforce simp: process_loop.simps [of e conn buffer])+
  qed (simp add: process_loop.simps [of e conn buffer])
qed simp

text \<open>C18: the loop over the received frames ends for every state of the connection, every input and every client
  of the callbacks: twice as many rounds as there are bytes in the frame buffer, and three more, are enough
  for it to give its result.\<close>

theorem frame_loop_terminates:
  "process_rounds (2 * b_length (w_frame_buffer (c_wsmsg conn)) + 3) e conn buffer = Some (process_loop e conn buffer)"
  by (rule process_rounds_enough) (simp add: pending_work_def)

definition wsconn_process_frame :: "env \<Rightarrow> byte list \<Rightarrow> 'c wsconn_t \<Rightarrow> 'c conn cres" where
  "wsconn_process_frame e data conn =
     (case buffer_create (e_al e) 0 of
        None \<Rightarrow> Ok (Live conn)
      | Some buffer \<Rightarrow>
          if \<not> granted (e_al e) (length data) then Ok (Live conn)
          else
            bindr (wsmsg_add (e_al e) (c_wsmsg conn) data (length data)) (\<lambda>(res, w).
            process_loop e (conn\<lparr>c_wsmsg := w\<rparr>) buffer))"

section \<open>The callbacks of libevent\<close>

definition wsconn_read_cb :: "env \<Rightarrow> input \<Rightarrow> 'c wsconn_t \<Rightarrow> 'c conn cres" where
  "wsconn_read_cb e inp conn =
     (case c_ws_state conn of
        WS_ST_START \<Rightarrow> read_lines e (i_lines inp) conn
      | WS_ST_RECEIVING \<Rightarrow> wsconn_process_frame e (i_data inp) conn
      | _ \<Rightarrow> Ok (Live conn))"

definition wsconn_event_cb :: "env \<Rightarrow> bev_event list \<Rightarrow> 'c wsconn_t \<Rightarrow> 'c conn cres" where
  "wsconn_event_cb e events conn =
     bindr (LOG (e_log_mask e) LOG_INFO ''wsserver.c:wsconn_event_cb (%s:%s) events=%h'' [c_host conn, c_serv conn]) (\<lambda>_.
     if BEV_EVENT_ERROR \<in> set events \<or> BEV_EVENT_EOF \<in> set events then wsconn_close e conn
     else Ok (Live conn))"

text \<open>\<open>len\<close> is the length of libevent's output buffer.\<close>

definition wsconn_write_cb :: "env \<Rightarrow> nat \<Rightarrow> 'c wsconn_t \<Rightarrow> 'c conn cres" where
  "wsconn_write_cb e len conn =
     (if c_ws_state conn = WS_ST_CLOSING \<and> len = 0 then wsconn_delete e conn else Ok (Live conn))"

end
