(* ===== verification/WsFrames.thy ===== *)
theory WsFrames
  imports WsServer
begin

unbundle bit_operations_syntax

text \<open>
  The frames the server writes: \<open>wsconn_write_frame\<close> against the wire format of RFC 6455, for the
  sizes it gets right and for those it gets wrong.
\<close>

section \<open>Unlimited buffers\<close>

lemma append_unlimited:
  assumes "unlimited b" and "generous al" and "b_length b + n + 1024 \<le> PTRDIFF_MAX" and "take n src = xs" "length xs = n"
  shows "\<exists>b'. buffer_append al b src n = Ok (True, b') \<and> unlimited b' \<and> contents b' = contents b @ xs
     \<and> b_length b' = b_length b + n"
proof -
  have b: "buf_ok b" "b_max_length b = 0" using assms(1) by (auto simp: unlimited_def)
  obtain b' where "buffer_append al b src n = Ok (True, b')" "buf_ok b'" "b_max_length b' = 0"
    "contents b' = contents b @ xs"
    using append_contents [OF b(1) assms(2) _ assms(4,5)] assms(3,5) b(2) by (auto simp: cut_def)
  moreover have "b_length b' = b_length b + n"
    using length_contents [OF \<open>buf_ok b'\<close>] length_contents [OF b(1)] \<open>contents b' = contents b @ xs\<close> assms(5)
    by simp
  ultimately show ?thesis by (auto simp: unlimited_def)
qed

lemma create_unlimited_buffer:
  assumes "generous al"
  obtains b where "buffer_create al 0 = Some b" and "unlimited b" and "contents b = []" and "b_length b = 0"
proof -
  obtain b where b: "buffer_create al 0 = Some b" "buf_ok b" "contents b = []" "b_max_length b = 0"
    using buffer_create_generous [OF assms, of 0] by auto
  moreover have "b_length b = 0" using length_contents [OF b(2)] b(3) by simp
  ultimately show thesis using that by (simp add: unlimited_def)
qed

lemma unlimited_ok [dest]: "unlimited b \<Longrightarrow> buf_ok b \<and> b_max_length b = 0"
  by (simp add: unlimited_def)

lemma read_contents: "buf_ok b \<Longrightarrow> mem_read (b_data b) 0 (b_length b) = Ok (contents b)"
  using buf_okD(1,2) [of b] by (simp add: mem_read_def contents_def)

lemma remove_all: "buf_ok b \<Longrightarrow> \<exists>b'. buffer_remove_data b (b_length b) = Ok b'"
  using buffer_remove_data_ok [of b "b_length b"] by auto

section \<open>The bytes of a written frame\<close>

definition frame_bytes :: "byte \<Rightarrow> byte list \<Rightarrow> byte list" where
  "frame_bytes opcode payload = (0x80 + (0x0F AND opcode))
     # take (snd (length_block (length payload))) (fst (length_block (length payload))) @ payload"

lemma length_block_size: "snd (length_block n) \<le> 9" "length (fst (length_block n)) = 9"
  by (simp_all add: length_block_def htons_bytes_def)

lemma wsconn_write_frame_eq:
  assumes al: "generous al" and d: "take n data = payload" "length payload = n" and n: "n + 2048 \<le> PTRDIFF_MAX"
  shows "wsconn_write_frame al conn opcode data n = Ok (conn\<lparr>c_output := c_output conn @ frame_bytes opcode payload\<rparr>)"
proof -
  let ?h = "0x80 + (0x0F AND opcode)"
  let ?lb = "length_block n"
  note lb = length_block_size [of n]
  obtain b0 where b0: "buffer_create al 0 = Some b0" "unlimited b0" "contents b0 = []" "b_length b0 = 0"
    by (rule create_unlimited_buffer [OF al])
  obtain b1 where b1: "buffer_append al b0 [?h] 1 = Ok (True, b1)" "unlimited b1" "contents b1 = [?h]" "b_length b1 = 1"
    using append_unlimited [OF b0(2) al, of 1 "[?h]" "[?h]"] b0 by (auto simp: PTRDIFF_MAX_def)
  obtain b2 where b2: "buffer_append al b1 (fst ?lb) (snd ?lb) = Ok (True, b2)" "unlimited b2"
    "contents b2 = ?h # take (snd ?lb) (fst ?lb)" "b_length b2 = 1 + snd ?lb"
    using append_unlimited [OF b1(2) al, of "snd ?lb" "fst ?lb" "take (snd ?lb) (fst ?lb)"] b1 lb n by auto
  obtain b3 where b3: "buffer_append al b2 data n = Ok (True, b3)" "unlimited b3"
    "contents b3 = frame_bytes opcode payload"
    using append_unlimited [OF b2(2) al _ d] b2 lb n d(2) by (auto simp: frame_bytes_def)
  have ok: "buf_ok b3" using b3(2) by auto
  obtain b4 where "buffer_remove_data b3 (b_length b3) = Ok b4" using remove_all [OF ok] by blast
  then show ?thesis
    using b0(1) b1(1) b2(1) b3 read_contents [OF ok] by (simp add: wsconn_write_frame_def buffer_peek_data_def)
qed

lemma be_bytes_2: "be_bytes 2 n = htons_bytes n"
  by (simp add: numeral_2_eq_2 htons_bytes_def)

lemma first_byte:
  assumes "opcode < 16"
  shows "0x80 + (0x0F AND of_nat opcode) = (of_nat (128 + opcode) :: byte)"
proof -
  have "\<forall>opc \<in> set [0..<16]. 0x80 + (0x0F AND of_nat opc) = (of_nat (128 + opc) :: byte)"
    by code_simp
  then show ?thesis using assms by auto
qed

lemma frame_bytes_rfc:
  assumes "opcode < 16" and "length payload < 65536"
  shows "frame_bytes (of_nat opcode) payload = ws_frame True opcode None payload"
  using assms
  by (simp add: frame_bytes_def length_block_def ws_frame_def length_bytes_def first_byte be_bytes_2 htons_bytes_def)

text \<open>C19: for a payload shorter than 65536 bytes \<open>wsconn_write_frame\<close> hands exactly the unmasked frame of
  RFC 6455 to libevent, and touches nothing else of the connection.\<close>

theorem write_frame_rfc:
  assumes "generous al" and "opcode < 16" and "take n data = payload" "length payload = n" and "n < 65536"
  shows "wsconn_write_frame al conn (of_nat opcode) data n
     = Ok (conn\<lparr>c_output := c_output conn @ ws_frame True opcode None payload\<rparr>)"
  using wsconn_write_frame_eq [OF assms(1,3,4), of conn "of_nat opcode"] frame_bytes_rfc [OF assms(2)] assms(4,5)
  by (simp add: PTRDIFF_MAX_def)

text \<open>C38: for a payload of 65536 up to 131070 bytes the length field is 65536 too small: a client reads the
  beginning of the payload as the message and takes the rest for the next frames.\<close>

theorem write_frame_misframed:
  assumes "generous al" and "opcode < 16" and "take n data = payload" "length payload = n"
    and "65536 \<le> n" "n < 131071"
  shows "\<exists>out. wsconn_write_frame al conn (of_nat opcode) data n = Ok (conn\<lparr>c_output := c_output conn @ out\<rparr>)
     \<and> parse_frame 0 out = Complete True opcode False (take (n - 65536) payload) (drop (n - 65536) payload)"
proof -
  let ?k = "n - 65536"
  let ?out = "frame_bytes (of_nat opcode) payload"
  have out: "?out = of_nat (128 + opcode) # 126 # htons_bytes n @ payload"
    using assms by (simp add: frame_bytes_def length_block_def htons_bytes_def first_byte)
  have "be_val (htons_bytes n) = n mod 65536"
    using be_val_be_bytes [of 2 n] by (simp add: be_bytes_2)
  also have "\<dots> = ?k" using assms(5,6) mod_if [of n 65536] by simp
  finally have len: "be_val (htons_bytes n) = ?k" .
  have h2: "length (htons_bytes n) = 2" by (simp add: htons_bytes_def)
  have "parse_header ?out = Some (?k, 4)"
    using len h2 header_byte1(2) [of 126 True] assms(4,5) by (simp add: out parse_header_def)
  then have "parse_header ?out = Some (length (take ?k payload), 4)" using assms(4) by simp
  moreover have "drop 4 ?out = [] @ take ?k payload @ drop ?k payload"
    by (simp add: out htons_bytes_def)
  ultimately have "parse_frame 0 ?out = Complete True opcode False (take ?k payload) (drop ?k payload)"
    using parse_frame_Complete [of ?out "take ?k payload" 4 "[]" "drop ?k payload" 0]
      header_byte0 [OF assms(2), of True] header_byte1(1) [of 126 True] assms(4,5) h2
    by (simp add: out cut_def)
  then show ?thesis
    using wsconn_write_frame_eq [OF assms(1,3,4), of conn "of_nat opcode"] assms(6)
    by (intro exI [of _ ?out] conjI) (simp_all add: PTRDIFF_MAX_def)
qed

section \<open>Witnesses\<close>

theorem write_frame_rfc_witness:
  "\<forall>conn :: unit wsconn_t. wsconn_write_frame zero_alloc conn 1 [72, 105, 0] 2
     = Ok (conn\<lparr>c_output := c_output conn @ [0x81, 2, 72, 105]\<rparr>)"
proof
  fix conn :: "unit wsconn_t"
  have "ws_frame True 1 None [72, 105] = [0x81, 2, 72, 105]"
    by (simp add: ws_frame_def length_bytes_def)
  then show "wsconn_write_frame zero_alloc conn 1 [72, 105, 0] 2
     = Ok (conn\<lparr>c_output := c_output conn @ [0x81, 2, 72, 105]\<rparr>)"
    using write_frame_rfc [of zero_alloc 1 2 "[72, 105, 0]" "[72, 105]" conn] by simp
qed

theorem write_frame_misframed_witness:
  "\<forall>conn :: unit wsconn_t. \<exists>out.
     wsconn_write_frame zero_alloc conn 1 (replicate 70000 7) 70000 = Ok (conn\<lparr>c_output := c_output conn @ out\<rparr>)
     \<and> parse_frame 0 out = Complete True 1 False (replicate 4464 7) (replicate 65536 7)"
proof
  fix conn :: "unit wsconn_t"
  show "\<exists>out. wsconn_write_frame zero_alloc conn 1 (replicate 70000 7) 70000 = Ok (conn\<lparr>c_output := c_output conn @ out\<rparr>)
     \<and> parse_frame 0 out = Complete True 1 False (replicate 4464 7) (replicate 65536 7)"
    using write_frame_misframed [of zero_alloc 1 70000 "replicate 70000 7" "replicate 70000 7" conn] by simp
qed

end
