(* ===== verification/WsConn.thy ===== *)
theory WsConn
  imports WsFrames
begin

text \<open>
  The life of a connection. The locale \<open>ws_client\<close> is the contract between the server and the
  client of its callbacks: a message may come while the client is open, it is closed once, and
  deleted last; until the handshake is done the client is fresh. Under it, and with receive limits that keep the receiver inside its blocks, every
  callback of libevent keeps the invariant \<open>conn_inv\<close> of the connection and never faults.
\<close>

section \<open>The invariant\<close>

definition env_ok :: "env \<Rightarrow> bool" where
  "env_ok e \<longleftrightarrow> generous (e_al e) \<and> \<not> e_log_info e \<and> (\<forall>xs. length (e_sha1 e xs) = 20)"

definition limits :: "nat \<Rightarrow> nat \<Rightarrow> nat \<Rightarrow> bool" where
  "limits lim mlim cap \<longleftrightarrow> 0 < lim \<and> 14 + lim \<le> cap \<and> 0 < mlim \<and> int mlim \<le> INT_MAX \<and> 2 * int lim \<le> INT_MAX"

text \<open>The states of the web socket, of the connection manager as the server sees it, and the flags.\<close>

definition phase_ok :: "'c wsconn_t \<Rightarrow> bool" where
  "phase_ok conn \<longleftrightarrow>
     (case c_ws_state conn of
        WS_ST_START \<Rightarrow> c_cm_state conn = CM_ST_CREATED \<and> c_fl_cm_closed conn \<and> \<not> c_fl_ws_closing conn
      | WS_ST_RECEIVING \<Rightarrow> c_cm_state conn = CM_ST_CREATED \<and> \<not> c_fl_cm_closed conn \<and> \<not> c_fl_ws_closing conn
      | WS_ST_CLOSING \<Rightarrow> c_fl_ws_closing conn \<and> (c_cm_state conn = CM_ST_CLOSING \<or> c_cm_state conn = CM_ST_CLOSED)
      | WS_ST_CLOSED \<Rightarrow> c_cm_state conn = CM_ST_CLOSING \<or> c_cm_state conn = CM_ST_CLOSED)
     \<and> (c_cm_state conn = CM_ST_CLOSED \<longrightarrow> c_fl_cm_closed conn)"

definition conn_inv ::
  "('c \<Rightarrow> bool) \<Rightarrow> ('c \<Rightarrow> bool) \<Rightarrow> ('c \<Rightarrow> bool) \<Rightarrow> 'c ws_cb \<Rightarrow> nat \<Rightarrow> nat \<Rightarrow> nat \<Rightarrow> 'c wsconn_t \<Rightarrow> bool" where
  "conn_inv fresh opened closed cb lim mlim cap conn \<longleftrightarrow>
     phase_ok conn \<and> c_cb conn = Some cb \<and> limits lim mlim cap
     \<and> wsmsg_inv lim mlim cap (c_wsmsg conn) \<and> unlimited (c_message_buffer conn)
     \<and> (c_ws_state conn = WS_ST_START \<longrightarrow> rq_ok (c_req conn) \<and> fresh (c_custom_ctx conn))
     \<and> (if c_cm_state conn = CM_ST_CREATED then opened (c_custom_ctx conn) else closed (c_custom_ctx conn))"

fun conn_post :: "('c wsconn_t \<Rightarrow> bool) \<Rightarrow> ('c \<Rightarrow> bool) \<Rightarrow> 'c conn \<Rightarrow> bool" where
  "conn_post P gone (Live conn) \<longleftrightarrow> P conn"
| "conn_post P gone (Deleted cx) \<longleftrightarrow> gone cx"

text \<open>One round of the loop over the received frames stops in a good state or goes on with one.\<close>

fun round_post :: "('c wsconn_t \<Rightarrow> bool) \<Rightarrow> ('c \<Rightarrow> bool) \<Rightarrow> 'c conn + 'c wsconn_t \<times> buffer_t \<Rightarrow> bool" where
  "round_post P gone (Inl c) \<longleftrightarrow> conn_post P gone c"
| "round_post P gone (Inr (conn, b)) \<longleftrightarrow> P conn \<and> c_ws_state conn = WS_ST_RECEIVING \<and> unlimited b"

text \<open>What may come in: harmless lines before the handshake, bytes behind it.\<close>

definition input_ok :: "'c wsconn_t \<Rightarrow> input \<Rightarrow> bool" where
  "input_ok conn inp \<longleftrightarrow> lines_safe (absq (c_req conn)) (map line_text (i_lines inp)) \<and> length (i_data inp) < 2 ^ 62"

lemma phase_ok_frame [simp]:
  "phase_ok (conn\<lparr>c_output := x\<rparr>) = phase_ok conn" "phase_ok (conn\<lparr>c_status := s\<rparr>) = phase_ok conn"
  "phase_ok (conn\<lparr>c_wsmsg := w\<rparr>) = phase_ok conn" "phase_ok (conn\<lparr>c_req := r\<rparr>) = phase_ok conn"
  "phase_ok (conn\<lparr>c_message_buffer := b\<rparr>) = phase_ok conn" "phase_ok (conn\<lparr>c_custom_ctx := cx\<rparr>) = phase_ok conn"
  by (simp_all add: phase_ok_def cong: ws_state.case_cong)

lemma conn_inv_output [simp]:
  "conn_inv fr op cl cb lim mlim cap (conn\<lparr>c_output := x\<rparr>) = conn_inv fr op cl cb lim mlim cap conn"
  "conn_inv fr op cl cb lim mlim cap (conn\<lparr>c_status := s\<rparr>) = conn_inv fr op cl cb lim mlim cap conn"
  by (simp_all add: conn_inv_def)

lemma payload_bound:
  assumes "wsmsg_inv lim mlim cap w" and "limits lim mlim cap"
  shows "held (absw w) + 8192 \<le> PTRDIFF_MAX"
proof -
  have "held (absw w) \<le> mlim + 3 * lim"
    using held_limited [of lim mlim w] assms by (auto simp: wsmsg_inv_def limits_def)
  then show ?thesis using assms(2) by (auto simp: limits_def INT_MAX_def PTRDIFF_MAX_def)
qed

lemma aget_frame_size:
  "fst (aget_frame lim mlim a) = Some (fin, opcode, msk, payload) \<Longrightarrow> length payload \<le> held a"
  by (auto simp: aget_frame_def held_def split: option.splits)

lemma aget_message_size:
  "fst (aget_message lim mlim a) = Some (opcode, payload) \<Longrightarrow> length payload \<le> held a"
  by (auto simp: aget_message_def held_def split: if_splits)

lemma close_payload_ok:
  assumes "unlimited b" "b_length b = 0" and al: "generous al" and n: "n + 4096 \<le> PTRDIFF_MAX" "n \<le> length reason"
  shows "\<exists>b'. close_payload al b status reason n = Ok (Some b') \<and> unlimited b' \<and> b_length b' \<le> n + 2
     \<and> contents b' = contents b @ (if 0 < status then htons_bytes status @ take n reason else [])"
proof (cases "0 < status")
  case True
  obtain b1 where b1: "buffer_append al b (htons_bytes status) 2 = Ok (True, b1)" "unlimited b1"
    "contents b1 = contents b @ htons_bytes status" "b_length b1 = 2"
    using append_unlimited [OF assms(1) al, of 2 "htons_bytes status" "htons_bytes status"] assms(2)
    by (auto simp: htons_bytes_def PTRDIFF_MAX_def)
  obtain b2 where b2: "buffer_append al b1 reason n = Ok (True, b2)" "unlimited b2"
    "contents b2 = contents b1 @ take n reason" "b_length b2 = 2 + n"
    using append_unlimited [OF b1(2) al, of n reason "take n reason"] b1(4) n by auto
  show ?thesis
    using True b1 b2 by (cases "n = 0") (auto simp: close_payload_def)
qed (use assms in \<open>auto simp: close_payload_def\<close>)

text \<open>Closing from the side of the server: the Close frame, and the report to the client of the callbacks.\<close>

definition closing :: "nat \<Rightarrow> byte list \<Rightarrow> 'c wsconn_t \<Rightarrow> 'c wsconn_t cres" where
  "closing status reason conn =
     (let c = conn\<lparr>c_output := c_output conn @ frame_bytes 8 (if 0 < status then htons_bytes status @ reason else []),
            c_ws_state := WS_ST_CLOSING\<rparr>
      in bindr (if c_cm_state conn = CM_ST_CREATED
                then bindr (run_cb WSCB_CLOSE c) (\<lambda>c'. Ok (c'\<lparr>c_cm_state := CM_ST_CLOSING\<rparr>)) else Ok c)
           (\<lambda>c'. Ok (c'\<lparr>c_ws_state := WS_ST_CLOSING, c_fl_ws_closing := True\<rparr>)))"

lemma initiate_close_eq:
  assumes al: "generous al" and fl: "\<not> c_fl_ws_closing conn" and n: "n + 4096 \<le> PTRDIFF_MAX" "n \<le> length reason"
  shows "wsconn_initiate_close al conn status reason n = closing status (take n reason) conn"
proof -
  obtain b where b: "buffer_create al 0 = Some b" "unlimited b" "contents b = []" "b_length b = 0"
    by (rule create_unlimited_buffer [OF al])
  let ?p = "if 0 < status then htons_bytes status @ take n reason else []"
  obtain b' where b': "close_payload al b status reason n = Ok (Some b')" "unlimited b'" "b_length b' \<le> n + 2"
    "contents b' = ?p"
    using close_payload_ok [OF b(2,4) al, of n reason status] b(3) n by auto
  have ok: "buf_ok b'" using b'(2) by auto
  obtain b'' where rm: "buffer_remove_data b' (b_length b') = Ok b''" using remove_all [OF ok] by blast
  have "wsconn_write_frame al conn 8 (b_data b') (b_length b') = Ok (conn\<lparr>c_output := c_output conn @ frame_bytes 8 ?p\<rparr>)"
    using wsconn_write_frame_eq [OF al, of "b_length b'" "b_data b'" ?p conn 8] ok b'(3,4) n contents_take [of b'] length_contents [OF ok]
    by simp
  then show ?thesis
    using fl b(1) b'(1) rm unfolding closing_def by (simp add: wsconn_initiate_close_def buffer_peek_data_def Let_def)
qed

text \<open>A Close frame of the client is answered with its own status and reason.\<close>

definition close_status :: "byte list \<Rightarrow> nat" where
  "close_status payload = (if length payload < 2 then 1001 else be_val (take 2 payload))"

lemma on_close_frame_eq:
  assumes "env_ok e" and fl: "\<not> c_fl_ws_closing conn" and "unlimited b" and n: "b_length b + 8192 \<le> PTRDIFF_MAX"
  shows "on_close_frame e conn b = bindr (closing (close_status (contents b)) (drop 2 (contents b))
     (conn\<lparr>c_status := close_status (contents b)\<rparr>)) (\<lambda>c. Ok (Live c))"
proof -
  have al: "generous (e_al e)" using assms(1) by (simp add: env_ok_def)
  have b: "buf_ok b" "b_max_length b = 0" using assms(3) by auto
  note d = buf_okD [OF b(1)] length_contents [OF b(1)]
  obtain r where r: "buffer_create (e_al e) 0 = Some r" "unlimited r" "contents r = []" "b_length r = 0"
    by (rule create_unlimited_buffer [OF al])
  have init: "wsconn_initiate_close (e_al e) (conn\<lparr>c_status := s\<rparr>) s (b_data x) (b_length x)
      = closing s (contents x) (conn\<lparr>c_status := s\<rparr>)"
    if "unlimited x" "b_length x + 4096 \<le> PTRDIFF_MAX" for x s
    using initiate_close_eq [OF al, of "conn\<lparr>c_status := s\<rparr>" "b_length x" "b_data x" s] fl that buf_okD(1,2) [of x]
    by (auto simp: contents_take)
  show ?thesis
  proof (cases "2 < b_length b")
    case False
    then have "mem_read (b_data b) 0 2 = Ok (take 2 (contents b))" if "b_length b = 2"
      using that d by (simp add: mem_read_def contents_def)
    then show ?thesis
      using False init [OF r(2)] r d by (auto simp: on_close_frame_def buffer_get_length_def close_status_def PTRDIFF_MAX_def)
  next
    case True
    then have rd: "mem_read (b_data b) 0 2 = Ok (take 2 (contents b))" using d by (simp add: mem_read_def contents_def)
    have ru: "buf_ok r" "b_max_length r = 0" using r(2) by auto
    have "b_length b - 2 + 1024 \<le> PTRDIFF_MAX" "b_length b - 2 \<le> length (drop 2 (b_data b))"
      using d n by linarith (use d in simp)
    then obtain r' where r': "buffer_set_data (e_al e) r (drop 2 (b_data b)) (b_length b - 2) = Ok (True, r')"
      "buf_ok r'" "contents r' = take (b_length b - 2) (drop 2 (b_data b))" "b_max_length r' = 0"
      using buffer_set_data_generous [OF ru(1) al, of "b_length b - 2" "drop 2 (b_data b)"] ru(2) by auto
    have c: "contents r' = drop 2 (contents b)" using r'(3) by (simp add: contents_def drop_take)
    then have "unlimited r'" "b_length r' + 4096 \<le> PTRDIFF_MAX"
      using r' n d length_contents [OF r'(2)] by (auto simp: unlimited_def)
    then show ?thesis
      using True rd r' r(1) init [of r'] c d by (simp add: on_close_frame_def buffer_get_length_def close_status_def)
  qed
qed

lemma str_read: "str_ok s \<Longrightarrow> mem_read (str_get_string s) 0 (str_get_length s) = Ok (str_val s)"
  by (erule str_okE) (simp add: mem_read_def str_get_string_def str_get_length_def)

text \<open>The handshake sends the answer of the decision table and then opens or closes the connection.\<close>

lemma handshake_eq:
  assumes "env_ok e" and "rq_ok (c_req conn)"
  shows "wsconn_handshake e conn =
     (let v = averdict (e_fnm e) (c_conf conn) (absq (c_req conn));
          c1 = conn\<lparr>c_output := c_output conn @ map byte_of_char (answer (e_sha1 e) (absq (c_req conn)) v)\<rparr>
      in if v = V_101 then
           bindr (run_cb_if WSCB_CONNECTED c1) (\<lambda>c2.
           bindr (run_cb_if WSCB_CONNECTED (c2\<lparr>c_ws_state := WS_ST_RECEIVING, c_fl_cm_closed := False\<rparr>)) (\<lambda>c3.
           Ok (Live c3)))
         else wsconn_close e c1)"
proof -
  obtain r where r: "str_init (junk_text (e_al e) 1024) 1024 = Ok r" "str_ok r" "s_capacity r = 1024"
    by (rule str_init_junk [of 1024]) (auto simp: SIZE_MOD_def)
  have "str_cap 1024 r" using r by (simp add: str_cap_def)
  then obtain r' where "rq_analyze (e_fnm e) (e_sha1 e) (e_al e) (c_req conn) (c_conf conn) r
      = Ok (averdict (e_fnm e) (c_conf conn) (absq (c_req conn)) = V_101, r')"
    "str_ok r'" "str_val r' = answer (e_sha1 e) (absq (c_req conn)) (averdict (e_fnm e) (c_conf conn) (absq (c_req conn)))"
    using rq_analyze_eq [OF assms(2), of r "e_sha1 e" "e_fnm e" "e_al e" "c_conf conn"] assms(1)
    by (auto simp: env_ok_def)
  then show ?thesis
    using r(1) by (simp add: wsconn_handshake_def str_read Let_def)
qed

section \<open>Taking frames and messages from the receiver\<close>

lemma take_frame:
  assumes "wsmsg_inv lim mlim cap w" and "limits lim mlim cap" and "generous al" and "unlimited b" and "wsmsg_has_frame w"
  shows "\<exists>fin opcode msk w' b'. wsmsg_get_frame al w b = Ok (True, w', b', Some (fin, opcode, msk))
     \<and> wsmsg_inv lim mlim cap w' \<and> unlimited b' \<and> b_length b' + 8192 \<le> PTRDIFF_MAX
     \<and> aget_frame lim mlim (absw w) = (Some (fin, opcode, msk, contents b'), absw w')"
proof -
  have wf: "w_frame w" using assms(5) by (simp add: wsmsg_has_frame_def)
  have b: "buf_ok b" "b_max_length b = 0" using assms(4) by auto
  obtain fin opcode msk payload where f: "fst (aget_frame lim mlim (absw w)) = Some (fin, opcode, msk, payload)"
    using wf by (auto simp: aget_frame_def absw_def)
  obtain w' b' where g: "wsmsg_get_frame al w b = Ok (True, w', b', Some (fin, opcode, msk))"
    "wsmsg_inv lim mlim cap w'" "buf_ok b'" "b_max_length b' = 0" "contents b' = payload"
    "absw w' = snd (aget_frame lim mlim (absw w))"
    using wsmsg_get_frame_refines [OF assms(1,3) b] f wf by auto
  moreover have "b_length b' + 8192 \<le> PTRDIFF_MAX"
    using payload_bound [OF assms(1,2)] aget_frame_size [OF f] length_contents [OF g(3)] g(5) by simp
  ultimately show ?thesis using f by (auto simp: unlimited_def prod_eq_iff)
qed

lemma take_message:
  assumes "wsmsg_inv lim mlim cap w" and "limits lim mlim cap" and "generous al" and "unlimited b" and "wsmsg_has_message w"
  shows "\<exists>opcode w' b'. wsmsg_get_message al w b = Ok (True, w', b', Some opcode)
     \<and> wsmsg_inv lim mlim cap w' \<and> unlimited b' \<and> b_length b' + 8192 \<le> PTRDIFF_MAX
     \<and> aget_message lim mlim (absw w) = (Some (opcode, contents b'), absw w')"
proof -
  have wm: "w_message w" using assms(5) by (simp add: wsmsg_has_message_def)
  have b: "buf_ok b" "b_max_length b = 0" using assms(4) by auto
  obtain opcode payload where f: "fst (aget_message lim mlim (absw w)) = Some (opcode, payload)"
    using wm by (auto simp: aget_message_def absw_def)
  obtain w' b' where g: "wsmsg_get_message al w b = Ok (True, w', b', Some opcode)"
    "wsmsg_inv lim mlim cap w'" "buf_ok b'" "b_max_length b' = 0" "contents b' = payload"
    "absw w' = snd (aget_message lim mlim (absw w))"
    using wsmsg_get_message_refines [OF assms(1,3) b] f wm by auto
  moreover have "b_length b' + 8192 \<le> PTRDIFF_MAX"
    using payload_bound [OF assms(1,2)] aget_message_size [OF f] length_contents [OF g(3)] g(5) by simp
  ultimately show ?thesis using f by (auto simp: unlimited_def prod_eq_iff)
qed

section \<open>The contract of the callbacks\<close>

locale ws_client =
  fixes cb :: "'c ws_cb" and fresh :: "'c \<Rightarrow> bool" and opened :: "'c \<Rightarrow> bool" and closed :: "'c \<Rightarrow> bool" and gone :: "'c \<Rightarrow> bool"
  assumes fresh_law: "fresh cx \<Longrightarrow> opened cx"
    and connected_law: "fresh cx \<Longrightarrow> \<exists>cx'. cb WSCB_CONNECTED mb cx = Ok cx' \<and> fresh cx'"
    and message_law: "opened cx \<Longrightarrow> unlimited mb \<Longrightarrow> b_length mb + 1024 \<le> PTRDIFF_MAX \<Longrightarrow>
      \<exists>cx'. cb WSCB_MESSAGE mb cx = Ok cx' \<and> opened cx'"
    and close_law: "opened cx \<Longrightarrow> \<exists>cx'. cb WSCB_CLOSE mb cx = Ok cx' \<and> closed cx'"
    and delete_law: "opened cx \<or> closed cx \<Longrightarrow> \<exists>cx'. cb WSCB_DELETE mb cx = Ok cx' \<and> gone cx'"
begin

abbreviation cinv where
  "cinv \<equiv> conn_inv fresh opened closed cb"

abbreviation post where
  "post lim mlim cap \<equiv> conn_post (conn_inv fresh opened closed cb lim mlim cap) gone"

abbreviation rpost where
  "rpost lim mlim cap \<equiv> round_post (conn_inv fresh opened closed cb lim mlim cap) gone"

lemma delete_ok:
  assumes "cinv lim mlim cap conn" and "env_ok e"
  shows "okP (post lim mlim cap) (wsconn_delete e conn)"
proof -
  have "opened (c_custom_ctx conn) \<or> closed (c_custom_ctx conn)" "c_cb conn = Some cb"
    using assms(1) by (auto simp: conn_inv_def split: if_splits)
  then show ?thesis
    using delete_law [of "c_custom_ctx conn" "c_message_buffer conn"] assms(2)
    by (auto simp: wsconn_delete_def run_cb_if_def run_cb_def env_ok_def)
qed

lemma close_ok:
  assumes "cinv lim mlim cap conn" and "env_ok e"
  shows "okP (post lim mlim cap) (wsconn_close e conn)"
proof (cases "c_cm_state conn = CM_ST_CREATED")
  case True
  then have "opened (c_custom_ctx conn)" using assms(1) by (simp add: conn_inv_def)
  then obtain cx where "cb WSCB_CLOSE (c_message_buffer conn) (c_custom_ctx conn) = Ok cx" "closed cx"
    using close_law by blast
  then show ?thesis
    using True assms(1) by (auto simp: wsconn_close_def run_cb_def conn_inv_def phase_ok_def)
next
  case False
  have "cinv lim mlim cap (conn\<lparr>c_ws_state := WS_ST_CLOSED\<rparr>)"
    using False assms(1) by (auto simp: conn_inv_def phase_ok_def split: ws_state.splits)
  then show ?thesis
    using False delete_ok [OF _ assms(2)] by (auto simp: wsconn_close_def Let_def)
qed

lemma write_frame_ok:
  assumes "env_ok e" and "buf_ok b" and "b_length b + 2048 \<le> PTRDIFF_MAX"
  shows "wsconn_write_frame (e_al e) conn opcode (b_data b) (b_length b)
      = Ok (conn\<lparr>c_output := c_output conn @ frame_bytes opcode (contents b)\<rparr>)"
  using wsconn_write_frame_eq [of "e_al e" "b_length b" "b_data b" "contents b" conn opcode] assms
  by (simp add: env_ok_def contents_take)

lemma closing_ok:
  assumes "cinv lim mlim cap conn" and "c_ws_state conn = WS_ST_RECEIVING"
  shows "okP (cinv lim mlim cap) (closing status reason conn)"
proof -
  have ph: "c_cm_state conn = CM_ST_CREATED" "c_cb conn = Some cb" "opened (c_custom_ctx conn)"
    using assms by (auto simp: conn_inv_def phase_ok_def)
  obtain cx where "cb WSCB_CLOSE (c_message_buffer conn) (c_custom_ctx conn) = Ok cx" "closed cx"
    using close_law [OF ph(3)] by blast
  then show ?thesis
    using ph assms(1) by (auto simp: closing_def run_cb_def conn_inv_def phase_ok_def Let_def)
qed

lemma handshake_ok:
  assumes "cinv lim mlim cap conn" and "env_ok e" and "c_ws_state conn = WS_ST_START"
  shows "okP (post lim mlim cap) (wsconn_handshake e conn)"
proof -
  have rq: "rq_ok (c_req conn)" and cb: "c_cb conn = Some cb" and fr: "fresh (c_custom_ctx conn)"
    using assms(1,3) by (auto simp: conn_inv_def phase_ok_def)
  obtain cx1 where cx1: "cb WSCB_CONNECTED (c_message_buffer conn) (c_custom_ctx conn) = Ok cx1" "fresh cx1"
    using connected_law [OF fr] by blast
  obtain cx2 where cx2: "cb WSCB_CONNECTED (c_message_buffer conn) cx1 = Ok cx2" "opened cx2"
    using connected_law [OF cx1(2)] fresh_law by blast
  show ?thesis
    using assms close_ok [OF _ assms(2)] cx1 cx2 cb
    by (auto simp: handshake_eq [OF assms(2) rq] Let_def run_cb_if_def run_cb_def)
      (auto simp: conn_inv_def phase_ok_def)
qed

lemma read_lines_ok:
  assumes "cinv lim mlim cap conn" and "env_ok e" and "c_ws_state conn = WS_ST_START"
    and "lines_safe (absq (c_req conn)) (map line_text ls)"
  shows "okP (post lim mlim cap) (read_lines e ls conn)"
  using assms
proof (induction ls arbitrary: conn)
  case Nil
  then show ?case by simp
next
  case (Cons l ls)
  have rq: "rq_ok (c_req conn)" and al: "generous (e_al e)"
    using Cons.prems(1-3) by (auto simp: conn_inv_def env_ok_def)
  obtain h where h: "rq_add_line (e_al e) (c_req conn) (line_text l) = Ok h" "rq_ok h"
    "absq h = aadd_line (line_text l) (absq (c_req conn))"
    using rq_add_line_refines [OF rq al] Cons.prems(4) by auto
  have inv: "cinv lim mlim cap (conn\<lparr>c_req := h\<rparr>)"
    using Cons.prems(1) h(2) by (simp add: conn_inv_def)
  show ?case
    using Cons.IH [OF inv Cons.prems(2)] close_ok [OF inv Cons.prems(2)] handshake_ok [OF inv Cons.prems(2)]
      Cons.prems(3,4) h by (simp add: Let_def)
qed

lemma on_close_frame_ok:
  assumes "cinv lim mlim cap conn" and "env_ok e" and "c_ws_state conn = WS_ST_RECEIVING"
    and "unlimited b" and "b_length b + 8192 \<le> PTRDIFF_MAX"
  shows "okP (post lim mlim cap) (on_close_frame e conn b)"
proof -
  have fl: "\<not> c_fl_ws_closing conn" using assms(1,3) by (auto simp: conn_inv_def phase_ok_def)
  have "okP (cinv lim mlim cap) (closing s r (conn\<lparr>c_status := s\<rparr>))" for s r
    using closing_ok [of lim mlim cap "conn\<lparr>c_status := s\<rparr>"] assms(1,3) by simp
  then show ?thesis
    unfolding on_close_frame_eq [OF assms(2) fl assms(4,5)] by simp
qed

lemma stop_round:
  assumes "okP (post lim mlim cap) r"
  shows "okP (rpost lim mlim cap) (bindr r (\<lambda>c. Ok (Inl c)))"
  using assms by (auto simp: okP_iff)

lemma frame_round_ok:
  assumes inv: "cinv lim mlim cap conn" and e: "env_ok e" and st: "c_ws_state conn = WS_ST_RECEIVING" and b: "unlimited b"
    and f: "\<not> wsmsg_fail (c_wsmsg conn)" "wsmsg_has_frame (c_wsmsg conn)"
  shows "okP (rpost lim mlim cap) (process_round e conn b)"
proof -
  have al: "generous (e_al e)" using e by (simp add: env_ok_def)
  have w: "wsmsg_inv lim mlim cap (c_wsmsg conn)" "limits lim mlim cap" using inv by (auto simp: conn_inv_def)
  obtain fin opcode msk w' b' where g: "wsmsg_get_frame (e_al e) (c_wsmsg conn) b = Ok (True, w', b', Some (fin, opcode, msk))"
    "wsmsg_inv lim mlim cap w'" "unlimited b'" "b_length b' + 8192 \<le> PTRDIFF_MAX"
    using take_frame [OF w al b f(2)] by blast
  have i: "cinv lim mlim cap (conn\<lparr>c_wsmsg := w'\<rparr>)" using inv g(2) by (simp add: conn_inv_def)
  have "okP (rpost lim mlim cap) (bindr (on_close_frame e (conn\<lparr>c_wsmsg := w'\<rparr>) b') (\<lambda>c. Ok (Inl c)))"
    using stop_round [OF on_close_frame_ok [OF i e _ g(3,4)]] st by simp
  then show ?thesis
    using f g i st write_frame_ok [OF e, of b' "conn\<lparr>c_wsmsg := w'\<rparr>" "of_nat OPCODE_PONG"]
    by (auto simp: process_round_def buffer_get_length_def Let_def)
qed

lemma message_round_ok:
  assumes inv: "cinv lim mlim cap conn" and e: "env_ok e" and st: "c_ws_state conn = WS_ST_RECEIVING" and b: "unlimited b"
    and f: "\<not> wsmsg_fail (c_wsmsg conn)" "\<not> wsmsg_has_frame (c_wsmsg conn)" "wsmsg_has_message (c_wsmsg conn)"
  shows "okP (rpost lim mlim cap) (process_round e conn b)"
proof -
  have al: "generous (e_al e)" using e by (simp add: env_ok_def)
  have w: "wsmsg_inv lim mlim cap (c_wsmsg conn)" "limits lim mlim cap" and cb: "c_cb conn = Some cb"
    and op: "opened (c_custom_ctx conn)" and mb: "unlimited (c_message_buffer conn)"
    using inv st by (auto simp: conn_inv_def phase_ok_def)
  obtain opcode w' b' where g: "wsmsg_get_message (e_al e) (c_wsmsg conn) (c_message_buffer conn) = Ok (True, w', b', Some opcode)"
    "wsmsg_inv lim mlim cap w'" "unlimited b'" "b_length b' + 8192 \<le> PTRDIFF_MAX"
    using take_message [OF w al mb f(3)] by blast
  let ?c = "conn\<lparr>c_wsmsg := w', c_message_buffer := b'\<rparr>"
  have i: "cinv lim mlim cap ?c" using inv g(2,3) by (simp add: conn_inv_def)
  obtain cx where cx: "cb WSCB_MESSAGE b' (c_custom_ctx conn) = Ok cx" "opened cx"
    using message_law [OF op g(3)] g(4) by auto
  have "cinv lim mlim cap (?c\<lparr>c_custom_ctx := cx\<rparr>)" using i cx(2) st by (auto simp: conn_inv_def phase_ok_def)
  then show ?thesis
    using f g(1) cx cb st b i stop_round [OF close_ok [OF i e]]
    by (auto simp: process_round_def Let_def)
qed

lemma process_round_ok:
  assumes "cinv lim mlim cap conn" and "env_ok e" and "c_ws_state conn = WS_ST_RECEIVING" and "unlimited b"
  shows "okP (rpost lim mlim cap) (process_round e conn b)"
proof -
  let ?w = "c_wsmsg conn"
  consider (fail) "wsmsg_fail ?w" | (frame) "\<not> wsmsg_fail ?w" "wsmsg_has_frame ?w"
    | (message) "\<not> wsmsg_fail ?w" "\<not> wsmsg_has_frame ?w" "wsmsg_has_message ?w"
    | (idle) "\<not> wsmsg_fail ?w" "\<not> wsmsg_has_frame ?w" "\<not> wsmsg_has_message ?w" by blast
  then show ?thesis
  proof cases
    case fail
    then show ?thesis using stop_round [OF close_ok [OF assms(1,2)]] by (simp add: process_round_def Let_def)
  next
    case idle
    then show ?thesis using assms(1) by (simp add: process_round_def Let_def)
  qed (rule frame_round_ok [OF assms] message_round_ok [OF assms]; assumption)+
qed

lemma process_loop_ok:
  assumes "cinv lim mlim cap conn" and "env_ok e" and "c_ws_state conn = WS_ST_RECEIVING" and "unlimited b"
  shows "okP (post lim mlim cap) (process_loop e conn b)"
  using assms
proof (induction e conn b rule: process_loop.induct)
  case (1 e conn b)
  obtain r where "process_round e conn b = Ok r" "rpost lim mlim cap r"
    using process_round_ok [OF 1(2-5)] by (auto simp: okP_iff)
  then show ?case
    using 1(1) 1(3) by (cases r) (auto simp: process_loop.simps [of e conn b])
qed

lemma process_frame_ok:
  assumes "cinv lim mlim cap conn" and "env_ok e" and "c_ws_state conn = WS_ST_RECEIVING" and "length data < 2 ^ 62"
  shows "okP (post lim mlim cap) (wsconn_process_frame e data conn)"
proof -
  have al: "generous (e_al e)" using assms(2) by (simp add: env_ok_def)
  have w: "wsmsg_inv lim mlim cap (c_wsmsg conn)" and lim: "limits lim mlim cap"
    using assms(1) by (auto simp: conn_inv_def)
  obtain b where b: "buffer_create (e_al e) 0 = Some b" "unlimited b"
    by (rule create_unlimited_buffer [OF al])
  have g: "granted (e_al e) (length data)"
    using generous_small [OF al] assms(4) by (simp add: PTRDIFF_MAX_def)
  have "safe_run lim mlim cap [Add data] (absw (c_wsmsg conn))"
    using safe_run_limited [OF w, of "Add data"] lim assms(4) by (simp add: limits_def)
  then obtain res w' where "wsmsg_add (e_al e) (c_wsmsg conn) data (length data) = Ok (res, w')"
    "wsmsg_inv lim mlim cap w'"
    using wsmsg_add_refines [OF w al _ refl, of data data] by (auto simp: Let_def)
  moreover from this have "cinv lim mlim cap (conn\<lparr>c_wsmsg := w'\<rparr>)" using assms(1) by (simp add: conn_inv_def)
  ultimately show ?thesis
    using process_loop_ok [OF _ assms(2) _ b(2)] assms(3) b(1) g by (simp add: wsconn_process_frame_def)
qed

text \<open>The callbacks of libevent, and the report of the connection manager.\<close>

lemma read_cb_ok:
  assumes "cinv lim mlim cap conn" and "env_ok e" and "input_ok conn inp"
  shows "okP (post lim mlim cap) (wsconn_read_cb e inp conn)"
  using assms read_lines_ok [OF assms(1,2)] process_frame_ok [OF assms(1,2)]
  by (cases "c_ws_state conn") (simp_all add: wsconn_read_cb_def input_ok_def)

lemma event_cb_ok:
  assumes "cinv lim mlim cap conn" and "env_ok e"
  shows "okP (post lim mlim cap) (wsconn_event_cb e events conn)"
  using close_ok [OF assms] assms by (simp add: wsconn_event_cb_def env_ok_def LOG_eq)

lemma write_cb_ok:
  assumes "cinv lim mlim cap conn" and "env_ok e"
  shows "okP (post lim mlim cap) (wsconn_write_cb e len conn)"
  using delete_ok [OF assms] assms(1) by (simp add: wsconn_write_cb_def)

end

section \<open>The report of the connection manager\<close>

text \<open>When the XMPP side goes away the client is told so with status 1001.\<close>

lemma xmpp_closed_length: "length xmpp_closed = 18"
  by (simp add: xmpp_closed_def)

lemma onclosed_receiving:
  assumes "env_ok e" and "c_ws_state conn = WS_ST_RECEIVING" and "\<not> c_fl_ws_closing conn"
  shows "wsconn_onclosed e conn = Ok (Live (conn\<lparr>c_cm_state := CM_ST_CLOSED, c_fl_cm_closed := True,
     c_output := c_output conn @ frame_bytes 8 (htons_bytes 1001 @ xmpp_closed),
     c_ws_state := WS_ST_CLOSING, c_fl_ws_closing := True\<rparr>))"
  using initiate_close_eq [of "e_al e" "conn\<lparr>c_cm_state := CM_ST_CLOSED, c_fl_cm_closed := True\<rparr>" 18 xmpp_closed 1001] assms
  by (simp add: wsconn_onclosed_def env_ok_def xmpp_closed_length PTRDIFF_MAX_def closing_def Let_def)

end
