(* ===== verification/Expat.thy ===== *)
theory Expat
  imports C_String
begin

text \<open>
  The interface of the XML parser Expat, which is not part of the program. A parser is known by the
  chunks it was given since it was created. What a call of \<open>XML_Parse\<close> reports, the element events in
  order, each with \<open>XML_GetCurrentByteIndex\<close> and \<open>XML_GetCurrentByteCount\<close> at that moment, and whether
  the input was well-formed so far, is a parameter of every definition that parses (\<open>x_parse\<close>).
\<close>

datatype xml_event =
    Xml_Start (ev_name: string) (ev_attrs: "(string \<times> string) list") (ev_index: int) (ev_count: int)
  | Xml_End (ev_name: string) (ev_index: int) (ev_count: int)

record expat =
  x_create :: bool
  x_parse :: "byte list list \<Rightarrow> byte list \<Rightarrow> xml_event list \<times> bool"

datatype xml_parser = XP_Null | XP "byte list list" | XP_Freed

definition xml_create :: "expat \<Rightarrow> xml_parser" where
  "xml_create xp = (if x_create xp then XP [] else XP_Null)"

definition xml_parse :: "expat \<Rightarrow> xml_parser \<Rightarrow> byte list \<Rightarrow> (xml_event list \<times> bool \<times> xml_parser) cres" where
  "xml_parse xp p data =
     (case p of
        XP_Null \<Rightarrow> Fault Null_Pointer
      | XP_Freed \<Rightarrow> Fault Use_After_Free
      | XP chunks \<Rightarrow> (case x_parse xp chunks data of (evs, ok) \<Rightarrow> Ok (evs, ok, XP (chunks @ [data]))))"

text \<open>The end of the bytes an event stands for, as Expat documents it.\<close>

definition ev_end :: "xml_event \<Rightarrow> int" where
  "ev_end ev = ev_index ev + ev_count ev"

text \<open>The name of an element with its namespace, separated by the character the parsers are created with.\<close>

definition NS_SEP :: char where
  "NS_SEP = CHR 0xFF"

definition bare_name :: "string \<Rightarrow> string option" where
  "bare_name el = map_option snd (strchr_split NS_SEP el)"

end
