(* ===== verification/Framer.thy ===== *)
theory Framer
  imports Expat Util_Buffer
begin

text \<open>
  \<open>framer.c\<close>: cutting the stream of the XMPP server into frames. The parser's element events give the
  positions of the opening tag of the stream, of each stanza and of the closing tag; the bytes wait in
  a buffer until the frame is taken out. The positions are of type \<open>int\<close>, as in the code.
\<close>

section \<open>State\<close>

record frame_t =
  fr_index :: int
  fr_size :: int

record framer_t =
  f_parser :: xml_parser
  f_level :: int
  f_error :: bool
  f_index :: int
  f_frames :: "frame_t list"
  f_list_freed :: bool
  f_buffer :: "buffer_t option"
  f_buffer_index :: int

definition sizeof_framer_t :: nat where
  "sizeof_framer_t = 56"

definition sizeof_frame_t :: nat where
  "sizeof_frame_t = 16"

text \<open>Arithmetic on \<open>int\<close>, and the conversion of a wider integer to \<open>int\<close>.\<close>

definition int_op :: "int \<Rightarrow> int cres" where
  "int_op i = (if in_int_range i then Ok i else Fault Signed_Overflow)"

definition to_int :: "int \<Rightarrow> int" where
  "to_int i = (i + 2147483648) mod 4294967296 - 2147483648"

section \<open>Creation\<close>

definition framer_create :: "allocator \<Rightarrow> expat \<Rightarrow> framer_t option" where
  "framer_create al xp =
     (if \<not> granted al sizeof_framer_t then None
      else if xml_create xp = XP_Null then None
      else case buffer_create al 0 of
        None \<Rightarrow> None
      | Some b \<Rightarrow> Some \<lparr>f_parser = xml_create xp, f_level = 0, f_error = False, f_index = 0,
                         f_frames = [], f_list_freed = False, f_buffer = Some b, f_buffer_index = 0\<rparr>)"

text \<open>\<open>framer_cleanup\<close> frees the parser, the buffer and the list; \<open>head\<close> and \<open>tail\<close> keep their values
  (\<open>f_list_freed\<close>), so the list must not be used before it is set again.\<close>

definition framer_cleanup :: "framer_t \<Rightarrow> framer_t cres" where
  "framer_cleanup f =
     (if f_parser f = XP_Freed \<or> f_list_freed f \<and> f_frames f \<noteq> [] then Fault Use_After_Free
      else Ok (f\<lparr>f_parser := XP_Null, f_buffer := None, f_list_freed := True\<rparr>))"

definition framer_delete :: "framer_t \<Rightarrow> unit cres" where
  "framer_delete f = bindr (framer_cleanup f) (\<lambda>f'. Ok ())"

text \<open>\<open>framer_initialize\<close>: its result and the framer. On the error path the parser is freed and its
  pointer kept.\<close>

definition framer_initialize :: "allocator \<Rightarrow> expat \<Rightarrow> framer_t \<Rightarrow> (bool \<times> framer_t) cres" where
  "framer_initialize al xp f =
     bindr (framer_cleanup f) (\<lambda>f1.
     if xml_create xp = XP_Null then Ok (False, f1)
     else
       (let f2 = f1\<lparr>f_parser := xml_create xp, f_level := 0, f_error := False, f_index := 0,
                    f_buffer_index := 0, f_frames := [], f_list_freed := False\<rparr> in
        case buffer_create al 0 of
          None \<Rightarrow> Ok (False, f2\<lparr>f_parser := XP_Freed\<rparr>)
        | Some b \<Rightarrow> Ok (True, f2\<lparr>f_buffer := Some b\<rparr>)))"

definition framer_reset :: "allocator \<Rightarrow> expat \<Rightarrow> framer_t \<Rightarrow> (bool \<times> framer_t) cres" where
  "framer_reset al xp f = framer_initialize al xp f"

section \<open>Events\<close>

definition framer_add_frame :: "allocator \<Rightarrow> framer_t \<Rightarrow> int \<Rightarrow> int \<Rightarrow> framer_t" where
  "framer_add_frame al f index sz =
     (if granted al sizeof_frame_t then f\<lparr>f_frames := f_frames f @ [\<lparr>fr_index = index, fr_size = sz\<rparr>]\<rparr> else f)"

definition framer_remove_frame :: "framer_t \<Rightarrow> framer_t" where
  "framer_remove_frame f = f\<lparr>f_frames := drop 1 (f_frames f)\<rparr>"

definition framer_start :: "allocator \<Rightarrow> framer_t \<Rightarrow> string \<Rightarrow> int \<Rightarrow> int \<Rightarrow> framer_t cres" where
  "framer_start al f el index count =
     (let f1 = (case bare_name el of
                  None \<Rightarrow> f
                | Some name \<Rightarrow>
                    if name = ''stream'' then framer_add_frame al (f\<lparr>f_level := 0\<rparr>) (to_int index) count
                    else if f_level f = 1 then f\<lparr>f_index := to_int index\<rparr>
                    else f)
      in bindr (int_op (f_level f1 + 1)) (\<lambda>l. Ok (f1\<lparr>f_level := l\<rparr>)))"

definition framer_end :: "allocator \<Rightarrow> framer_t \<Rightarrow> string \<Rightarrow> int \<Rightarrow> int \<Rightarrow> framer_t cres" where
  "framer_end al f el index count =
     bindr (int_op (f_level f - 1)) (\<lambda>l.
     let f1 = f\<lparr>f_level := l\<rparr> in
     if l = 1 then
       bindr (int_op (to_int (index + count) - f_index f1)) (\<lambda>sz. Ok (framer_add_frame al f1 (f_index f1) sz))
     else if bare_name el = Some ''stream'' then Ok (framer_add_frame al f1 (to_int index) count)
     else Ok f1)"

fun framer_events :: "allocator \<Rightarrow> xml_event list \<Rightarrow> framer_t \<Rightarrow> framer_t cres" where
  "framer_events al [] f = Ok f"
| "framer_events al (Xml_Start el attrs index count # evs) f =
     bindr (framer_start al f el index count) (framer_events al evs)"
| "framer_events al (Xml_End el index count # evs) f =
     bindr (framer_end al f el index count) (framer_events al evs)"

section \<open>Adding bytes and taking frames\<close>

definition framer_add :: "allocator \<Rightarrow> expat \<Rightarrow> framer_t \<Rightarrow> byte list \<Rightarrow> (bool \<times> framer_t) cres" where
  "framer_add al xp f message =
     bindr (xml_parse xp (f_parser f) message) (\<lambda>(evs, ok, p).
     bindr (framer_events al evs (f\<lparr>f_parser := p\<rparr>)) (\<lambda>f1.
     if \<not> ok then Ok (False, f1\<lparr>f_error := True\<rparr>)
     else case f_buffer f1 of
       None \<Rightarrow> Fault Null_Pointer
     | Some b \<Rightarrow> bindr (buffer_append al b message (length message)) (\<lambda>(res, b'). Ok (True, f1\<lparr>f_buffer := Some b'\<rparr>))))"

definition framer_has_frame :: "framer_t \<Rightarrow> bool" where
  "framer_has_frame f \<longleftrightarrow> f_frames f \<noteq> []"

text \<open>Both functions first drop the bytes before the frame.\<close>

definition framer_skip :: "framer_t \<Rightarrow> frame_t \<Rightarrow> buffer_t \<Rightarrow> (buffer_t \<times> int) cres" where
  "framer_skip f fr b =
     (if f_buffer_index f < fr_index fr then
        bindr (int_op (fr_index fr - f_buffer_index f)) (\<lambda>delta.
        bindr (buffer_remove_data b (size_of_int delta)) (\<lambda>b'.
        bindr (int_op (f_buffer_index f + delta)) (\<lambda>bi. Ok (b', bi))))
      else Ok (b, f_buffer_index f))"

text \<open>\<open>framer_get_frame\<close>: the new block with the frame, or \<open>None\<close> when it cannot be allocated.\<close>

definition framer_get_frame :: "allocator \<Rightarrow> framer_t \<Rightarrow> (byte list option \<times> framer_t) cres" where
  "framer_get_frame al f =
     (case (f_frames f, f_buffer f) of
        (fr # _, Some b) \<Rightarrow>
          if f_list_freed f then Fault Use_After_Free else
          bindr (framer_skip f fr b) (\<lambda>(b1, bi).
          let n = size_of_int (fr_size fr); f1 = f\<lparr>f_buffer := Some b1, f_buffer_index := bi\<rparr> in
          if \<not> granted al n then Ok (None, f1)
          else
            bindr (buffer_get_data b1 n) (\<lambda>data.
            bindr (buffer_remove_data b1 n) (\<lambda>b2.
            Ok (Some data, (framer_remove_frame f1)\<lparr>f_buffer := Some b2,
                  f_buffer_index := to_int (int (size_add (size_of_int bi) n))\<rparr>))))
      | _ \<Rightarrow> Fault Null_Pointer)"

text \<open>\<open>framer_get_frame2\<close>: the data, the size of the frame and the framer.\<close>

definition framer_get_frame2 :: "framer_t \<Rightarrow> data_t \<Rightarrow> (data_t \<times> nat \<times> framer_t) cres" where
  "framer_get_frame2 f data =
     (case (f_frames f, f_buffer f) of
        (fr # _, Some b) \<Rightarrow>
          if f_list_freed f then Fault Use_After_Free else
          bindr (framer_skip f fr b) (\<lambda>(b1, bi).
          let n = size_of_int (fr_size fr) in
          bindr (buffer_get_data2 b1 data n) (\<lambda>data'.
          bindr (buffer_remove_data b1 n) (\<lambda>b2.
          Ok (data', n, (framer_remove_frame f)\<lparr>f_buffer := Some b2,
                f_buffer_index := to_int (int (size_add (size_of_int bi) n))\<rparr>))))
      | _ \<Rightarrow> Fault Null_Pointer)"

end
