(* ===== verification/FramerStream.thy ===== *)
theory FramerStream
  imports Framer WsFrames
begin

text \<open>
  What the framer makes of an XMPP stream. \<open>flog\<close> is the list of the frames a sequence of events asks
  for, on unbounded integers; \<open>stream_frames\<close> are the frames a stream means: its opening tag, each
  stanza as a whole, its closing tag. The run of the framer cuts exactly these pieces out of the bytes,
  however they arrive and whenever frames are taken.
\<close>

section \<open>The frames of a sequence of events\<close>

fun flog_step :: "xml_event \<Rightarrow> int \<times> int \<Rightarrow> frame_t list \<times> int \<times> int" where
  "flog_step (Xml_Start el attrs i c) (lv, ix) =
     (case bare_name el of
        None \<Rightarrow> ([], lv + 1, ix)
      | Some name \<Rightarrow>
          if name = ''stream'' then ([\<lparr>fr_index = i, fr_size = c\<rparr>], 1, ix)
          else if lv = 1 then ([], 2, i)
          else ([], lv + 1, ix))"
| "flog_step (Xml_End el i c) (lv, ix) =
     (if lv = 2 then ([\<lparr>fr_index = ix, fr_size = i + c - ix\<rparr>], 1, ix)
      else if bare_name el = Some ''stream'' then ([\<lparr>fr_index = i, fr_size = c\<rparr>], lv - 1, ix)
      else ([], lv - 1, ix))"

fun flog :: "xml_event list \<Rightarrow> int \<times> int \<Rightarrow> frame_t list \<times> int \<times> int" where
  "flog [] st = ([], st)"
| "flog (ev # evs) st =
     (let (frs, st1) = flog_step ev st; (frs', st2) = flog evs st1 in (frs @ frs', st2))"

definition fr_end :: "frame_t \<Rightarrow> int" where
  "fr_end fr = fr_index fr + fr_size fr"

lemma flog_append:
  "flog (xs @ ys) st = (fst (flog xs st) @ fst (flog ys (snd (flog xs st))), snd (flog ys (snd (flog xs st))))"
  by (induction xs arbitrary: st) (auto simp: split_beta)

lemma flog_step_end: "fr \<in> set (fst (flog_step ev st)) \<Longrightarrow> fr_end fr = ev_end ev"
  by (cases ev; cases st) (auto simp: fr_end_def ev_end_def split: option.splits if_splits)

lemma flog_ends: "fr \<in> set (fst (flog evs st)) \<Longrightarrow> \<exists>ev \<in> set evs. fr_end fr = ev_end ev"
proof (induction evs arbitrary: st)
  case (Cons ev evs)
  then show ?case using flog_step_end [of fr ev st] by (fastforce simp: split_beta)
qed simp

text \<open>Events as Expat reports them for input shorter than 2 GiB.\<close>

definition small_event :: "int \<Rightarrow> xml_event \<Rightarrow> bool" where
  "small_event n ev \<longleftrightarrow> 0 \<le> ev_index ev \<and> 0 \<le> ev_count ev \<and> ev_end ev \<le> n"

lemma to_int_small: "0 \<le> i \<Longrightarrow> i \<le> INT_MAX \<Longrightarrow> to_int i = i"
  by (simp add: to_int_def INT_MAX_def)

lemma framer_event_flog:
  assumes al: "granted al sizeof_frame_t" and ev: "small_event INT_MAX ev"
    and ix: "0 \<le> f_index f" "f_index f \<le> INT_MAX" and lv: "\<bar>f_level f\<bar> < INT_MAX"
  shows "framer_events al [ev] f = Ok (f\<lparr>f_frames := f_frames f @ fst (flog_step ev (f_level f, f_index f)),
     f_level := fst (snd (flog_step ev (f_level f, f_index f))),
     f_index := snd (snd (flog_step ev (f_level f, f_index f)))\<rparr>)"
    and "0 \<le> snd (snd (flog_step ev (f_level f, f_index f)))"
    and "snd (snd (flog_step ev (f_level f, f_index f))) \<le> INT_MAX"
    and "\<bar>fst (snd (flog_step ev (f_level f, f_index f)))\<bar> \<le> \<bar>f_level f\<bar> + 1"
proof -
  have e: "0 \<le> ev_index ev" "ev_index ev \<le> INT_MAX" "0 \<le> ev_end ev" "ev_end ev \<le> INT_MAX"
    using ev by (auto simp: small_event_def ev_end_def)
  have r: "in_int_range (f_level f + 1)" "in_int_range (f_level f - 1)" "in_int_range 1" "in_int_range 2"
    "in_int_range (ev_end ev - f_index f)"
    using lv e ix by (auto simp: in_int_range_def INT_MAX_def)
  show "framer_events al [ev] f = Ok (f\<lparr>f_frames := f_frames f @ fst (flog_step ev (f_level f, f_index f)),
     f_level := fst (snd (flog_step ev (f_level f, f_index f))),
     f_index := snd (snd (flog_step ev (f_level f, f_index f)))\<rparr>)"
    using r e al to_int_small
    by (cases ev) (auto simp: framer_start_def framer_end_def framer_add_frame_def int_op_def ev_end_def split: option.splits)
  show "0 \<le> snd (snd (flog_step ev (f_level f, f_index f)))" "snd (snd (flog_step ev (f_level f, f_index f))) \<le> INT_MAX"
    "\<bar>fst (snd (flog_step ev (f_level f, f_index f)))\<bar> \<le> \<bar>f_level f\<bar> + 1"
    using e ix by (cases ev; auto split: option.splits)+
qed

lemma framer_events_Cons: "framer_events al (ev # evs) f = bindr (framer_events al [ev] f) (framer_events al evs)"
  by (cases ev) simp_all

lemma framer_events_flog:
  assumes "granted al sizeof_frame_t" and "\<forall>ev \<in> set evs. small_event INT_MAX ev"
    and "0 \<le> f_index f" "f_index f \<le> INT_MAX" and "\<bar>f_level f\<bar> + int (length evs) \<le> INT_MAX"
  shows "framer_events al evs f = Ok (f\<lparr>f_frames := f_frames f @ fst (flog evs (f_level f, f_index f)),
       f_level := fst (snd (flog evs (f_level f, f_index f))), f_index := snd (snd (flog evs (f_level f, f_index f)))\<rparr>)
     \<and> 0 \<le> snd (snd (flog evs (f_level f, f_index f))) \<and> snd (snd (flog evs (f_level f, f_index f))) \<le> INT_MAX
     \<and> \<bar>fst (snd (flog evs (f_level f, f_index f)))\<bar> \<le> \<bar>f_level f\<bar> + int (length evs)"
  using assms
proof (induction evs arbitrary: f)
  case Nil
  then show ?case by simp
next
  case (Cons ev evs)
  have ev: "small_event INT_MAX ev" "\<bar>f_level f\<bar> < INT_MAX" using Cons.prems by auto
  note st = framer_event_flog [OF Cons.prems(1) ev(1) Cons.prems(3,4) ev(2)]
  let ?r = "flog_step ev (f_level f, f_index f)"
  let ?f = "f\<lparr>f_frames := f_frames f @ fst ?r, f_level := fst (snd ?r), f_index := snd (snd ?r)\<rparr>"
  have prems: "\<forall>ev \<in> set evs. small_event INT_MAX ev" "0 \<le> f_index ?f" "f_index ?f \<le> INT_MAX"
    "\<bar>f_level ?f\<bar> + int (length evs) \<le> INT_MAX"
    using Cons.prems st(2-4) by auto
  show ?case
    using Cons.IH [OF Cons.prems(1) prems] st
    by (subst framer_events_Cons) (auto simp: split_beta)
qed

section \<open>Streams\<close>

text \<open>An element of the stream with the positions of its tags; an empty-element tag has both in one.\<close>

datatype xml_elem = Elem string "(string \<times> string) list" int int "xml_elem list" int int

fun elem_events :: "xml_elem \<Rightarrow> xml_event list" where
  "elem_events (Elem el attrs i c es j d) =
     Xml_Start el attrs i c # concat (map elem_events es) @ [Xml_End el j d]"

fun no_stream :: "xml_elem \<Rightarrow> bool" where
  "no_stream (Elem el attrs i c es j d) \<longleftrightarrow> bare_name el \<noteq> Some ''stream'' \<and> (\<forall>e \<in> set es. no_stream e)"

fun elem_name :: "xml_elem \<Rightarrow> string" where
  "elem_name (Elem el attrs i c es j d) = el"

text \<open>A stanza is an element with a namespace that has no element \<open>stream\<close> in it.\<close>

definition is_stanza :: "xml_elem \<Rightarrow> bool" where
  "is_stanza e \<longleftrightarrow> bare_name (elem_name e) \<noteq> None \<and> no_stream e"

fun elem_frame :: "xml_elem \<Rightarrow> frame_t" where
  "elem_frame (Elem el attrs i c es j d) = \<lparr>fr_index = i, fr_size = j + d - i\<rparr>"

record xmpp_stream =
  st_name :: string
  st_attrs :: "(string \<times> string) list"
  st_open :: frame_t
  st_stanzas :: "xml_elem list"
  st_close :: "frame_t option"

definition stream_events :: "xmpp_stream \<Rightarrow> xml_event list" where
  "stream_events s = Xml_Start (st_name s) (st_attrs s) (fr_index (st_open s)) (fr_size (st_open s))
     # concat (map elem_events (st_stanzas s))
     @ (case st_close s of None \<Rightarrow> [] | Some c \<Rightarrow> [Xml_End (st_name s) (fr_index c) (fr_size c)])"

definition stream_frames :: "xmpp_stream \<Rightarrow> frame_t list" where
  "stream_frames s = st_open s # map elem_frame (st_stanzas s) @ (case st_close s of None \<Rightarrow> [] | Some c \<Rightarrow> [c])"

definition stream_ok :: "xmpp_stream \<Rightarrow> bool" where
  "stream_ok s \<longleftrightarrow> bare_name (st_name s) = Some ''stream'' \<and> (\<forall>e \<in> set (st_stanzas s). is_stanza e)"

lemma flog_inner: "no_stream e \<Longrightarrow> 2 \<le> lv \<Longrightarrow> flog (elem_events e) (lv, ix) = ([], lv, ix)"
proof (induction e arbitrary: lv)
  case (Elem el attrs i c es j d)
  have "flog (concat (map elem_events xs)) (lv + 1, ix) = ([], lv + 1, ix)" if "set xs \<subseteq> set es" for xs
    using that
  proof (induction xs)
    case (Cons x xs)
    then show ?case using Elem.IH [of x "lv + 1"] Elem.prems by (simp add: flog_append)
  qed simp
  from this [of es] show ?case
    using Elem.prems by (simp add: flog_append split: option.splits)
qed

lemma flog_stanza:
  assumes "is_stanza e"
  shows "flog (elem_events e) (1, ix) = ([elem_frame e], 1, fr_index (elem_frame e))"
proof -
  obtain el attrs i c es j d where e: "e = Elem el attrs i c es j d" by (cases e)
  have "flog (concat (map elem_events xs)) (2, i) = ([], 2, i)" if "set xs \<subseteq> set es" for xs
    using that assms by (induction xs) (auto simp: flog_append flog_inner is_stanza_def e)
  from this [of es] show ?thesis
    using assms by (auto simp: e is_stanza_def flog_append split: option.splits)
qed

lemma flog_stanzas:
  "\<forall>e \<in> set es. is_stanza e \<Longrightarrow>
     flog (concat (map elem_events es)) (1, ix)
       = (map elem_frame es, 1, if es = [] then ix else fr_index (elem_frame (last es)))"
proof (induction es arbitrary: ix)
  case (Cons e es)
  then show ?case using flog_stanza [of e ix] by (simp add: flog_append)
qed simp

lemma flog_stream:
  assumes "stream_ok s"
  shows "fst (flog (stream_events s) (0, 0)) = stream_frames s"
  using assms flog_stanzas [of "st_stanzas s" 0]
  by (simp add: stream_events_def stream_frames_def stream_ok_def flog_append split_beta split: option.splits)

text \<open>An open stream leaves the framer at level 1 with the position of the last stanza.\<close>

definition last_start :: "xmpp_stream \<Rightarrow> int" where
  "last_start s = (if st_stanzas s = [] then 0 else fr_index (elem_frame (last (st_stanzas s))))"

lemma flog_open_stream:
  assumes "stream_ok s" and "st_close s = None"
  shows "snd (flog (stream_events s) (0, 0)) = (1, last_start s)"
  using assms flog_stanzas [of "st_stanzas s" 0]
  by (simp add: stream_events_def stream_ok_def last_start_def flog_append split_beta)

section \<open>Positions\<close>

fun frames_ok :: "int \<Rightarrow> frame_t list \<Rightarrow> bool" where
  "frames_ok lo [] \<longleftrightarrow> True"
| "frames_ok lo (fr # frs) \<longleftrightarrow> lo \<le> fr_index fr \<and> 0 \<le> fr_size fr \<and> frames_ok (fr_end fr) frs"

fun last_end :: "int \<Rightarrow> frame_t list \<Rightarrow> int" where
  "last_end lo [] = lo"
| "last_end lo (fr # frs) = last_end (fr_end fr) frs"

lemma frames_ok_append: "frames_ok lo (xs @ ys) \<longleftrightarrow> frames_ok lo xs \<and> frames_ok (last_end lo xs) ys"
  by (induction xs arbitrary: lo) auto

lemma last_end_append [simp]: "last_end lo (xs @ ys) = last_end (last_end lo xs) ys"
  by (induction xs arbitrary: lo) auto

lemma last_end_ge: "frames_ok lo frs \<Longrightarrow> lo \<le> last_end lo frs"
  by (induction frs arbitrary: lo) (fastforce simp: fr_end_def)+

definition piece :: "byte list \<Rightarrow> frame_t \<Rightarrow> byte list" where
  "piece bs fr = take (nat (fr_size fr)) (drop (nat (fr_index fr)) bs)"

lemma piece_append: "fr_end fr \<le> int (length bs) \<Longrightarrow> 0 \<le> fr_index fr \<Longrightarrow> piece (bs @ cs) fr = piece bs fr"
  by (simp add: piece_def fr_end_def)

section \<open>The invariant of the framer\<close>

text \<open>\<open>chunks\<close> were fed, \<open>evs\<close> reported, \<open>taken\<close> is the list of the frames taken so far.\<close>

definition framer_inv :: "byte list list \<Rightarrow> xml_event list \<Rightarrow> frame_t list \<Rightarrow> framer_t \<Rightarrow> bool" where
  "framer_inv chunks evs taken f \<longleftrightarrow> f_parser f = XP chunks \<and> \<not> f_list_freed f
     \<and> (\<exists>b. f_buffer f = Some b \<and> unlimited b \<and> contents b = drop (nat (f_buffer_index f)) (concat chunks))
     \<and> f_buffer_index f = last_end 0 taken \<and> 0 \<le> f_buffer_index f
     \<and> f_buffer_index f \<le> int (length (concat chunks)) \<and> int (length (concat chunks)) \<le> INT_MAX
     \<and> fst (flog evs (0, 0)) = taken @ f_frames f \<and> snd (flog evs (0, 0)) = (f_level f, f_index f)
     \<and> 0 \<le> f_index f \<and> f_index f \<le> INT_MAX \<and> \<bar>f_level f\<bar> \<le> int (length evs)
     \<and> (\<forall>ev \<in> set evs. small_event (int (length (concat chunks))) ev)"

lemma framer_create_inv:
  assumes "generous al" and "x_create xp"
  shows "\<exists>f. framer_create al xp = Some f \<and> framer_inv [] [] [] f"
proof -
  obtain b where "buffer_create al 0 = Some b" "unlimited b" "contents b = []"
    by (rule create_unlimited_buffer [OF assms(1)])
  moreover have "granted al sizeof_framer_t"
    using assms(1) by (simp add: generous_granted sizeof_framer_t_def PTRDIFF_MAX_def)
  ultimately show ?thesis
    using assms(2) by (auto simp: framer_create_def xml_create_def framer_inv_def INT_MAX_def)
qed

lemma framer_add_inv:
  assumes al: "generous al" and inv: "framer_inv chunks evs taken f" and p: "x_parse xp chunks m = (new, True)"
    and len: "int (length (concat chunks @ m)) \<le> INT_MAX" and n: "int (length (evs @ new)) \<le> INT_MAX"
    and small: "\<forall>ev \<in> set new. small_event (int (length (concat chunks @ m))) ev"
  shows "\<exists>f'. framer_add al xp f m = Ok (True, f') \<and> framer_inv (chunks @ [m]) (evs @ new) taken f'"
proof -
  note i = inv [unfolded framer_inv_def]
  obtain b where b: "f_buffer f = Some b" "unlimited b" "contents b = drop (nat (f_buffer_index f)) (concat chunks)"
    using i by blast
  let ?f = "f\<lparr>f_parser := XP (chunks @ [m])\<rparr>"
  let ?r = "flog new (f_level f, f_index f)"
  have g: "granted al sizeof_frame_t"
    using al by (simp add: generous_granted sizeof_frame_t_def PTRDIFF_MAX_def)
  have "\<forall>ev \<in> set new. small_event INT_MAX ev" using small len by (auto simp: small_event_def)
  from framer_events_flog [OF g this, of ?f] i n
  have evs: "framer_events al new ?f = Ok (?f\<lparr>f_frames := f_frames f @ fst ?r, f_level := fst (snd ?r), f_index := snd (snd ?r)\<rparr>)"
    "0 \<le> snd (snd ?r)" "snd (snd ?r) \<le> INT_MAX" "\<bar>fst (snd ?r)\<bar> \<le> int (length (evs @ new))"
    by auto
  have "b_length b \<le> length (concat chunks)" using b(3) length_contents [of b] b(2) by auto
  then have "b_length b + length m + 1024 \<le> PTRDIFF_MAX" using len by (simp add: INT_MAX_def PTRDIFF_MAX_def)
  then obtain b' where b': "buffer_append al b m (length m) = Ok (True, b')" "unlimited b'" "contents b' = contents b @ m"
    using append_unlimited [OF b(2) al, of "length m" m m] by auto
  have fl: "flog (evs @ new) (0, 0) = (taken @ f_frames f @ fst ?r, snd ?r)"
    using i by (simp add: flog_append)
  have "\<forall>ev \<in> set evs. small_event (int (length (concat chunks @ m))) ev"
    using i by (force simp: small_event_def)
  then show ?thesis
    using i b b' evs p fl len small
    by (auto simp: framer_add_def xml_parse_def framer_inv_def)
qed

lemma framer_skip_ok:
  assumes "unlimited b" and "0 \<le> f_buffer_index f" and "f_buffer_index f \<le> fr_index fr" and "fr_index fr \<le> INT_MAX"
    and "nat (fr_index fr - f_buffer_index f) \<le> length (contents b)"
  shows "\<exists>b1. framer_skip f fr b = Ok (b1, fr_index fr) \<and> unlimited b1
     \<and> contents b1 = drop (nat (fr_index fr - f_buffer_index f)) (contents b)"
proof (cases "f_buffer_index f < fr_index fr")
  case True
  have "size_of_int (fr_index fr - f_buffer_index f) = nat (fr_index fr - f_buffer_index f)"
    using assms by (simp add: size_of_int_nonneg)
  moreover obtain b1 where "buffer_remove_data b (nat (fr_index fr - f_buffer_index f)) = Ok b1" "unlimited b1"
    "contents b1 = drop (nat (fr_index fr - f_buffer_index f)) (contents b)"
    using buf.remove_law [OF assms(1,5)] by blast
  ultimately show ?thesis
    using True assms by (simp add: framer_skip_def int_op_def in_int_range_def)
next
  case False
  then show ?thesis using assms by (simp add: framer_skip_def)
qed

lemma size_of_position:
  assumes "0 \<le> i" "0 \<le> n" "i + n \<le> INT_MAX"
  shows "size_of_int n = nat n" and "to_int (int (size_add (size_of_int i) (nat n))) = i + n"
proof -
  have s: "size_of_int i = nat i" "size_of_int n = nat n" using assms by (simp_all add: size_of_int_nonneg)
  moreover have "size_add (nat i) (nat n) = nat (i + n)"
    using assms by (simp add: size_add_exact nat_add_distrib INT_MAX_def SIZE_MOD_def)
  ultimately show "size_of_int n = nat n" "to_int (int (size_add (size_of_int i) (nat n))) = i + n"
    using assms to_int_small [of "i + n"] by simp_all
qed

text \<open>The copy of a frame from the front of the buffer to the array of \<open>d\<close>.\<close>

lemma copy_frame:
  assumes b: "unlimited b" "n \<le> length (contents b)" and d: "length (d_buffer d) = d_capacity d"
  shows "\<exists>d'. data_set_data d (b_data b) n = Ok d' \<and> length (d_buffer d') = d_capacity d' \<and> d_capacity d' = d_capacity d
     \<and> take (d_length d') (d_buffer d') = take (d_capacity d) (take n (contents b))"
proof -
  have ok: "buf_ok b" using b(1) by auto
  have n: "n \<le> b_length b" using b(2) length_contents [OF ok] by simp
  then have le: "min n (d_capacity d) \<le> length (b_data b)" using buf_okD(1,2) [OF ok] by simp
  have "take (min n (d_capacity d)) (b_data b) = take (d_capacity d) (take n (contents b))"
    using n by (simp add: contents_def min_def)
  then show ?thesis
    using data_set_data_eq [OF d le] d b(2) by (auto simp: min_def)
qed

lemma framer_take_inv:
  assumes inv: "framer_inv chunks evs taken f" and fr: "f_frames f = fr # frs"
    and ok: "frames_ok (f_buffer_index f) (f_frames f)" and d: "length (d_buffer d) = d_capacity d"
  shows "\<exists>d' f'. framer_get_frame2 f d = Ok (d', nat (fr_size fr), f')
     \<and> framer_inv chunks evs (taken @ [fr]) f' \<and> f_frames f' = frs
     \<and> length (d_buffer d') = d_capacity d' \<and> d_capacity d' = d_capacity d
     \<and> take (d_length d') (d_buffer d') = take (d_capacity d) (piece (concat chunks) fr)"
proof -
  note i = inv [unfolded framer_inv_def]
  let ?bi = "f_buffer_index f" and ?n = "nat (fr_size fr)"
  obtain b where b: "f_buffer f = Some b" "unlimited b" "contents b = drop (nat ?bi) (concat chunks)"
    using i by blast
  have pos: "?bi \<le> fr_index fr" "0 \<le> fr_size fr" "0 \<le> ?bi" using ok fr i by auto
  have "fr \<in> set (fst (flog evs (0, 0)))" using i fr by simp
  then have e: "fr_end fr \<le> int (length (concat chunks))"
    using flog_ends i by (fastforce simp: small_event_def)
  then have e': "fr_index fr + fr_size fr \<le> INT_MAX" "fr_index fr \<le> INT_MAX"
    using i pos by (auto simp: fr_end_def)
  have len: "nat (fr_index fr - ?bi) + ?n \<le> length (contents b)"
    using e pos by (simp add: b(3) fr_end_def)
  obtain b1 where b1: "framer_skip f fr b = Ok (b1, fr_index fr)" "unlimited b1"
    "contents b1 = drop (nat (fr_index fr - ?bi)) (contents b)"
    using framer_skip_ok [OF b(2) pos(3,1) e'(2)] len by auto
  have c1: "contents b1 = drop (nat (fr_index fr)) (concat chunks)"
    using pos by (simp add: b1(3) b(3) nat_diff_distrib)
  have n1: "?n \<le> length (contents b1)" using len by (simp add: b1(3))
  obtain b2 where b2: "buffer_remove_data b1 ?n = Ok b2" "unlimited b2" "contents b2 = drop ?n (contents b1)"
    using buf.remove_law [OF b1(2) n1] by blast
  obtain d' where d': "data_set_data d (b_data b1) ?n = Ok d'" "length (d_buffer d') = d_capacity d'" "d_capacity d' = d_capacity d"
    "take (d_length d') (d_buffer d') = take (d_capacity d) (piece (concat chunks) fr)"
    using copy_frame [OF b1(2) n1 d] by (auto simp: c1 piece_def)
  let ?f = "f\<lparr>f_frames := frs, f_buffer := Some b2, f_buffer_index := fr_end fr\<rparr>"
  have "framer_get_frame2 f d = Ok (d', ?n, ?f)"
    using b(1) fr b1(1) b2(1) size_of_position [OF _ pos(2) e'(1)] pos d'(1) i
    by (simp add: framer_get_frame2_def buffer_get_data2_def framer_remove_frame_def fr_end_def Let_def)
  moreover have "contents b2 = drop (nat (fr_end fr)) (concat chunks)"
    using pos by (simp add: b2(3) c1 fr_end_def nat_add_distrib add.commute)
  then have "framer_inv chunks evs (taken @ [fr]) ?f"
    using i b2(2) pos e fr by (simp add: framer_inv_def fr_end_def)
  ultimately show ?thesis using d'(2-4) by auto
qed

text \<open>The next frame of a stream whose frames lie behind each other: its bytes have arrived, whatever follows.\<close>

lemma framer_take_next:
  assumes inv: "framer_inv chunks evs taken f" and fr: "f_frames f = fr # frs"
    and all: "frames = taken @ f_frames f @ more_frames" and ok: "frames_ok 0 frames" and d: "length (d_buffer d) = d_capacity d"
  shows "\<exists>d' f'. framer_get_frame2 f d = Ok (d', nat (fr_size fr), f') \<and> framer_inv chunks evs (taken @ [fr]) f'
     \<and> length (d_buffer d') = d_capacity d' \<and> d_capacity d' = d_capacity d
     \<and> take (d_length d') (d_buffer d') = take (d_capacity d) (piece (concat chunks) fr)
     \<and> (\<forall>bs. piece (concat chunks @ bs) fr = piece (concat chunks) fr)"
proof -
  have "frames_ok (f_buffer_index f) (f_frames f)"
    using inv ok all by (auto simp: framer_inv_def frames_ok_append)
  from framer_take_inv [OF inv fr this d] obtain d' f' where
    t: "framer_get_frame2 f d = Ok (d', nat (fr_size fr), f')" "framer_inv chunks evs (taken @ [fr]) f'"
    "length (d_buffer d') = d_capacity d'" "d_capacity d' = d_capacity d"
    "take (d_length d') (d_buffer d') = take (d_capacity d) (piece (concat chunks) fr)" by blast
  have "0 \<le> fr_index fr" "fr_end fr \<le> int (length (concat chunks))"
    using t(2) fr all inv ok last_end_ge [of 0 taken] by (auto simp: framer_inv_def frames_ok_append)
  then show ?thesis using t piece_append by blast
qed

section \<open>Runs\<close>

datatype fop = Feed "byte list" | Take

text \<open>A frame that is taken is copied to the array of \<open>d\<close>, as far as it fits.\<close>

fun run_framer :: "allocator \<Rightarrow> expat \<Rightarrow> fop list \<Rightarrow> framer_t \<Rightarrow> data_t \<Rightarrow> (byte list list \<times> framer_t) cres" where
  "run_framer al xp [] f d = Ok ([], f)"
| "run_framer al xp (Feed m # ops) f d =
     bindr (framer_add al xp f m) (\<lambda>(res, f'). run_framer al xp ops f' d)"
| "run_framer al xp (Take # ops) f d =
     (if framer_has_frame f then
        bindr (framer_get_frame2 f d) (\<lambda>(d', n, f').
        bindr (run_framer al xp ops f' d') (\<lambda>(outs, f''). Ok (take (data_get_length d') (data_get_buffer d') # outs, f'')))
      else run_framer al xp ops f d)"

fun fed :: "fop list \<Rightarrow> byte list list" where
  "fed [] = []"
| "fed (Feed m # ops) = m # fed ops"
| "fed (Take # ops) = fed ops"

text \<open>Expat accepts the chunks, reports \<open>evs\<close> in total, and an event only when its bytes have arrived.\<close>

fun reports :: "expat \<Rightarrow> byte list list \<Rightarrow> byte list list \<Rightarrow> xml_event list \<Rightarrow> bool" where
  "reports xp chunks [] evs \<longleftrightarrow> evs = []"
| "reports xp chunks (m # ms) evs \<longleftrightarrow>
     (case x_parse xp chunks m of (new, ok) \<Rightarrow>
        ok \<and> (\<forall>ev \<in> set new. small_event (int (length (concat chunks @ m))) ev)
        \<and> take (length new) evs = new \<and> reports xp (chunks @ [m]) ms (drop (length new) evs))"

lemma run_framer_pieces:
  assumes "generous al" and "framer_inv chunks evs taken f" and "reports xp chunks (fed ops) more_evs"
    and "fst (flog (evs @ more_evs) (0, 0)) = frames" and "frames_ok 0 frames"
    and "int (length (concat (chunks @ fed ops))) \<le> INT_MAX" and "int (length (evs @ more_evs)) \<le> INT_MAX"
    and "length (d_buffer d) = d_capacity d"
  shows "\<exists>outs f' taken'. run_framer al xp ops f d = Ok (outs, f')
     \<and> framer_inv (chunks @ fed ops) (evs @ more_evs) taken' f' \<and> taken' @ f_frames f' = frames
     \<and> map (\<lambda>fr. take (d_capacity d) (piece (concat (chunks @ fed ops)) fr)) taken'
       = map (\<lambda>fr. take (d_capacity d) (piece (concat (chunks @ fed ops)) fr)) taken @ outs"
  using assms
proof (induction al xp ops f d arbitrary: chunks evs taken more_evs rule: run_framer.induct)
  case (1 al xp f d)
  then show ?case by (auto simp: framer_inv_def)
next
  case (2 al xp m ops f d)
  obtain new where p: "x_parse xp chunks m = (new, True)"
    and new: "\<forall>ev \<in> set new. small_event (int (length (concat chunks @ m))) ev" "take (length new) more_evs = new"
    and rest: "reports xp (chunks @ [m]) (fed ops) (drop (length new) more_evs)"
    using "2.prems"(3) by (auto split: prod.splits)
  have evs: "evs @ more_evs = (evs @ new) @ drop (length new) more_evs"
    using new(2) append_take_drop_id [of "length new" more_evs] by simp
  have len: "int (length (concat chunks @ m)) \<le> INT_MAX" "int (length (evs @ new)) \<le> INT_MAX"
    using "2.prems"(6,7) evs by auto
  obtain f1 where f1: "framer_add al xp f m = Ok (True, f1)" "framer_inv (chunks @ [m]) (evs @ new) taken f1"
    using framer_add_inv [OF "2.prems"(1,2) p len new(1)] by blast
  from "2.IH" [OF f1(1) refl "2.prems"(1) f1(2) rest] show ?case
    using f1(1) "2.prems"(4-8) evs by simp
next
  case (3 al xp ops f d)
  show ?case
  proof (cases "f_frames f")
    case Nil
    then show ?thesis
      using "3.IH"(2) [of chunks evs taken more_evs] "3.prems" by (simp add: framer_has_frame_def)
  next
    case (Cons fr frs)
    have all: "frames = taken @ f_frames f @ fst (flog more_evs (f_level f, f_index f))"
      using "3.prems"(2,4) by (auto simp: framer_inv_def flog_append)
    obtain d' f' where
      t: "framer_get_frame2 f d = Ok (d', nat (fr_size fr), f')" "framer_inv chunks evs (taken @ [fr]) f'"
      "length (d_buffer d') = d_capacity d'" "d_capacity d' = d_capacity d"
      "take (d_length d') (d_buffer d') = take (d_capacity d) (piece (concat chunks) fr)"
      and pc: "piece (concat (chunks @ fed ops)) fr = piece (concat chunks) fr"
      using framer_take_next [OF "3.prems"(2) Cons all "3.prems"(5,8)] by (metis concat_append)
    have "framer_has_frame f" using Cons by (simp add: framer_has_frame_def)
    then show ?thesis
      using "3.IH"(1) [OF _ t(1) refl refl "3.prems"(1) t(2), of more_evs] "3.prems"(3-7) t(1,3-5) pc
      by (auto simp: data_get_length_def data_get_buffer_def)
  qed
qed


definition sample_stream :: xmpp_stream where
  "sample_stream = \<lparr>st_name = ''s'' @ [NS_SEP] @ ''stream'', st_attrs = [], st_open = \<lparr>fr_index = 0, fr_size = 4\<rparr>,
     st_stanzas = [Elem (''c'' @ [NS_SEP] @ ''a'') [] 5 4 [] 9 0], st_close = Some \<lparr>fr_index = 9, fr_size = 3\<rparr>\<rparr>"

definition sample_expat :: expat where
  "sample_expat = \<lparr>x_create = True, x_parse = (\<lambda>chunks m. if chunks = [] then (take 2 (stream_events sample_stream), True)
     else (drop 2 (stream_events sample_stream), True))\<rparr>"


section \<open>A stanza without a namespace\<close>

text \<open>The frame of such a stanza starts at the position of the previous one: more bytes are removed than
  the buffer holds, and its length wraps around.\<close>

lemma remove_too_much:
  assumes "buf_ok b" and "b_length b < n" and "n \<le> b_capacity b"
  shows "\<exists>b'. buffer_remove_data b n = Ok b' \<and> length (b_data b') = b_capacity b \<and> b_capacity b' = b_capacity b
     \<and> b_max_length b' = b_max_length b \<and> b_length b' = SIZE_MOD - (n - b_length b)"
proof -
  note d = buf_okD [OF assms(1)]
  have "n < SIZE_MOD" using assms(3) d(5) by linarith
  then have "size_sub (b_length b) n = SIZE_MOD - (n - b_length b)"
    using assms(2) by (simp add: size_sub_def)
  moreover have "size_sub (b_capacity b) n = b_capacity b - n" using assms(3) d(5) by (rule size_sub_exact)
  ultimately show ?thesis
    using assms d by (simp add: buffer_remove_data_def mem_read_def mem_write_def)
qed

lemma append_after_wrap:
  assumes "length (b_data b) = b_capacity b" "b_capacity b \<le> PTRDIFF_MAX" "b_max_length b = 0"
    and "b_length b = SIZE_MOD - k" "0 < k" "k \<le> length m" "length m - k \<le> b_capacity b" "b_capacity b + k \<le> SIZE_MOD"
  shows "buffer_append al b m (length m) = Fault Out_Of_Bounds"
proof -
  have "k \<le> SIZE_MOD" using assms(8) by linarith
  moreover have "length m - k < SIZE_MOD" using assms(2,7) PTRDIFF_MAX_less by linarith
  ultimately have "size_add (b_length b) (length m) = length m - k"
  proof -
    have "b_length b + length m = SIZE_MOD + (length m - k)" using assms(4,6) \<open>k \<le> SIZE_MOD\<close> by linarith
    then show ?thesis using \<open>length m - k < SIZE_MOD\<close> by (simp add: size_add_def)
  qed
  moreover have "m \<noteq> []" using assms(5,6) by auto
  moreover have "b_capacity b < b_length b + length m" using assms(4-8) by linarith
  ultimately show ?thesis
    using assms(1,3,7) by (simp add: buffer_append_def buffer_put_def mem_read_def mem_write_def)
qed

lemma data_copy_loop_cases:
  "(\<exists>m'. data_copy_loop m src i k = Ok m' \<and> length m' = length m) \<or> data_copy_loop m src i k = Fault Out_Of_Bounds"
proof (induction k arbitrary: m i)
  case (Suc k)
  show ?case using Suc.IH [of "m[i := src ! i]" "Suc i"] by (simp add: mem_get_def mem_set_def)
qed simp

lemma data_set_data_cases:
  assumes "length (d_buffer d) = d_capacity d"
  shows "(\<exists>d'. data_set_data d src n = Ok d' \<and> length (d_buffer d') = d_capacity d') \<or> data_set_data d src n = Fault Out_Of_Bounds"
  using data_copy_loop_cases [of "d_buffer d" src 0 "if d_capacity d \<le> n then d_capacity d else n"] assms
  by (auto simp: data_set_data_def Let_def)

lemma run_framer_then_fault:
  assumes "run_framer al xp ops f d = Ok (outs, f')" and "length (d_buffer d) = d_capacity d"
    and "\<And>d'. length (d_buffer d') = d_capacity d' \<Longrightarrow> run_framer al xp ops' f' d' = Fault x"
  shows "run_framer al xp (ops @ ops') f d = Fault x"
  using assms
proof (induction al xp ops f d arbitrary: outs rule: run_framer.induct)
  case (2 al xp m ops f d)
  then show ?case by (auto simp: bindr_eq_Ok)
next
  case (3 al xp ops f d)
  show ?case
  proof (cases "framer_has_frame f")
    case True
    obtain d1 n f1 where t: "framer_get_frame2 f d = Ok (d1, n, f1)" using "3.prems"(1) True by (auto simp: bindr_eq_Ok)
    obtain b1 :: buffer_t and n1 where "data_set_data d (b_data b1) n1 = Ok d1"
      using t by (auto simp: framer_get_frame2_def buffer_get_data2_def Let_def bindr_eq_Ok split: list.splits option.splits if_splits)
    then have "length (d_buffer d1) = d_capacity d1" using data_set_data_cases [OF "3.prems"(2), of "b_data b1" n1] by auto
    then show ?thesis using "3.IH"(1) [OF True t refl refl] "3.prems"(1,3) True t by (auto simp: bindr_eq_Ok)
  next
    case False
    then show ?thesis using "3.IH"(2) [OF False] "3.prems" by simp
  qed
qed simp

text \<open>Taking a frame that begins before the bytes in the buffer and ends with the last of them: either it is larger
  than the block, or the length of the buffer wraps around.\<close>

lemma take_beyond:
  assumes b: "f_buffer f = Some b" "unlimited b" and f: "\<not> f_list_freed f" "f_frames f = [\<lparr>fr_index = i, fr_size = n\<rparr>]"
    "i \<le> f_buffer_index f" "int (b_length b) < n" "n \<le> INT_MAX" and d: "length (d_buffer d) = d_capacity d"
  shows "framer_get_frame2 f d = Fault Out_Of_Bounds
     \<or> (\<exists>d' b' bi. framer_get_frame2 f d = Ok (d', nat n, f\<lparr>f_frames := [], f_buffer := Some b', f_buffer_index := bi\<rparr>)
          \<and> length (b_data b') = b_capacity b \<and> b_capacity b' = b_capacity b \<and> b_max_length b' = 0
          \<and> b_length b' = SIZE_MOD - (nat n - b_length b))"
proof -
  have ok: "buf_ok b" "b_max_length b = 0" using b(2) by (auto simp: unlimited_def)
  note bd = buf_okD [OF ok(1)]
  have n: "size_of_int n = nat n" "b_length b < nat n" "framer_skip f \<lparr>fr_index = i, fr_size = n\<rparr> b = Ok (b, f_buffer_index f)"
    using f by (auto simp: size_of_int_nonneg framer_skip_def)
  note get = framer_get_frame2_def buffer_get_data2_def framer_remove_frame_def Let_def
  consider (fault) "data_set_data d (b_data b) (nat n) = Fault Out_Of_Bounds"
    | (large) d' where "data_set_data d (b_data b) (nat n) = Ok d'" "b_capacity b < nat n"
    | (wrap) d' where "data_set_data d (b_data b) (nat n) = Ok d'" "nat n \<le> b_capacity b"
    using data_set_data_cases [OF d, of "b_data b" "nat n"] by fastforce
  then show ?thesis
  proof cases
    case fault
    then show ?thesis using b f n by (simp add: get)
  next
    case large
    then have "buffer_remove_data b (nat n) = Fault Out_Of_Bounds" using bd(1) by (simp add: buffer_remove_data_def mem_read_def)
    then show ?thesis using large b f n by (simp add: get)
  next
    case wrap
    obtain b' where "buffer_remove_data b (nat n) = Ok b'" "length (b_data b') = b_capacity b" "b_capacity b' = b_capacity b"
      "b_max_length b' = 0" "b_length b' = SIZE_MOD - (nat n - b_length b)"
      using remove_too_much [OF ok(1) n(2) wrap(2)] ok(2) by auto
    moreover have "framer_get_frame2 f d = Ok (d', nat n, f\<lparr>f_frames := [], f_buffer := Some b',
        f_buffer_index := to_int (int (size_add (size_of_int (f_buffer_index f)) (nat n)))\<rparr>)"
      using calculation(1) wrap b f n by (simp add: get)
    ultimately show ?thesis by blast
  qed
qed


text \<open>An opening tag of four bytes, a stanza with a namespace of four, and one without.\<close>

definition plain_stream :: xmpp_stream where
  "plain_stream = sample_stream\<lparr>st_stanzas := [Elem (''c'' @ [NS_SEP] @ ''a'') [] 4 4 [] 8 0], st_close := None\<rparr>"

definition plain_expat :: expat where
  "plain_expat = \<lparr>x_create = True, x_parse = (\<lambda>chunks m. if chunks = [] then (stream_events plain_stream, True)
     else if length chunks = 1 then ([Xml_Start ''a'' [] 8 6, Xml_End ''a'' 14 0], True) else ([], True))\<rparr>"

definition three_bytes :: data_t where
  "three_bytes = \<lparr>d_buffer = [0, 0, 0], d_length = 0, d_capacity = 3\<rparr>"


end
