(* ===== verification/StreamParse.thy ===== *)
theory StreamParse
  imports Expat ParseConfig Util_Buffer
begin

text \<open>
  \<open>streamparse.c\<close>: finding the server in the opening tag of the client's stream, the attribute
  \<open>to\<close> of the first element \<open>stream\<close> of the streams namespace that has one.
\<close>

record streamparser_t =
  p_parser :: xml_parser
  p_error :: bool
  p_server :: "string option"

definition sizeof_streamparser_t :: nat where
  "sizeof_streamparser_t = 24"

definition STREAM_NS :: string where
  "STREAM_NS = ''http://etherx.jabber.org/streams''"

text \<open>The loop over the attributes; \<open>strdup\<close> may fail and leave the server NULL.\<close>

fun find_to :: "allocator \<Rightarrow> (string \<times> string) list \<Rightarrow> streamparser_t \<Rightarrow> streamparser_t" where
  "find_to al [] p = p"
| "find_to al ((k, v) # attrs) p =
     (if k = ''to'' then p\<lparr>p_server := (if strdup_ok al v then Some v else None)\<rparr> else find_to al attrs p)"

definition streamparser_start ::
  "allocator \<Rightarrow> streamparser_t \<Rightarrow> string \<Rightarrow> (string \<times> string) list \<Rightarrow> streamparser_t cres" where
  "streamparser_start al p el attrs =
     (case strchr_split NS_SEP el of
        None \<Rightarrow> Ok p
      | Some (namespace, element) \<Rightarrow>
          if p_server p \<noteq> None then Ok p
          else if \<not> strdup_ok al namespace then Fault Null_Pointer
          else if namespace \<noteq> STREAM_NS then Ok p
          else if \<not> strdup_ok al element then Fault Null_Pointer
          else if element \<noteq> ''stream'' then Ok p
          else Ok (find_to al attrs p))"

definition streamparser_end :: "streamparser_t \<Rightarrow> string \<Rightarrow> streamparser_t" where
  "streamparser_end p el = p"

fun streamparser_events :: "allocator \<Rightarrow> xml_event list \<Rightarrow> streamparser_t \<Rightarrow> streamparser_t cres" where
  "streamparser_events al [] p = Ok p"
| "streamparser_events al (Xml_Start el attrs index count # evs) p =
     bindr (streamparser_start al p el attrs) (streamparser_events al evs)"
| "streamparser_events al (Xml_End el index count # evs) p = streamparser_events al evs (streamparser_end p el)"

text \<open>\<open>streamparser_initialize\<close> replaces the parser and clears the error; it keeps the server.\<close>

definition streamparser_initialize :: "expat \<Rightarrow> streamparser_t \<Rightarrow> bool \<times> streamparser_t" where
  "streamparser_initialize xp p =
     (let p1 = p\<lparr>p_parser := xml_create xp\<rparr> in
      if p_parser p1 = XP_Null then (False, p1) else (True, p1\<lparr>p_error := False\<rparr>))"

definition streamparser_create :: "allocator \<Rightarrow> expat \<Rightarrow> streamparser_t option" where
  "streamparser_create al xp =
     (if \<not> granted al sizeof_streamparser_t then None
      else (let (res, p) = streamparser_initialize xp \<lparr>p_parser = XP_Null, p_error = False, p_server = None\<rparr>
            in if res then Some (p\<lparr>p_server := None\<rparr>) else None))"

definition streamparser_reset :: "expat \<Rightarrow> streamparser_t \<Rightarrow> bool \<times> streamparser_t" where
  "streamparser_reset xp p = streamparser_initialize xp p"

definition streamparser_add :: "allocator \<Rightarrow> expat \<Rightarrow> streamparser_t \<Rightarrow> string \<Rightarrow> (bool \<times> streamparser_t) cres" where
  "streamparser_add al xp p data =
     bindr (xml_parse xp (p_parser p) (map byte_of_char data)) (\<lambda>(evs, ok, q).
     bindr (streamparser_events al evs (p\<lparr>p_parser := q\<rparr>)) (\<lambda>p1.
     if \<not> ok then Ok (False, p1\<lparr>p_error := True\<rparr>) else Ok (True, p1)))"

definition streamparser_is_error :: "streamparser_t \<Rightarrow> bool" where
  "streamparser_is_error p = p_error p"

definition streamparser_has_server :: "streamparser_t \<Rightarrow> bool" where
  "streamparser_has_server p \<longleftrightarrow> p_server p \<noteq> None"

definition streamparser_get_server :: "streamparser_t \<Rightarrow> string option" where
  "streamparser_get_server p = p_server p"

section \<open>The server of a stream\<close>

fun to_of :: "xml_event \<Rightarrow> string option" where
  "to_of (Xml_Start el attrs i c) =
     (if strchr_split NS_SEP el = Some (STREAM_NS, ''stream'') then map_of attrs ''to'' else None)"
| "to_of (Xml_End el i c) = None"

fun server_of :: "xml_event list \<Rightarrow> string option" where
  "server_of [] = None"
| "server_of (ev # evs) = (case to_of ev of Some s \<Rightarrow> Some s | None \<Rightarrow> server_of evs)"

text \<open>Texts an allocator that never refuses can copy.\<close>

fun event_small :: "xml_event \<Rightarrow> bool" where
  "event_small (Xml_Start el attrs i c) \<longleftrightarrow> length el < PTRDIFF_MAX \<and> (\<forall>(k, v) \<in> set attrs. length v < PTRDIFF_MAX)"
| "event_small (Xml_End el i c) \<longleftrightarrow> True"

lemma find_to_eq:
  assumes "generous al" and "\<forall>(k, v) \<in> set attrs. length v < PTRDIFF_MAX"
  shows "find_to al attrs p = (case map_of attrs ''to'' of None \<Rightarrow> p | Some s \<Rightarrow> p\<lparr>p_server := Some s\<rparr>)"
  using assms(2)
proof (induction attrs)
  case (Cons x attrs)
  then show ?case
    using generous_granted [OF assms(1)] by (cases x) (auto simp: strdup_ok_def)
qed simp

lemma streamparser_start_eq:
  assumes "generous al" and "event_small (Xml_Start el attrs i c)"
  shows "streamparser_start al p el attrs
    = Ok (if p_server p \<noteq> None then p
          else case to_of (Xml_Start el attrs i c) of None \<Rightarrow> p | Some s \<Rightarrow> p\<lparr>p_server := Some s\<rparr>)"
proof -
  have "strdup_ok al a \<and> strdup_ok al b" if "strchr_split NS_SEP el = Some (a, b)" for a b
  proof -
    have "el = a @ NS_SEP # b" using that by (simp add: strchr_split_Some)
    then show ?thesis using assms generous_granted [OF assms(1)] by (simp add: strdup_ok_def)
  qed
  then show ?thesis
    using assms(2) find_to_eq [OF assms(1), of attrs p]
    by (auto simp: streamparser_start_def split: option.splits)
qed

lemma streamparser_events_eq:
  assumes "generous al" and "\<forall>ev \<in> set evs. event_small ev"
  shows "streamparser_events al evs p
    = Ok (if p_server p \<noteq> None then p else case server_of evs of None \<Rightarrow> p | Some s \<Rightarrow> p\<lparr>p_server := Some s\<rparr>)"
  using assms(2)
proof (induction evs arbitrary: p)
  case (Cons ev evs)
  show ?case
  proof (cases ev)
    case (Xml_Start el attrs i c)
    then show ?thesis
      using Cons streamparser_start_eq [OF assms(1), of el attrs i c p] by (auto split: option.splits)
  next
    case (Xml_End el i c)
    then show ?thesis using Cons by (simp add: streamparser_end_def)
  qed
qed simp

section \<open>Runs of the parser\<close>

fun streamparser_adds :: "allocator \<Rightarrow> expat \<Rightarrow> string list \<Rightarrow> streamparser_t \<Rightarrow> streamparser_t cres" where
  "streamparser_adds al xp [] p = Ok p"
| "streamparser_adds al xp (m # ms) p =
     bindr (streamparser_add al xp p m) (\<lambda>(res, p'). streamparser_adds al xp ms p')"

text \<open>What Expat reports for the messages one after the other, and whether all were well-formed.\<close>

fun xml_run :: "expat \<Rightarrow> byte list list \<Rightarrow> string list \<Rightarrow> xml_event list \<times> bool" where
  "xml_run xp chunks [] = ([], True)"
| "xml_run xp chunks (m # ms) =
     (let (evs, ok) = x_parse xp chunks (map byte_of_char m);
          (evs', ok') = xml_run xp (chunks @ [map byte_of_char m]) ms
      in (evs @ evs', ok \<and> ok'))"

lemma server_of_append: "server_of (xs @ ys) = (case server_of xs of Some s \<Rightarrow> Some s | None \<Rightarrow> server_of ys)"
  by (induction xs) (auto split: option.splits)

lemma streamparser_adds_eq:
  assumes "generous al" and "\<forall>ev \<in> set (fst (xml_run xp chunks ms)). event_small ev" and "p_parser p = XP chunks"
  shows "\<exists>p'. streamparser_adds al xp ms p = Ok p'
     \<and> p_server p' = (if p_server p \<noteq> None then p_server p else server_of (fst (xml_run xp chunks ms)))
     \<and> p_error p' = (p_error p \<or> \<not> snd (xml_run xp chunks ms)) \<and> p_parser p' = XP (chunks @ map (map byte_of_char) ms)"
  using assms(2,3)
proof (induction ms arbitrary: p chunks)
  case (Cons m ms)
  obtain evs ok where e: "x_parse xp chunks (map byte_of_char m) = (evs, ok)" by force
  have small: "\<forall>ev \<in> set evs. event_small ev" using Cons.prems(1) e by (auto simp: split_beta)
  let ?q = "p\<lparr>p_parser := XP (chunks @ [map byte_of_char m])\<rparr>"
  let ?p = "if p_server p \<noteq> None then ?q else case server_of evs of None \<Rightarrow> ?q | Some s \<Rightarrow> ?q\<lparr>p_server := Some s\<rparr>"
  have add: "streamparser_add al xp p m = Ok (ok, if ok then ?p else ?p\<lparr>p_error := True\<rparr>)"
    using streamparser_events_eq [OF assms(1) small, of ?q] Cons.prems(2) e
    by (auto simp: streamparser_add_def xml_parse_def)
  have "p_parser (if ok then ?p else ?p\<lparr>p_error := True\<rparr>) = XP (chunks @ [map byte_of_char m])"
    by (auto split: option.splits)
  from Cons.IH [OF _ this] show ?case
    using Cons.prems(1) e add by (auto simp: split_beta server_of_append split: option.splits if_splits)
qed simp

text \<open>Whatever pieces the client's stream arrives in, the parser knows the server of the stream exactly
  when the opening tag has been reported, and it is the \<open>to\<close> attribute of that tag; an error is kept.\<close>

theorem stream_server_found:
  assumes "generous al" and "x_create xp" and "\<forall>ev \<in> set (fst (xml_run xp [] ms)). event_small ev"
  shows "\<exists>p p'. streamparser_create al xp = Some p \<and> streamparser_adds al xp ms p = Ok p'
     \<and> streamparser_get_server p' = server_of (fst (xml_run xp [] ms))
     \<and> streamparser_has_server p' = (server_of (fst (xml_run xp [] ms)) \<noteq> None)
     \<and> streamparser_is_error p' = (\<not> snd (xml_run xp [] ms))"
proof -
  let ?p = "\<lparr>p_parser = XP [], p_error = False, p_server = None\<rparr>"
  have "granted al sizeof_streamparser_t"
    using generous_granted [OF assms(1)] by (simp add: sizeof_streamparser_t_def PTRDIFF_MAX_def)
  then have "streamparser_create al xp = Some ?p"
    using assms(2) by (simp add: streamparser_create_def streamparser_initialize_def xml_create_def)
  moreover obtain p' where "streamparser_adds al xp ms ?p = Ok p'"
    "p_server p' = server_of (fst (xml_run xp [] ms))" "p_error p' = (\<not> snd (xml_run xp [] ms))"
    using streamparser_adds_eq [OF assms(1,3), of ?p] by auto
  ultimately show ?thesis
    by (auto simp: streamparser_get_server_def streamparser_has_server_def streamparser_is_error_def)
qed

definition to_expat :: expat where
  "to_expat = \<lparr>x_create = True, x_parse = (\<lambda>chunks m. if chunks = [] then ([], True)
     else ([Xml_Start (STREAM_NS @ [NS_SEP] @ ''stream'') [(''a'', ''b''), (''to'', ''example.com'')] 0 9], True))\<rparr>"

theorem stream_server_found_witness:
  "\<exists>p p'. streamparser_create zero_alloc to_expat = Some p
     \<and> streamparser_adds zero_alloc to_expat [''<stream:'', ''stream to=''] p = Ok p'
     \<and> streamparser_get_server p' = Some ''example.com'' \<and> streamparser_has_server p' \<and> \<not> streamparser_is_error p'"
proof -
  let ?ms = "[''<stream:'', ''stream to='']"
  have r: "xml_run to_expat [] ?ms
      = ([Xml_Start (STREAM_NS @ [NS_SEP] @ ''stream'') [(''a'', ''b''), (''to'', ''example.com'')] 0 9], True)"
    by (simp add: to_expat_def)
  have s: "server_of (fst (xml_run to_expat [] ?ms)) = Some ''example.com''"
    unfolding r by code_simp
  have c: "x_create to_expat" by (simp add: to_expat_def)
  have "length STREAM_NS = 32" by (simp add: STREAM_NS_def)
  then have "\<forall>ev \<in> set (fst (xml_run to_expat [] ?ms)). event_small ev"
    unfolding r by (simp add: PTRDIFF_MAX_def)
  from stream_server_found [OF generous_zero_alloc c this] show ?thesis
    unfolding s unfolding r by simp
qed

end
