(* ===== verification/CManager.thy ===== *)
theory CManager
  imports WsConn FramerStream StreamParse
begin

text \<open>
  \<open>cmanager.c\<close>: the connection manager, the client of the WebSocket server. It reads the server's name
  from the client's stream, connects, forwards messages to the XMPP server and the frames of the server's
  stream back to the client. \<open>m_sent\<close> records what is handed to libevent for the XMPP server, \<open>m_connects\<close>
  the connections asked for. The manager is the context of its connection, so the functions that work on
  both take the connection with the context in it.
\<close>

section \<open>State\<close>

datatype cm_st = CMS_START | CMS_CONNECT | CMS_FORWARD

record cmanager_t =
  m_state :: cm_st
  m_parser :: "streamparser_t option"
  m_server :: "string option"
  m_bev :: bool
  m_dnsbase :: bool
  m_buffer :: "buffer_t option"
  m_framer :: "framer_t option"
  m_sent :: "byte list"
  m_connects :: "(string \<times> nat) list"

datatype cm_ctx = CM_Live cmanager_t | CM_Freed

text \<open>The surroundings of the manager: the allocator, the two XML parsers, and whether libevent grants a
  bufferevent and a resolver.\<close>

record cenv =
  v_al :: allocator
  v_stream :: expat
  v_framer :: expat
  v_bev :: bool
  v_dns :: bool

definition sizeof_cmanager_t :: nat where
  "sizeof_cmanager_t = 64"

section \<open>Creation and closing\<close>

text \<open>\<open>cm_create\<close> clears the structure before it tests the pointer.\<close>

definition cm_create :: "cenv \<Rightarrow> cm_ctx option cres" where
  "cm_create v =
     (if \<not> granted (v_al v) sizeof_cmanager_t then Fault Null_Pointer
      else case streamparser_create (v_al v) (v_stream v) of
        None \<Rightarrow> Ok None
      | Some p \<Rightarrow>
          (case buffer_create (v_al v) 0 of
             None \<Rightarrow> Ok None
           | Some b \<Rightarrow>
               (case framer_create (v_al v) (v_framer v) of
                  None \<Rightarrow> Ok None
                | Some f \<Rightarrow>
                    Ok (Some (CM_Live \<lparr>m_state = CMS_START, m_parser = Some p, m_server = None, m_bev = False,
                          m_dnsbase = False, m_buffer = Some b, m_framer = Some f, m_sent = [], m_connects = []\<rparr>)))))"

definition cm_reset :: "cenv \<Rightarrow> cmanager_t \<Rightarrow> (bool \<times> cmanager_t) cres" where
  "cm_reset v cm =
     (case m_parser cm of
        None \<Rightarrow> Fault Null_Pointer
      | Some p \<Rightarrow> (let (res, p') = streamparser_reset (v_stream v) p in Ok (res, cm\<lparr>m_parser := Some p'\<rparr>)))"

definition cm_close :: "cmanager_t \<Rightarrow> cmanager_t cres" where
  "cm_close cm =
     bindr (case m_framer cm of None \<Rightarrow> Ok () | Some f \<Rightarrow> framer_delete f) (\<lambda>u.
     Ok (cm\<lparr>m_framer := None, m_buffer := None, m_parser := None, m_bev := False, m_dnsbase := False,
            m_server := None\<rparr>))"

definition cm_delete :: "cm_ctx \<Rightarrow> cm_ctx cres" where
  "cm_delete cx =
     (case cx of CM_Freed \<Rightarrow> Fault Use_After_Free | CM_Live cm \<Rightarrow> bindr (cm_close cm) (\<lambda>cm'. Ok CM_Freed))"

section \<open>Messages of the client\<close>

definition XMPP_PORT :: nat where
  "XMPP_PORT = 5222"

definition cm_connect :: "cenv \<Rightarrow> cmanager_t \<Rightarrow> cmanager_t cres" where
  "cm_connect v cm =
     (let cm1 = cm\<lparr>m_bev := v_bev v\<rparr> in
      if \<not> m_bev cm1 then Ok cm1
      else
        (let cm2 = cm1\<lparr>m_dnsbase := v_dns v\<rparr> in
         if \<not> m_dnsbase cm2 then Ok cm2
         else case m_server cm2 of
           None \<Rightarrow> Fault Null_Pointer
         | Some server \<Rightarrow> Ok (cm2\<lparr>m_connects := m_connects cm2 @ [(server, XMPP_PORT)]\<rparr>)))"

text \<open>\<open>strndup\<close> of the message stops at a NUL byte.\<close>

definition message_text :: "byte list \<Rightarrow> nat \<Rightarrow> string" where
  "message_text message n = line_text (map char_of_byte (take n message))"

definition cm_onmessage :: "cenv \<Rightarrow> cmanager_t \<Rightarrow> byte list \<Rightarrow> nat \<Rightarrow> cmanager_t cres" where
  "cm_onmessage v cm message n =
     (case m_state cm of
        CMS_START \<Rightarrow>
          if \<not> strdup_ok (v_al v) (message_text message n) then Fault Null_Pointer
          else (case m_parser cm of
            None \<Rightarrow> Fault Null_Pointer
          | Some p \<Rightarrow>
              bindr (streamparser_add (v_al v) (v_stream v) p (message_text message n)) (\<lambda>(res, p').
              let cm1 = cm\<lparr>m_parser := Some p'\<rparr> in
              if streamparser_is_error p' then Ok cm1
              else (case m_buffer cm1 of
                None \<Rightarrow> Fault Null_Pointer
              | Some b \<Rightarrow>
                  bindr (buffer_append (v_al v) b message n) (\<lambda>(res, b').
                  let cm2 = cm1\<lparr>m_buffer := Some b'\<rparr> in
                  case streamparser_get_server p' of
                    None \<Rightarrow> Ok cm2
                  | Some server \<Rightarrow>
                      bindr (cm_connect v (cm2\<lparr>m_server := (if strdup_ok (v_al v) server then Some server else None)\<rparr>)) (\<lambda>cm3.
                      Ok (cm3\<lparr>m_state := CMS_CONNECT\<rparr>))))))
      | CMS_CONNECT \<Rightarrow> Ok cm
      | CMS_FORWARD \<Rightarrow>
          if \<not> m_bev cm then Fault Null_Pointer
          else bindr (mem_read message 0 n) (\<lambda>bs. Ok (cm\<lparr>m_sent := m_sent cm @ bs\<rparr>)))"

text \<open>The callback the server calls.\<close>

definition cmanager :: "cenv \<Rightarrow> cm_ctx ws_cb" where
  "cmanager v what mb cx =
     (case cx of
        CM_Freed \<Rightarrow> Fault Use_After_Free
      | CM_Live cm \<Rightarrow>
          (case what of
             WSCB_CONNECTED \<Rightarrow> Ok cx
           | WSCB_MESSAGE \<Rightarrow>
               bindr (cm_onmessage v cm (b_data mb) (buffer_get_length mb)) (\<lambda>cm'. Ok (CM_Live cm'))
           | WSCB_CLOSE \<Rightarrow> bindr (cm_close cm) (\<lambda>cm'. Ok (CM_Live cm'))
           | WSCB_DELETE \<Rightarrow> cm_delete cx))"

section \<open>The stream of the XMPP server\<close>

text \<open>\<open>buf\<close> is the chunk with a terminator behind it; \<open>is_prefix\<close> looks at it as a string.\<close>

definition is_prefix :: "string \<Rightarrow> string \<Rightarrow> bool" where
  "is_prefix pre str = (if length str < length pre then False else take (length pre) str = pre)"

definition stream_start :: "byte list \<Rightarrow> bool" where
  "stream_start chunk \<longleftrightarrow>
     (let text = line_text (map char_of_byte chunk) in is_prefix ''<?xml'' text \<or> is_prefix ''<stream:stream'' text)"

text \<open>The reading loop of \<open>cm_readcb\<close> over the chunks \<open>evbuffer_remove\<close> delivers, at most 1024 bytes each.\<close>

fun feed_framer :: "cenv \<Rightarrow> bool \<Rightarrow> byte list list \<Rightarrow> framer_t \<Rightarrow> (bool \<times> framer_t) cres" where
  "feed_framer v begin_fl [] f = Ok (True, f)"
| "feed_framer v begin_fl (c # cs) f =
     bindr (if begin_fl \<and> stream_start c
            then bindr (framer_reset (v_al v) (v_framer v) f) (\<lambda>(res, f'). Ok f') else Ok f) (\<lambda>f1.
     bindr (framer_add (v_al v) (v_framer v) f1 c) (\<lambda>(res, f2).
     if \<not> res then Ok (False, f2) else feed_framer v False cs f2))"

lemma framer_get_frame2_shrinks:
  "framer_get_frame2 f d = Ok (d', n, f') \<Longrightarrow> length (f_frames f') < length (f_frames f)"
  by (auto simp: framer_get_frame2_def framer_remove_frame_def Let_def bindr_eq_Ok
      split: list.splits option.splits if_splits prod.splits)

function forward_frames ::
  "allocator \<Rightarrow> framer_t \<Rightarrow> data_t \<Rightarrow> 'c wsconn_t \<Rightarrow> (framer_t \<times> data_t \<times> 'c wsconn_t) cres" where
  "forward_frames al f d conn =
     (if framer_has_frame f then
        bindr (framer_get_frame2 f d) (\<lambda>r. case r of (d', n, f') \<Rightarrow>
        bindr (wsconn_write al conn (data_get_buffer d') (data_get_length d')) (\<lambda>conn'.
        forward_frames al f' d' conn'))
      else Ok (f, d, conn))"
  by pat_completeness auto
termination
  by (relation "measure (\<lambda>(al, f, d, conn). length (f_frames f))") (auto dest: framer_get_frame2_shrinks)

declare forward_frames.simps [simp del]

definition DATA_BUFFER_SIZE :: nat where
  "DATA_BUFFER_SIZE = 65536"

text \<open>\<open>data_buffer\<close> is the static array of the function; it is returned as the call leaves it.\<close>

definition cm_readcb ::
  "cenv \<Rightarrow> byte list list \<Rightarrow> byte list \<Rightarrow> cm_ctx wsconn_t \<Rightarrow> (byte list \<times> cm_ctx wsconn_t) cres" where
  "cm_readcb v chunks data_buffer conn =
     (case c_custom_ctx conn of
        CM_Freed \<Rightarrow> Fault Use_After_Free
      | CM_Live cm \<Rightarrow>
          (case m_framer cm of
             None \<Rightarrow> Fault Null_Pointer
           | Some f \<Rightarrow>
               bindr (feed_framer v True chunks f) (\<lambda>(res, f1).
               if \<not> res then Ok (data_buffer, conn\<lparr>c_custom_ctx := CM_Live (cm\<lparr>m_framer := Some f1\<rparr>)\<rparr>)
               else
                 bindr (forward_frames (v_al v) f1 (data_init data_buffer DATA_BUFFER_SIZE) conn) (\<lambda>(f2, d, conn').
                 Ok (data_get_buffer d, conn'\<lparr>c_custom_ctx := CM_Live (cm\<lparr>m_framer := Some f2\<rparr>)\<rparr>)))))"

definition cm_eventcb :: "env \<Rightarrow> bev_event list \<Rightarrow> cm_ctx wsconn_t \<Rightarrow> cm_ctx conn cres" where
  "cm_eventcb e events conn =
     (case c_custom_ctx conn of
        CM_Freed \<Rightarrow> Fault Use_After_Free
      | CM_Live cm \<Rightarrow>
          if BEV_EVENT_CONNECTED \<in> set events then
            (case m_buffer cm of
               None \<Rightarrow> Fault Null_Pointer
             | Some b \<Rightarrow>
                 (let (data, n) = buffer_peek_data b in
                  bindr (mem_read data 0 n) (\<lambda>bs.
                  bindr (buffer_remove_data b n) (\<lambda>b'.
                  Ok (Live (conn\<lparr>c_custom_ctx := CM_Live (cm\<lparr>m_sent := m_sent cm @ bs, m_buffer := Some b',
                        m_state := CMS_FORWARD\<rparr>)\<rparr>))))))
          else if BEV_EVENT_ERROR \<in> set events then
            bindr (wsconn_onclosed e conn) (\<lambda>r.
            case r of
              Deleted cx \<Rightarrow> Fault Use_After_Free
            | Live conn' \<Rightarrow>
                (case c_custom_ctx conn' of
                   CM_Freed \<Rightarrow> Fault Use_After_Free
                 | CM_Live cm' \<Rightarrow> bindr (cm_close cm') (\<lambda>cm''. Ok (Live (conn'\<lparr>c_custom_ctx := CM_Live cm''\<rparr>)))))
          else Ok (Live conn))"

end
