(* ===== verification/CmStream.thy ===== *)
theory CmStream
  imports CManager
begin

text \<open>
  From the XMPP server to the client: \<open>cm_readcb\<close> feeds the framer and writes every frame as a WebSocket
  text frame. \<open>stream_good\<close> is what the server's stream has to satisfy: Expat accepts it, and the frames
  of its events follow each other in the stream, as they do when every stanza has a namespace.
\<close>

section \<open>The history of a parser\<close>

fun xml_hist :: "expat \<Rightarrow> byte list list \<Rightarrow> byte list list \<Rightarrow> xml_event list" where
  "xml_hist xp old [] = []"
| "xml_hist xp old (m # ms) = fst (x_parse xp old m) @ xml_hist xp (old @ [m]) ms"

fun accepted :: "expat \<Rightarrow> byte list list \<Rightarrow> byte list list \<Rightarrow> bool" where
  "accepted xp old [] \<longleftrightarrow> True"
| "accepted xp old (m # ms) \<longleftrightarrow> snd (x_parse xp old m)
     \<and> (\<forall>ev \<in> set (fst (x_parse xp old m)). small_event (int (length (concat old @ m))) ev)
     \<and> accepted xp (old @ [m]) ms"

definition stream_good :: "expat \<Rightarrow> byte list list \<Rightarrow> bool" where
  "stream_good xp cs \<longleftrightarrow> accepted xp [] cs \<and> int (length (concat cs)) \<le> INT_MAX
     \<and> int (length (xml_hist xp [] cs)) \<le> INT_MAX \<and> frames_ok 0 (fst (flog (xml_hist xp [] cs) (0, 0)))"

lemma xml_hist_append: "xml_hist xp old (xs @ ys) = xml_hist xp old xs @ xml_hist xp (old @ xs) ys"
  by (induction xs arbitrary: old) auto

lemma accepted_append: "accepted xp old (xs @ ys) \<longleftrightarrow> accepted xp old xs \<and> accepted xp (old @ xs) ys"
  by (induction xs arbitrary: old) auto

lemma stream_good_prefix:
  assumes "stream_good xp (xs @ ys)"
  shows "stream_good xp xs"
  using assms by (auto simp: stream_good_def xml_hist_append accepted_append flog_append frames_ok_append)

text \<open>A framer between two reads: everything that was reported has been taken.\<close>

definition framer_idle :: "expat \<Rightarrow> byte list list \<Rightarrow> framer_t \<Rightarrow> bool" where
  "framer_idle xp cs f \<longleftrightarrow> framer_inv cs (xml_hist xp [] cs) (fst (flog (xml_hist xp [] cs) (0, 0))) f
     \<and> f_frames f = [] \<and> stream_good xp cs"

lemma framer_idle_created:
  assumes "generous al" and "x_create xp"
  shows "\<exists>f. framer_create al xp = Some f \<and> framer_idle xp [] f"
  using framer_create_inv [OF assms] by (auto simp: framer_idle_def framer_inv_def stream_good_def INT_MAX_def)

lemma framer_idle_reset:
  assumes "generous al" and "x_create xp" and "framer_idle xp cs f"
  shows "\<exists>f'. framer_reset al xp f = Ok (True, f') \<and> framer_idle xp [] f'"
proof -
  obtain b where "buffer_create al 0 = Some b" "unlimited b" "contents b = []"
    by (rule create_unlimited_buffer [OF assms(1)])
  moreover have "f_parser f = XP cs" "\<not> f_list_freed f" using assms(3) by (auto simp: framer_idle_def framer_inv_def)
  ultimately show ?thesis
    using assms(2) by (auto simp: framer_reset_def framer_initialize_def framer_cleanup_def xml_create_def
        framer_idle_def framer_inv_def stream_good_def INT_MAX_def)
qed

section \<open>Reading and forwarding\<close>

lemma feed_framer_inv:
  assumes "generous (v_al v)" and "framer_inv cs (xml_hist (v_framer v) [] cs) taken f"
    and "stream_good (v_framer v) (cs @ ms)"
  shows "\<exists>f'. feed_framer v False ms f = Ok (True, f')
     \<and> framer_inv (cs @ ms) (xml_hist (v_framer v) [] (cs @ ms)) taken f'"
  using assms(2,3)
proof (induction ms arbitrary: cs f)
  case (Cons m ms)
  let ?xp = "v_framer v"
  have g: "stream_good ?xp ((cs @ [m]) @ ms)" using Cons.prems(2) by simp
  note g1 = stream_good_prefix [OF g]
  obtain new where new: "x_parse ?xp cs m = (new, True)"
    "\<forall>ev \<in> set new. small_event (int (length (concat cs @ m))) ev"
    using g1 by (cases "x_parse ?xp cs m") (auto simp: stream_good_def accepted_append)
  have h: "xml_hist ?xp [] (cs @ [m]) = xml_hist ?xp [] cs @ new" using new(1) by (simp add: xml_hist_append)
  have len: "int (length (concat cs @ m)) \<le> INT_MAX" "int (length (xml_hist ?xp [] cs @ new)) \<le> INT_MAX"
    using g1 h by (auto simp: stream_good_def)
  obtain f1 where f1: "framer_add (v_al v) ?xp f m = Ok (True, f1)" "framer_inv (cs @ [m]) (xml_hist ?xp [] (cs @ [m])) taken f1"
    using framer_add_inv [OF assms(1) Cons.prems(1) new(1) len new(2)] h by auto
  from Cons.IH [OF f1(2) g] show ?case using f1(1) by simp
qed simp

text \<open>The frames are written in order, each as a text frame with as much of its bytes as fits the array.\<close>

definition forwarded :: "nat \<Rightarrow> byte list \<Rightarrow> frame_t list \<Rightarrow> byte list" where
  "forwarded cap bs frs = concat (map (\<lambda>fr. frame_bytes 1 (take cap (piece bs fr))) frs)"

lemma forward_frames_inv:
  assumes al: "generous al" and cap: "cap \<le> 65536"
    and "framer_inv cs evs taken f" and "frames_ok 0 (taken @ f_frames f)"
    and "length (d_buffer d) = d_capacity d" and "d_capacity d = cap"
  shows "\<exists>f' d'. forward_frames al f d conn
       = Ok (f', d', conn\<lparr>c_output := c_output conn @ forwarded cap (concat cs) (f_frames f)\<rparr>)
     \<and> framer_inv cs evs (taken @ f_frames f) f' \<and> f_frames f' = []
     \<and> length (d_buffer d') = d_capacity d' \<and> d_capacity d' = cap"
  using assms(3-6)
proof (induction "f_frames f" arbitrary: f d conn taken)
  case Nil
  then show ?case
    by (simp add: forward_frames.simps [of al f] framer_has_frame_def forwarded_def)
next
  case (Cons fr frs)
  have fr: "f_frames f = fr # frs" using Cons(2) by simp
  have "frames_ok (f_buffer_index f) (f_frames f)"
    using Cons.prems(1,2) by (auto simp: framer_inv_def frames_ok_append)
  from framer_take_inv [OF Cons.prems(1) fr this Cons.prems(3)] obtain d' f' where
    t: "framer_get_frame2 f d = Ok (d', nat (fr_size fr), f')" "framer_inv cs evs (taken @ [fr]) f'" "f_frames f' = frs"
    "length (d_buffer d') = d_capacity d'" "d_capacity d' = cap"
    "take (d_length d') (d_buffer d') = take cap (piece (concat cs) fr)"
    using Cons.prems(4) by auto
  let ?p = "take (d_length d') (d_buffer d')"
  have "d_length d' \<le> d_capacity d'"
    using t(1) by (auto simp: framer_get_frame2_def buffer_get_data2_def data_set_data_def bindr_eq_Ok Let_def
        split: list.splits option.splits if_splits prod.splits)
  then have len: "length ?p = d_length d'" "d_length d' + 2048 \<le> PTRDIFF_MAX"
    using t(4,5) cap by (auto simp: PTRDIFF_MAX_def)
  let ?c = "conn\<lparr>c_output := c_output conn @ frame_bytes 1 (take cap (piece (concat cs) fr))\<rparr>"
  have w: "wsconn_write al conn (data_get_buffer d') (data_get_length d') = Ok ?c"
    using wsconn_write_frame_eq [OF al refl len, of conn 1] t(6)
    by (simp add: wsconn_write_def data_get_buffer_def data_get_length_def)
  obtain f'' d'' where "forward_frames al f' d' ?c = Ok (f'', d'', ?c\<lparr>c_output := c_output ?c @ forwarded cap (concat cs) frs\<rparr>)"
    "framer_inv cs evs (taken @ f_frames f) f''" "f_frames f'' = []" "length (d_buffer d'') = d_capacity d''" "d_capacity d'' = cap"
    using Cons.hyps(1) [of f' "taken @ [fr]" d' ?c] t(2-5) Cons.prems(2) fr by auto
  then show ?case
    using t(1) w fr by (simp add: forward_frames.simps [of al f] framer_has_frame_def forwarded_def)
qed

section \<open>One read from the server\<close>

text \<open>The chunks that count: a read that starts like a stream resets the framer first.\<close>

definition resumed :: "byte list list \<Rightarrow> byte list list \<Rightarrow> byte list list" where
  "resumed cs chunks = (case chunks of [] \<Rightarrow> cs | c # _ \<Rightarrow> if stream_start c then [] else cs)"

definition new_frames :: "expat \<Rightarrow> byte list list \<Rightarrow> byte list list \<Rightarrow> frame_t list" where
  "new_frames xp cs chunks = fst (flog (xml_hist xp cs chunks) (snd (flog (xml_hist xp [] cs) (0, 0))))"

lemma feed_framer_idle:
  assumes al: "generous (v_al v)" and xp: "x_create (v_framer v)" and f: "framer_idle (v_framer v) cs f"
    and g: "stream_good (v_framer v) (resumed cs chunks @ chunks)"
  shows "\<exists>f'. feed_framer v True chunks f = Ok (True, f')
     \<and> framer_inv (resumed cs chunks @ chunks) (xml_hist (v_framer v) [] (resumed cs chunks @ chunks))
         (fst (flog (xml_hist (v_framer v) [] (resumed cs chunks)) (0, 0))) f'"
proof (cases chunks)
  case Nil
  then show ?thesis using f by (auto simp: resumed_def framer_idle_def)
next
  case (Cons c ms)
  obtain f0 where f0: "framer_idle (v_framer v) (resumed cs chunks) f0"
    "(if stream_start c then bindr (framer_reset (v_al v) (v_framer v) f) (\<lambda>(res, f'). Ok f') else Ok f) = Ok f0"
    using framer_idle_reset [OF al xp f] f Cons by (cases "stream_start c") (auto simp: resumed_def)
  obtain f' where "feed_framer v False (c # ms) f0 = Ok (True, f')"
    "framer_inv (resumed cs chunks @ chunks) (xml_hist (v_framer v) [] (resumed cs chunks @ chunks))
       (fst (flog (xml_hist (v_framer v) [] (resumed cs chunks)) (0, 0))) f'"
    using feed_framer_inv [OF al _ g] f0(1) Cons by (auto simp: framer_idle_def)
  then show ?thesis using f0(2) Cons by simp
qed

lemma cm_readcb_eq:
  assumes al: "generous (v_al v)" and xp: "x_create (v_framer v)" and f: "framer_idle (v_framer v) cs f"
    and g: "stream_good (v_framer v) (resumed cs chunks @ chunks)"
    and conn: "c_custom_ctx conn = CM_Live cm" "m_framer cm = Some f" and db: "length db = DATA_BUFFER_SIZE"
  shows "\<exists>f' db'. cm_readcb v chunks db conn
       = Ok (db', conn\<lparr>c_output := c_output conn @ forwarded DATA_BUFFER_SIZE (concat (resumed cs chunks @ chunks))
                          (new_frames (v_framer v) (resumed cs chunks) chunks),
             c_custom_ctx := CM_Live (cm\<lparr>m_framer := Some f'\<rparr>)\<rparr>)
     \<and> framer_idle (v_framer v) (resumed cs chunks @ chunks) f' \<and> length db' = DATA_BUFFER_SIZE"
proof -
  let ?xp = "v_framer v" and ?cs = "resumed cs chunks"
  let ?taken = "fst (flog (xml_hist ?xp [] ?cs) (0, 0))"
  obtain f1 where f1: "feed_framer v True chunks f = Ok (True, f1)"
    "framer_inv (?cs @ chunks) (xml_hist ?xp [] (?cs @ chunks)) ?taken f1"
    using feed_framer_idle [OF al xp f g] by blast
  have all: "fst (flog (xml_hist ?xp [] (?cs @ chunks)) (0, 0)) = ?taken @ f_frames f1"
    using f1(2) by (simp add: framer_inv_def)
  then have fr: "f_frames f1 = new_frames ?xp ?cs chunks"
    by (simp add: new_frames_def xml_hist_append flog_append)
  have ok: "frames_ok 0 (?taken @ f_frames f1)" using g all by (simp add: stream_good_def)
  let ?d = "data_init db DATA_BUFFER_SIZE"
  have d: "length (d_buffer ?d) = d_capacity ?d" "d_capacity ?d = DATA_BUFFER_SIZE" using db by (simp_all add: data_init_def)
  have cap: "DATA_BUFFER_SIZE \<le> 65536" by (simp add: DATA_BUFFER_SIZE_def)
  obtain f2 d2 where f2: "forward_frames (v_al v) f1 ?d conn
      = Ok (f2, d2, conn\<lparr>c_output := c_output conn @ forwarded DATA_BUFFER_SIZE (concat (?cs @ chunks)) (f_frames f1)\<rparr>)"
    "framer_inv (?cs @ chunks) (xml_hist ?xp [] (?cs @ chunks)) (?taken @ f_frames f1) f2" "f_frames f2 = []"
    "length (d_buffer d2) = d_capacity d2" "d_capacity d2 = DATA_BUFFER_SIZE"
    using forward_frames_inv [OF al cap f1(2) ok d, of conn] by blast
  have "framer_idle ?xp (?cs @ chunks) f2" using f2(2,3) g all by (simp add: framer_idle_def)
  then show ?thesis
    using f1(1) f2(1,4,5) conn fr
    by (intro exI [of _ f2] exI [of _ "d_buffer d2"]) (simp add: cm_readcb_def data_get_buffer_def)
qed

text \<open>A stream of the XMPP server reaches the client as it was sent: its opening tag, every stanza and its
  closing tag, each as one text frame of RFC 6455, whatever reads they arrive in, as long as no piece is
  longer than 65535 bytes.\<close>

theorem server_stream_forwarded:
  assumes al: "generous (v_al v)" and xp: "x_create (v_framer v)" and f: "framer_idle (v_framer v) cs f"
    and conn: "c_custom_ctx conn = CM_Live cm" "m_framer cm = Some f" and db: "length db = 65536"
    and start: "chunks \<noteq> []" "stream_start (hd chunks)" and acc: "accepted (v_framer v) [] chunks"
    and s: "xml_hist (v_framer v) [] chunks = stream_events s" "stream_ok s" "frames_ok 0 (stream_frames s)"
    and len: "int (length (concat chunks)) \<le> INT_MAX" "int (length (stream_events s)) \<le> INT_MAX"
    and short: "\<forall>fr \<in> set (stream_frames s). fr_size fr < 65536"
  shows "\<exists>f' db'. cm_readcb v chunks db conn
       = Ok (db', conn\<lparr>c_output := c_output conn
                @ concat (map (\<lambda>fr. ws_frame True 1 None (piece (concat chunks) fr)) (stream_frames s)),
             c_custom_ctx := CM_Live (cm\<lparr>m_framer := Some f'\<rparr>)\<rparr>)"
proof -
  have r: "resumed cs chunks = []" using start by (cases chunks) (simp_all add: resumed_def)
  have fl: "fst (flog (stream_events s) (0, 0)) = stream_frames s" using flog_stream [OF s(2)] .
  then have good: "stream_good (v_framer v) (resumed cs chunks @ chunks)"
    using r acc s len by (simp add: stream_good_def)
  have new: "new_frames (v_framer v) (resumed cs chunks) chunks = stream_frames s"
    using r s(1) fl by (simp add: new_frames_def)
  have "frame_bytes 1 (take DATA_BUFFER_SIZE (piece (concat chunks) fr)) = ws_frame True 1 None (piece (concat chunks) fr)"
    if "fr \<in> set (stream_frames s)" for fr
  proof -
    have "length (piece (concat chunks) fr) < 65536" using short that by (auto simp: piece_def)
    then show ?thesis using frame_bytes_rfc [of 1] by (simp add: DATA_BUFFER_SIZE_def)
  qed
  then have "forwarded DATA_BUFFER_SIZE (concat chunks) (stream_frames s)
      = concat (map (\<lambda>fr. ws_frame True 1 None (piece (concat chunks) fr)) (stream_frames s))"
    by (simp add: forwarded_def cong: map_cong)
  then show ?thesis
    using cm_readcb_eq [OF al xp f good conn, of db] db new r by (auto simp: DATA_BUFFER_SIZE_def)
qed

definition server_stream :: xmpp_stream where
  "server_stream = \<lparr>st_name = ''s'' @ [NS_SEP] @ ''stream'', st_attrs = [], st_open = \<lparr>fr_index = 0, fr_size = 15\<rparr>,
     st_stanzas = [Elem (''c'' @ [NS_SEP] @ ''a'') [] 15 4 [] 19 0], st_close = Some \<lparr>fr_index = 19, fr_size = 16\<rparr>\<rparr>"

definition server_chunks :: "byte list list" where
  "server_chunks = map (map byte_of_char) [''<stream:stream><a/>'', ''</stream:stream>'']"

definition server_expat :: expat where
  "server_expat = \<lparr>x_create = True, x_parse = (\<lambda>chunks m. if chunks = [] then (take 3 (stream_events server_stream), True)
     else (drop 3 (stream_events server_stream), True))\<rparr>"

definition sample_cenv :: cenv where
  "sample_cenv = \<lparr>v_al = zero_alloc, v_stream = to_expat, v_framer = server_expat, v_bev = True, v_dns = True\<rparr>"

lemma server_chunks_good:
  "stream_start (hd server_chunks)" "stream_ok server_stream" "frames_ok 0 (stream_frames server_stream)"
  "length (concat server_chunks) = 35" "length (stream_events server_stream) = 4"
  "\<forall>fr \<in> set (stream_frames server_stream). fr_size fr < 65536"
  by code_simp+

lemma server_expat_accepts:
  "accepted server_expat [] server_chunks" "xml_hist server_expat [] server_chunks = stream_events server_stream"
  by (simp_all add: server_chunks_def server_expat_def stream_events_def server_stream_def small_event_def ev_end_def)

theorem server_stream_forwarded_witness:
  "\<forall>conn cm. \<exists>f f' db'. framer_create zero_alloc server_expat = Some f
     \<and> cm_readcb sample_cenv server_chunks (replicate 65536 0) (conn\<lparr>c_custom_ctx := CM_Live (cm\<lparr>m_framer := Some f\<rparr>)\<rparr>)
       = Ok (db', conn\<lparr>c_output := c_output conn
                @ concat (map (\<lambda>s. ws_frame True 1 None (map byte_of_char s)) [''<stream:stream>'', ''<a/>'', ''</stream:stream>'']),
             c_custom_ctx := CM_Live (cm\<lparr>m_framer := Some f'\<rparr>)\<rparr>)"
proof (intro allI)
  fix conn :: "cm_ctx wsconn_t" and cm
  have v: "v_al sample_cenv = zero_alloc" "v_framer sample_cenv = server_expat" "x_create server_expat"
    by (simp_all add: sample_cenv_def server_expat_def)
  obtain f where f: "framer_create zero_alloc server_expat = Some f" "framer_idle server_expat [] f"
    using framer_idle_created [OF generous_zero_alloc v(3)] by blast
  have ne: "server_chunks \<noteq> []" by (simp add: server_chunks_def)
  have m: "map (\<lambda>fr. ws_frame True 1 None (piece (concat server_chunks) fr)) (stream_frames server_stream)
      = map (\<lambda>s. ws_frame True 1 None (map byte_of_char s)) [''<stream:stream>'', ''<a/>'', ''</stream:stream>'']"
    by (simp add: server_chunks_def server_stream_def stream_frames_def piece_def)
  have len: "int (length (concat server_chunks)) \<le> INT_MAX" "int (length (stream_events server_stream)) \<le> INT_MAX"
    "length (replicate 65536 0 :: byte list) = 65536"
    using server_chunks_good(4,5) by (simp_all add: INT_MAX_def)
  let ?conn = "conn\<lparr>c_custom_ctx := CM_Live (cm\<lparr>m_framer := Some f\<rparr>)\<rparr>"
  have "c_custom_ctx ?conn = CM_Live (cm\<lparr>m_framer := Some f\<rparr>)" "m_framer (cm\<lparr>m_framer := Some f\<rparr>) = Some f" by simp_all
  from server_stream_forwarded [of sample_cenv, unfolded v, OF generous_zero_alloc v(3) f(2) this len(3) ne server_chunks_good(1)
      server_expat_accepts server_chunks_good(2,3) len(1,2) server_chunks_good(6)]
  show "\<exists>f f' db'. framer_create zero_alloc server_expat = Some f
     \<and> cm_readcb sample_cenv server_chunks (replicate 65536 0) (conn\<lparr>c_custom_ctx := CM_Live (cm\<lparr>m_framer := Some f\<rparr>)\<rparr>)
       = Ok (db', conn\<lparr>c_output := c_output conn
                @ concat (map (\<lambda>s. ws_frame True 1 None (map byte_of_char s)) [''<stream:stream>'', ''<a/>'', ''</stream:stream>'']),
             c_custom_ctx := CM_Live (cm\<lparr>m_framer := Some f'\<rparr>)\<rparr>)"
    unfolding m using f(1) by auto
qed

end
