(* ===== verification/CmClient.thy ===== *)
theory CmClient
  imports CmStream
begin

text \<open>
  The connection manager as the client of the server: it keeps the contract \<open>ws_client\<close>
  (interpretation \<open>cm\<close>), so the lemmas on the life of a connection hold for the program.
\<close>

section \<open>The invariant of the manager\<close>

definition cenv_ok :: "cenv \<Rightarrow> bool" where
  "cenv_ok v \<longleftrightarrow> generous (v_al v) \<and> x_create (v_stream v) \<and> x_create (v_framer v)
     \<and> (\<forall>chunks m. \<forall>ev \<in> set (fst (x_parse (v_stream v) chunks m)). event_small ev)"

text \<open>A parser of the client's stream in use: its server, once found, was small enough to be copied.\<close>

definition parser_ok :: "streamparser_t \<Rightarrow> bool" where
  "parser_ok p \<longleftrightarrow> (\<exists>chunks. p_parser p = XP chunks) \<and> (\<forall>s. p_server p = Some s \<longrightarrow> length s < PTRDIFF_MAX)"

definition cm_parts :: "cenv \<Rightarrow> cmanager_t \<Rightarrow> bool" where
  "cm_parts v cm \<longleftrightarrow> (\<exists>p. m_parser cm = Some p \<and> parser_ok p) \<and> (\<exists>b. m_buffer cm = Some b \<and> unlimited b)
     \<and> (\<exists>f cs. m_framer cm = Some f \<and> framer_idle (v_framer v) cs f) \<and> (m_state cm = CMS_FORWARD \<longrightarrow> m_bev cm)
     \<and> (m_state cm = CMS_START \<longrightarrow> \<not> m_bev cm)"

definition cm_opened :: "cenv \<Rightarrow> cm_ctx \<Rightarrow> bool" where
  "cm_opened v cx \<longleftrightarrow> cenv_ok v \<and> (\<exists>cm. cx = CM_Live cm \<and> cm_parts v cm)"

definition cm_fresh :: "cenv \<Rightarrow> cm_ctx \<Rightarrow> bool" where
  "cm_fresh v cx \<longleftrightarrow> cenv_ok v \<and> (\<exists>cm. cx = CM_Live cm \<and> cm_parts v cm \<and> m_state cm = CMS_START)"

definition cm_closed :: "cm_ctx \<Rightarrow> bool" where
  "cm_closed cx \<longleftrightarrow> (\<exists>cm. cx = CM_Live cm \<and> m_framer cm = None \<and> m_buffer cm = None \<and> m_parser cm = None
     \<and> \<not> m_bev cm \<and> \<not> m_dnsbase cm \<and> m_server cm = None)"

definition cm_gone :: "cm_ctx \<Rightarrow> bool" where
  "cm_gone cx \<longleftrightarrow> cx = CM_Freed"

section \<open>The operations keep it\<close>

lemma server_of_small:
  assumes "\<forall>ev \<in> set evs. event_small ev" and "server_of evs = Some s"
  shows "length s < PTRDIFF_MAX"
  using assms
proof (induction evs)
  case (Cons ev evs)
  then show ?case
    by (cases ev) (auto split: option.splits if_splits dest: map_of_SomeD)
qed simp

lemma streamparser_add_ok:
  assumes "generous al" and "parser_ok p" and "\<forall>chunks m. \<forall>ev \<in> set (fst (x_parse xp chunks m)). event_small ev"
  shows "\<exists>res p'. streamparser_add al xp p text = Ok (res, p') \<and> parser_ok p'"
proof -
  obtain chunks where c: "p_parser p = XP chunks" and s: "\<forall>s. p_server p = Some s \<longrightarrow> length s < PTRDIFF_MAX"
    using assms(2) by (auto simp: parser_ok_def)
  obtain evs ok where e: "x_parse xp chunks (map byte_of_char text) = (evs, ok)" by force
  have small: "\<forall>ev \<in> set evs. event_small ev" using assms(3) e by (metis fst_conv)
  show ?thesis
    using streamparser_events_eq [OF assms(1) small, of "p\<lparr>p_parser := XP (chunks @ [map byte_of_char text])\<rparr>"]
      server_of_small [OF small] s e c
    by (auto simp: streamparser_add_def xml_parse_def parser_ok_def split: option.splits)
qed

lemma strdup_small: "generous al \<Longrightarrow> length s < PTRDIFF_MAX \<Longrightarrow> strdup_ok al s"
  by (simp add: strdup_ok_def generous_granted)

lemma line_text_length: "length (line_text m) \<le> length m"
  by (simp add: line_text_def length_takeWhile_le)

lemma message_text_length: "length (message_text m n) \<le> n"
  using line_text_length [of "map char_of_byte (take n m)"] by (simp add: message_text_def)

lemma cm_close_parts: "cm_parts v cm \<Longrightarrow> \<exists>cm'. cm_close cm = Ok cm' \<and> cm_closed (CM_Live cm')"
  by (auto simp: cm_parts_def framer_idle_def framer_inv_def cm_close_def framer_delete_def framer_cleanup_def cm_closed_def)

lemma cm_close_closed: "cm_closed (CM_Live cm) \<Longrightarrow> cm_close cm = Ok cm"
  by (simp add: cm_closed_def cm_close_def)

lemma cm_connect_parts:
  assumes "cm_parts v (cm\<lparr>m_state := CMS_CONNECT\<rparr>)" and "m_server cm = Some s"
  shows "\<exists>cm'. cm_connect v cm = Ok cm' \<and> cm_parts v (cm'\<lparr>m_state := CMS_CONNECT\<rparr>)"
  using assms by (auto simp: cm_connect_def cm_parts_def Let_def)

lemma cm_onmessage_parts:
  assumes "cenv_ok v" and "cm_parts v cm" and mb: "unlimited mb" "b_length mb + 1024 \<le> PTRDIFF_MAX"
  shows "\<exists>cm'. cm_onmessage v cm (b_data mb) (b_length mb) = Ok cm' \<and> cm_parts v cm'"
proof (cases "m_state cm")
  case CMS_START
  have al: "generous (v_al v)" and small: "\<forall>chunks m. \<forall>ev \<in> set (fst (x_parse (v_stream v) chunks m)). event_small ev"
    using assms(1) by (auto simp: cenv_ok_def)
  obtain p b where p: "m_parser cm = Some p" "parser_ok p" and b: "m_buffer cm = Some b" "unlimited b"
    using assms(2) by (auto simp: cm_parts_def)
  let ?t = "message_text (b_data mb) (b_length mb)"
  have dup: "strdup_ok (v_al v) ?t"
    using strdup_small [OF al] message_text_length [of "b_data mb" "b_length mb"] mb(2) by (simp add: PTRDIFF_MAX_def)
  obtain res p' where p': "streamparser_add (v_al v) (v_stream v) p ?t = Ok (res, p')" "parser_ok p'"
    using streamparser_add_ok [OF al p(2) small] by blast
  have "small_request b (b_length mb)" "b_length mb \<le> length (b_data mb)"
    using buf_okD [of b] buf_okD [of mb] b(2) mb by (auto simp: small_request_def SIZE_MOD_def PTRDIFF_MAX_def)
  then obtain r b' where b': "buffer_append (v_al v) b (b_data mb) (b_length mb) = Ok (r, b')" "unlimited b'"
    using buffer_append_unlimited [of b "b_length mb" "b_data mb" "v_al v"] b(2) by (auto simp: unlimited_def appended_def)
  let ?cm = "cm\<lparr>m_parser := Some p', m_buffer := Some b'\<rparr>"
  have parts: "cm_parts v (?cm\<lparr>m_server := x, m_state := CMS_CONNECT\<rparr>)" "cm_parts v ?cm" "cm_parts v (cm\<lparr>m_parser := Some p'\<rparr>)" for x
    using assms(2) p'(2) b'(2) by (auto simp: cm_parts_def)
  show ?thesis
  proof (cases "p_error p' \<or> p_server p' = None")
    case True
    then show ?thesis
      using CMS_START p(1) p'(1) b(1) b'(1) dup parts
      by (auto simp: cm_onmessage_def streamparser_is_error_def streamparser_get_server_def Let_def)
  next
    case False
    then obtain s where s: "p_server p' = Some s" "strdup_ok (v_al v) s"
      using p'(2) strdup_small [OF al] by (auto simp: parser_ok_def)
    obtain cm' where "cm_connect v (?cm\<lparr>m_server := Some s\<rparr>) = Ok cm'" "cm_parts v (cm'\<lparr>m_state := CMS_CONNECT\<rparr>)"
      using cm_connect_parts [of v "?cm\<lparr>m_server := Some s\<rparr>" s] parts(1) [of "Some s"] by auto
    then show ?thesis
      using CMS_START p(1) p'(1) b(1) b'(1) dup s False
      by (simp add: cm_onmessage_def streamparser_is_error_def streamparser_get_server_def Let_def)
  qed
next
  case CMS_CONNECT
  then show ?thesis using assms(2) by (simp add: cm_onmessage_def)
next
  case CMS_FORWARD
  moreover have "mem_read (b_data mb) 0 (b_length mb) = Ok (contents mb)" using mb(1) read_contents by auto
  ultimately show ?thesis using assms(2) by (auto simp: cm_onmessage_def cm_parts_def)
qed

section \<open>The contract\<close>

interpretation cm: ws_client "cmanager v" "cm_fresh v" "cm_opened v" cm_closed cm_gone for v
proof unfold_locales
  fix cx mb
  show "cm_opened v cx" if "cm_fresh v cx"
    using that by (auto simp: cm_fresh_def cm_opened_def)
  show "\<exists>cx'. cmanager v WSCB_CONNECTED mb cx = Ok cx' \<and> cm_fresh v cx'" if "cm_fresh v cx"
    using that by (auto simp: cmanager_def cm_fresh_def)
  show "\<exists>cx'. cmanager v WSCB_MESSAGE mb cx = Ok cx' \<and> cm_opened v cx'"
    if "cm_opened v cx" "unlimited mb" "b_length mb + 1024 \<le> PTRDIFF_MAX"
    using that cm_onmessage_parts [of v _ mb] by (fastforce simp: cmanager_def cm_opened_def buffer_get_length_def)
  show "\<exists>cx'. cmanager v WSCB_CLOSE mb cx = Ok cx' \<and> cm_closed cx'" if "cm_opened v cx"
    using that cm_close_parts by (fastforce simp: cmanager_def cm_opened_def)
  show "\<exists>cx'. cmanager v WSCB_DELETE mb cx = Ok cx' \<and> cm_gone cx'" if "cm_opened v cx \<or> cm_closed cx"
    using that cm_close_parts cm_close_closed
    by (fastforce simp: cmanager_def cm_opened_def cm_delete_def cm_gone_def cm_closed_def)
qed

end
