(* ===== verification/CmForward.thy ===== *)
theory CmForward
  imports CmClient
begin

text \<open>
  The bytes of the client on their way to the XMPP server: what arrives before the server of the stream is
  known is kept, one connection is asked for when it is, the kept bytes are sent when the connection is up,
  and the messages behind them follow in order.
\<close>

section \<open>Runs of the manager\<close>

fun cm_messages :: "cenv \<Rightarrow> byte list list \<Rightarrow> cmanager_t \<Rightarrow> cmanager_t cres" where
  "cm_messages v [] cm = Ok cm"
| "cm_messages v (m # ms) cm = bindr (cm_onmessage v cm m (length m)) (cm_messages v ms)"

text \<open>The text of a message as the parser gets it.\<close>

definition text_of :: "byte list \<Rightarrow> string" where
  "text_of m = message_text m (length m)"

lemma cm_messages_append: "cm_messages v (ms @ ms') cm = bindr (cm_messages v ms cm) (cm_messages v ms')"
  by (induction ms arbitrary: cm) (simp_all cong: bindr_cong)

section \<open>Before the connection\<close>

text \<open>A manager that has read the messages \<open>ms\<close> and still waits for the server of the stream.\<close>

definition cm_reading :: "byte list list \<Rightarrow> cmanager_t \<Rightarrow> bool" where
  "cm_reading ms cm \<longleftrightarrow> m_state cm = CMS_START \<and> m_sent cm = [] \<and> m_connects cm = []
     \<and> (\<exists>p. m_parser cm = Some p \<and> p_parser p = XP (map (map byte_of_char \<circ> text_of) ms) \<and> p_server p = None \<and> \<not> p_error p)
     \<and> (\<exists>b. m_buffer cm = Some b \<and> unlimited b \<and> contents b = concat ms)"

text \<open>A manager that has asked for the connection to \<open>s\<close>.\<close>

definition cm_connecting :: "byte list list \<Rightarrow> string \<Rightarrow> cmanager_t \<Rightarrow> bool" where
  "cm_connecting ms s cm \<longleftrightarrow> m_state cm = CMS_CONNECT \<and> m_sent cm = [] \<and> m_connects cm = [(s, XMPP_PORT)]
     \<and> m_server cm = Some s \<and> m_bev cm \<and> (\<exists>b. m_buffer cm = Some b \<and> unlimited b \<and> contents b = concat ms)"

lemma streamparser_add_step:
  assumes "generous al" and "p_parser p = XP cs" and "p_server p = None" and "\<not> p_error p"
    and "x_parse xp cs (map byte_of_char t) = (evs, True)" and "\<forall>ev \<in> set evs. event_small ev"
  shows "streamparser_add al xp p t = Ok (True, p\<lparr>p_parser := XP (cs @ [map byte_of_char t]), p_server := server_of evs\<rparr>)"
proof -
  have "p\<lparr>p_parser := q, p_server := None\<rparr> = p\<lparr>p_parser := q\<rparr>" for q using assms(3) by (cases p) simp
  then show ?thesis
    using assms streamparser_events_eq [OF assms(1,6)]
    by (auto simp: streamparser_add_def xml_parse_def split: option.splits)
qed

lemma cm_start_message:
  assumes v: "cenv_ok v" "v_bev v" "v_dns v" and cm: "cm_reading ms cm"
    and ev: "x_parse (v_stream v) (map (map byte_of_char \<circ> text_of) ms) (map byte_of_char (text_of m)) = (evs, True)"
    and len: "length (concat (ms @ [m])) + 1024 \<le> PTRDIFF_MAX"
  shows "\<exists>cm'. cm_onmessage v cm m (length m) = Ok cm'
     \<and> (case server_of evs of None \<Rightarrow> cm_reading (ms @ [m]) cm' | Some s \<Rightarrow> cm_connecting (ms @ [m]) s cm')"
proof -
  have al: "generous (v_al v)" using v(1) by (simp add: cenv_ok_def)
  have small: "\<forall>ev \<in> set evs. event_small ev" using v(1) ev by (metis cenv_ok_def fst_conv)
  obtain p b where p: "m_parser cm = Some p" "p_parser p = XP (map (map byte_of_char \<circ> text_of) ms)" "p_server p = None"
      "\<not> p_error p" and b: "m_buffer cm = Some b" "unlimited b" "contents b = concat ms"
    using cm by (auto simp: cm_reading_def)
  have bl: "b_length b = length (concat ms)" using length_contents [of b] b(2,3) by auto
  have dup: "strdup_ok (v_al v) (text_of m)"
    using strdup_small [OF al] message_text_length [of m "length m"] len by (simp add: text_of_def)
  note add = streamparser_add_step [OF al p(2-4) ev small]
  obtain b' where b': "buffer_append (v_al v) b m (length m) = Ok (True, b')" "unlimited b'" "contents b' = concat (ms @ [m])"
    using append_unlimited [OF b(2) al, of "length m" m m] b(3) bl len by auto
  have st: "m_state cm = CMS_START" "m_sent cm = []" "m_connects cm = []" using cm by (auto simp: cm_reading_def)
  have copy: "strdup_ok (v_al v) s" if "server_of evs = Some s" for s
    using strdup_small [OF al] server_of_small [OF small that] by blast
  show ?thesis
    using st p b(1) b' dup add v copy
    by (auto simp: cm_onmessage_def text_of_def [symmetric] streamparser_is_error_def streamparser_get_server_def Let_def
        cm_connect_def cm_reading_def cm_connecting_def split: option.splits)
qed

lemma xml_run_snoc:
  "xml_run xp cs (ts @ [t]) = (let (evs, ok) = xml_run xp cs ts;
     (evs', ok') = x_parse xp (cs @ map (map byte_of_char) ts) (map byte_of_char t) in (evs @ evs', ok \<and> ok'))"
  by (induction ts arbitrary: cs) (auto simp: Let_def split: prod.splits)

lemma cm_reads:
  assumes v: "cenv_ok v" "v_bev v" "v_dns v" and cm: "cm_reading [] cm"
    and "snd (xml_run (v_stream v) [] (map text_of ms))" and "server_of (fst (xml_run (v_stream v) [] (map text_of ms))) = None"
    and "length (concat ms) + 1024 \<le> PTRDIFF_MAX"
  shows "\<exists>cm'. cm_messages v ms cm = Ok cm' \<and> cm_reading ms cm'"
  using assms(5-7)
proof (induction ms rule: rev_induct)
  case (snoc m ms)
  obtain evs where e: "x_parse (v_stream v) (map (map byte_of_char \<circ> text_of) ms) (map byte_of_char (text_of m)) = (evs, True)"
    "server_of evs = None" "snd (xml_run (v_stream v) [] (map text_of ms))"
    "server_of (fst (xml_run (v_stream v) [] (map text_of ms))) = None"
    using snoc.prems by (auto simp: xml_run_snoc server_of_append split: prod.splits option.splits)
  obtain cm1 where "cm_messages v ms cm = Ok cm1" "cm_reading ms cm1" using snoc e(3,4) by auto
  then show ?case using cm_start_message [OF v _ e(1) snoc.prems(3), of cm1] e(2) by (auto simp: cm_messages_append)
qed (use cm in simp)

lemma cm_create_reading:
  assumes "cenv_ok v"
  shows "\<exists>cm. cm_create v = Ok (Some (CM_Live cm)) \<and> cm_fresh v (CM_Live cm) \<and> cm_reading [] cm"
proof -
  have al: "generous (v_al v)" and x: "x_create (v_stream v)" "x_create (v_framer v)"
    using assms by (auto simp: cenv_ok_def)
  have g: "granted (v_al v) k" if "k \<le> 128" for k using generous_small [OF al] that by (simp add: PTRDIFF_MAX_def)
  let ?p = "\<lparr>p_parser = XP [], p_error = False, p_server = None\<rparr>"
  have "streamparser_create (v_al v) (v_stream v) = Some ?p"
    using x(1) g [of sizeof_streamparser_t]
    by (simp add: streamparser_create_def streamparser_initialize_def xml_create_def sizeof_streamparser_t_def)
  moreover obtain b where "buffer_create (v_al v) 0 = Some b" "unlimited b" "contents b = []"
    by (rule create_unlimited_buffer [OF al])
  moreover obtain f where "framer_create (v_al v) (v_framer v) = Some f" "framer_idle (v_framer v) [] f"
    using framer_idle_created [OF al x(2)] by blast
  moreover have "parser_ok ?p" by (simp add: parser_ok_def)
  ultimately show ?thesis
    using assms g [of sizeof_cmanager_t]
    by (auto simp: cm_create_def cm_fresh_def cm_parts_def cm_reading_def sizeof_cmanager_t_def)
qed

section \<open>After the connection\<close>

lemma cm_forwards:
  assumes "m_state cm = CMS_FORWARD" and "m_bev cm"
  shows "cm_messages v ms cm = Ok (cm\<lparr>m_sent := m_sent cm @ concat ms\<rparr>)"
  using assms
proof (induction ms arbitrary: cm)
  case (Cons m ms)
  then show ?case by (simp add: cm_onmessage_def mem_read_def)
qed simp

lemma cm_connected_event:
  assumes "cm_connecting ms s cm" and "c_custom_ctx conn = CM_Live cm"
  shows "\<exists>b. cm_eventcb e [BEV_EVENT_CONNECTED] conn
    = Ok (Live (conn\<lparr>c_custom_ctx := CM_Live (cm\<lparr>m_sent := concat ms, m_buffer := Some b, m_state := CMS_FORWARD\<rparr>)\<rparr>))"
proof -
  obtain b where b: "m_buffer cm = Some b" "unlimited b" "contents b = concat ms" "m_sent cm = []"
    using assms(1) by (auto simp: cm_connecting_def)
  have bo: "buf_ok b" using b(2) by auto
  obtain b' where "buffer_remove_data b (b_length b) = Ok b'"
    using buf.remove_law [OF b(2), of "b_length b"] length_contents [OF bo] by auto
  then show ?thesis
    using assms(2) b read_contents [OF bo] by (auto simp: cm_eventcb_def buffer_peek_data_def)
qed

text \<open>The XMPP server gets what the client sends, byte for byte and in order: the messages up to the one
  that names the server are kept, a single connection to that server and the XMPP port is asked for, the
  kept messages are sent when it is up, and each later message behind them.\<close>

theorem client_stream_in_order:
  assumes "cenv_ok v" and "v_bev v" and "v_dns v"
    and "snd (xml_run (v_stream v) [] (map text_of (ms @ [m])))"
    and "server_of (fst (xml_run (v_stream v) [] (map text_of ms))) = None"
    and "server_of (fst (xml_run (v_stream v) [] (map text_of (ms @ [m])))) = Some s"
    and "length (concat (ms @ [m])) + 1024 \<le> PTRDIFF_MAX"
  shows "\<exists>cm cm1 cm2. cm_create v = Ok (Some (CM_Live cm)) \<and> cm_messages v (ms @ [m]) cm = Ok cm1
     \<and> m_connects cm1 = [(s, XMPP_PORT)] \<and> m_sent cm1 = []
     \<and> cm_eventcb e [BEV_EVENT_CONNECTED] (conn\<lparr>c_custom_ctx := CM_Live cm1\<rparr>) = Ok (Live (conn\<lparr>c_custom_ctx := CM_Live cm2\<rparr>))
     \<and> cm_messages v ms' cm2 = Ok (cm2\<lparr>m_sent := concat (ms @ [m] @ ms')\<rparr>)"
proof -
  obtain cm where cm: "cm_create v = Ok (Some (CM_Live cm))" "cm_reading [] cm" using cm_create_reading [OF assms(1)] by blast
  obtain evs where e: "snd (xml_run (v_stream v) [] (map text_of ms))" "server_of evs = Some s"
    "x_parse (v_stream v) (map (map byte_of_char \<circ> text_of) ms) (map byte_of_char (text_of m)) = (evs, True)"
    using assms(4-6) by (auto simp: xml_run_snoc server_of_append split: prod.splits option.splits)
  obtain cm' where r: "cm_messages v ms cm = Ok cm'" "cm_reading ms cm'"
    using cm_reads [OF assms(1-3) cm(2) e(1) assms(5)] assms(7) by auto
  obtain cm1 where c: "cm_messages v (ms @ [m]) cm = Ok cm1" "cm_connecting (ms @ [m]) s cm1"
    using cm_start_message [OF assms(1-3) r(2) e(3) assms(7)] e(2) r(1) by (auto simp: cm_messages_append)
  let ?conn = "conn\<lparr>c_custom_ctx := CM_Live cm1\<rparr>"
  obtain b where b: "cm_eventcb e [BEV_EVENT_CONNECTED] ?conn = Ok (Live (?conn\<lparr>c_custom_ctx
      := CM_Live (cm1\<lparr>m_sent := concat (ms @ [m]), m_buffer := Some b, m_state := CMS_FORWARD\<rparr>)\<rparr>))"
    using cm_connected_event [OF c(2), of ?conn] by auto
  let ?cm2 = "cm1\<lparr>m_sent := concat (ms @ [m]), m_buffer := Some b, m_state := CMS_FORWARD\<rparr>"
  have "cm_messages v ms' ?cm2 = Ok (?cm2\<lparr>m_sent := concat (ms @ [m] @ ms')\<rparr>)"
    using cm_forwards [of ?cm2 v ms'] c(2) by (simp add: cm_connecting_def)
  moreover have "m_connects cm1 = [(s, XMPP_PORT)]" "m_sent cm1 = []" using c(2) by (auto simp: cm_connecting_def)
  ultimately show ?thesis using cm(1) c(1) b by (intro exI [of _ cm] exI [of _ cm1] exI [of _ ?cm2]) simp
qed

lemma sample_cenv_ok: "cenv_ok sample_cenv"
proof -
  have "length STREAM_NS = 32" by (simp add: STREAM_NS_def)
  then show ?thesis
    by (auto simp: cenv_ok_def sample_cenv_def server_expat_def to_expat_def PTRDIFF_MAX_def split: if_splits)
qed

definition stream_pieces :: "byte list list" where
  "stream_pieces = map (map byte_of_char) [''<stream:'', ''stream to='']"

theorem client_stream_in_order_witness:
  "\<forall>conn e. \<exists>cm cm1 cm2. cm_create sample_cenv = Ok (Some (CM_Live cm)) \<and> cm_messages sample_cenv stream_pieces cm = Ok cm1
     \<and> m_connects cm1 = [(''example.com'', 5222)] \<and> m_sent cm1 = []
     \<and> cm_eventcb e [BEV_EVENT_CONNECTED] (conn\<lparr>c_custom_ctx := CM_Live cm1\<rparr>) = Ok (Live (conn\<lparr>c_custom_ctx := CM_Live cm2\<rparr>))
     \<and> cm_messages sample_cenv [map byte_of_char ''<a/>''] cm2
         = Ok (cm2\<lparr>m_sent := concat stream_pieces @ map byte_of_char ''<a/>''\<rparr>)"
proof (intro allI)
  fix conn :: "cm_ctx wsconn_t" and e
  let ?a = "map byte_of_char ''<stream:''" and ?b = "map byte_of_char ''stream to=''"
  have s: "v_stream sample_cenv = to_expat" "v_bev sample_cenv" "v_dns sample_cenv" by (simp_all add: sample_cenv_def)
  let ?ev = "Xml_Start (STREAM_NS @ [NS_SEP] @ ''stream'') [(''a'', ''b''), (''to'', ''example.com'')] 0 9"
  have r: "xml_run to_expat [] (map text_of [?a]) = ([], True)" "xml_run to_expat [] (map text_of ([?a] @ [?b])) = ([?ev], True)"
    by (simp_all add: to_expat_def)
  have "server_of [?ev] = Some ''example.com''" by code_simp
  then have h: "snd (xml_run (v_stream sample_cenv) [] (map text_of ([?a] @ [?b])))"
    "server_of (fst (xml_run (v_stream sample_cenv) [] (map text_of [?a]))) = None"
    "server_of (fst (xml_run (v_stream sample_cenv) [] (map text_of ([?a] @ [?b])))) = Some ''example.com''"
    unfolding s(1) r by simp_all
  have "length (concat ([?a] @ [?b])) + 1024 \<le> PTRDIFF_MAX" by (simp add: PTRDIFF_MAX_def)
  from client_stream_in_order [OF sample_cenv_ok s(2,3) h this, of e conn "[map byte_of_char ''<a/>'']"]
  show "\<exists>cm cm1 cm2. cm_create sample_cenv = Ok (Some (CM_Live cm)) \<and> cm_messages sample_cenv stream_pieces cm = Ok cm1
     \<and> m_connects cm1 = [(''example.com'', 5222)] \<and> m_sent cm1 = []
     \<and> cm_eventcb e [BEV_EVENT_CONNECTED] (conn\<lparr>c_custom_ctx := CM_Live cm1\<rparr>) = Ok (Live (conn\<lparr>c_custom_ctx := CM_Live cm2\<rparr>))
     \<and> cm_messages sample_cenv [map byte_of_char ''<a/>''] cm2
         = Ok (cm2\<lparr>m_sent := concat stream_pieces @ map byte_of_char ''<a/>''\<rparr>)"
    by (simp add: stream_pieces_def XMPP_PORT_def)
qed

end
