(* ===== verification/Proxy.thy ===== *)
theory Proxy
  imports CmForward
begin

text \<open>
  One connection of the proxy as a whole: libevent calls the callbacks of the server and of the connection
  manager in any order, with whatever input, and the steps follow each other. A callback for the XMPP side
  is only possible while the manager has a bufferevent. The invariant of the server and that of the manager
  hold in every state that can be reached.
\<close>

section \<open>Steps\<close>

definition server_bev :: "cm_ctx wsconn_t \<Rightarrow> bool" where
  "server_bev conn = (case c_custom_ctx conn of CM_Live cm \<Rightarrow> m_bev cm | CM_Freed \<Rightarrow> False)"

text \<open>What the XMPP server may send: together with what it sent on this stream before, a good stream.\<close>

definition server_ok :: "cenv \<Rightarrow> cm_ctx wsconn_t \<Rightarrow> byte list list \<Rightarrow> bool" where
  "server_ok v conn chunks =
     (case c_custom_ctx conn of
        CM_Freed \<Rightarrow> False
      | CM_Live cm \<Rightarrow>
          (case m_framer cm of
             None \<Rightarrow> False
           | Some f \<Rightarrow>
               (case f_parser f of XP cs \<Rightarrow> stream_good (v_framer v) (resumed cs chunks @ chunks) | _ \<Rightarrow> False)))"

inductive proxy_step ::
  "env \<Rightarrow> cenv \<Rightarrow> byte list \<times> cm_ctx wsconn_t \<Rightarrow> (byte list \<times> cm_ctx conn) cres \<Rightarrow> bool" for e v where
  client_read: "input_ok conn inp \<Longrightarrow>
     proxy_step e v (db, conn) (bindr (wsconn_read_cb e inp conn) (\<lambda>r. Ok (db, r)))"
| client_event: "proxy_step e v (db, conn) (bindr (wsconn_event_cb e events conn) (\<lambda>r. Ok (db, r)))"
| client_written: "proxy_step e v (db, conn) (bindr (wsconn_write_cb e len conn) (\<lambda>r. Ok (db, r)))"
| server_event: "server_bev conn \<Longrightarrow>
     proxy_step e v (db, conn) (bindr (cm_eventcb e events conn) (\<lambda>r. Ok (db, r)))"
| server_read: "server_bev conn \<Longrightarrow> server_ok v conn chunks \<Longrightarrow>
     proxy_step e v (db, conn) (bindr (cm_readcb v chunks db conn) (\<lambda>(db', c). Ok (db', Live c)))"

inductive reachable ::
  "env \<Rightarrow> cenv \<Rightarrow> byte list \<times> cm_ctx wsconn_t \<Rightarrow> byte list \<times> cm_ctx conn \<Rightarrow> bool" for e v s0 where
  start: "reachable e v s0 (fst s0, Live (snd s0))"
| step: "reachable e v s0 (db, Live conn) \<Longrightarrow> proxy_step e v (db, conn) (Ok s) \<Longrightarrow> reachable e v s0 s"

inductive_cases proxy_stepE [consumes 1, case_names client_read client_event client_written server_event server_read]:
  "proxy_step e v (db, conn) r"

section \<open>The invariant of the proxy\<close>

abbreviation proxy_conn :: "cenv \<Rightarrow> nat \<Rightarrow> nat \<Rightarrow> nat \<Rightarrow> cm_ctx wsconn_t \<Rightarrow> bool" where
  "proxy_conn v \<equiv> conn_inv (cm_fresh v) (cm_opened v) cm_closed (cmanager v)"

definition proxy_inv :: "cenv \<Rightarrow> nat \<Rightarrow> nat \<Rightarrow> nat \<Rightarrow> byte list \<times> cm_ctx conn \<Rightarrow> bool" where
  "proxy_inv v lim mlim cap s \<longleftrightarrow> length (fst s) = DATA_BUFFER_SIZE
     \<and> conn_post (proxy_conn v lim mlim cap) cm_gone (snd s)"

text \<open>While the manager has a bufferevent the handshake is done and nothing is closed.\<close>

lemma server_bev_receiving:
  assumes "proxy_conn v lim mlim cap conn" and "server_bev conn"
  shows "c_ws_state conn = WS_ST_RECEIVING" and "c_cm_state conn = CM_ST_CREATED"
    and "\<exists>cm. c_custom_ctx conn = CM_Live cm \<and> cm_parts v cm \<and> cenv_ok v \<and> m_bev cm"
proof -
  obtain cm where cm: "c_custom_ctx conn = CM_Live cm" "m_bev cm"
    using assms(2) by (auto simp: server_bev_def split: cm_ctx.splits)
  have st: "c_cm_state conn = CM_ST_CREATED"
    using assms(1) cm by (auto simp: conn_inv_def cm_closed_def split: if_splits)
  then have "cm_parts v cm" "cenv_ok v" using assms(1) cm(1) by (auto simp: conn_inv_def cm_opened_def)
  moreover have "c_ws_state conn \<noteq> WS_ST_START"
    using assms(1) cm by (auto simp: conn_inv_def cm_fresh_def cm_parts_def)
  ultimately show "c_ws_state conn = WS_ST_RECEIVING" "c_cm_state conn = CM_ST_CREATED"
    "\<exists>cm. c_custom_ctx conn = CM_Live cm \<and> cm_parts v cm \<and> cenv_ok v \<and> m_bev cm"
    using assms(1) st cm by (auto simp: conn_inv_def phase_ok_def split: ws_state.splits)
qed

lemma cm_eventcb_ok:
  assumes inv: "proxy_conn v lim mlim cap conn" and e: "env_ok e" and bev: "server_bev conn"
  shows "okP (conn_post (proxy_conn v lim mlim cap) cm_gone) (cm_eventcb e events conn)"
proof -
  note st = server_bev_receiving [OF inv bev]
  obtain cm where cm: "c_custom_ctx conn = CM_Live cm" "cm_parts v cm" "cenv_ok v" "m_bev cm" using st(3) by blast
  obtain b where b: "m_buffer cm = Some b" "unlimited b" using cm(2) by (auto simp: cm_parts_def)
  have bo: "buf_ok b" using b(2) by auto
  obtain b' where b': "buffer_remove_data b (b_length b) = Ok b'" "unlimited b'"
    using buf.remove_law [OF b(2), of "b_length b"] length_contents [OF bo] by auto
  have op: "cm_opened v (CM_Live (cm\<lparr>m_sent := x, m_buffer := Some b', m_state := CMS_FORWARD\<rparr>))" for x
    using cm b'(2) by (auto simp: cm_opened_def cm_parts_def)
  obtain cm' where close: "cm_close cm = Ok cm'" "cm_closed (CM_Live cm')" using cm_close_parts [OF cm(2)] by blast
  have fl: "\<not> c_fl_ws_closing conn" using inv st(1) by (simp add: conn_inv_def phase_ok_def)
  have connected: "proxy_conn v lim mlim cap (conn\<lparr>c_custom_ctx := CM_Live (cm\<lparr>m_sent := x, m_buffer := Some b', m_state := CMS_FORWARD\<rparr>)\<rparr>)" for x
    using inv op st(1,2) by (auto simp: conn_inv_def)
  have closed: "proxy_conn v lim mlim cap (conn\<lparr>c_cm_state := CM_ST_CLOSED, c_fl_cm_closed := True,
      c_output := x, c_ws_state := WS_ST_CLOSING, c_fl_ws_closing := True, c_custom_ctx := CM_Live cm'\<rparr>)" for x
    using inv close(2) st(1) by (auto simp: conn_inv_def phase_ok_def)
  show ?thesis
    using cm(1) b(1) b'(1) read_contents [OF bo] connected closed close(1) onclosed_receiving [OF e st(1) fl] inv
    by (simp add: cm_eventcb_def buffer_peek_data_def)
qed

lemma cm_readcb_ok:
  assumes inv: "proxy_conn v lim mlim cap conn" and bev: "server_bev conn" and ok: "server_ok v conn chunks"
    and db: "length db = DATA_BUFFER_SIZE"
  shows "okP (\<lambda>(db', c). length db' = DATA_BUFFER_SIZE \<and> proxy_conn v lim mlim cap c) (cm_readcb v chunks db conn)"
proof -
  note st = server_bev_receiving [OF inv bev]
  obtain cm where cm: "c_custom_ctx conn = CM_Live cm" "cm_parts v cm" "cenv_ok v" using st(3) by blast
  obtain f cs where f: "m_framer cm = Some f" "framer_idle (v_framer v) cs f" using cm(2) by (auto simp: cm_parts_def)
  have "f_parser f = XP cs" using f(2) by (simp add: framer_idle_def framer_inv_def)
  then have good: "stream_good (v_framer v) (resumed cs chunks @ chunks)" using ok cm(1) f(1) by (simp add: server_ok_def)
  have v: "generous (v_al v)" "x_create (v_framer v)" using cm(3) by (auto simp: cenv_ok_def)
  obtain f' db' where r: "cm_readcb v chunks db conn
       = Ok (db', conn\<lparr>c_output := c_output conn @ forwarded DATA_BUFFER_SIZE (concat (resumed cs chunks @ chunks))
                          (new_frames (v_framer v) (resumed cs chunks) chunks),
             c_custom_ctx := CM_Live (cm\<lparr>m_framer := Some f'\<rparr>)\<rparr>)"
     "framer_idle (v_framer v) (resumed cs chunks @ chunks) f'" "length db' = DATA_BUFFER_SIZE"
    using cm_readcb_eq [OF v f(2) good cm(1) f(1) db] by blast
  have "cm_opened v (CM_Live (cm\<lparr>m_framer := Some f'\<rparr>))"
    using cm r(2) by (auto simp: cm_opened_def cm_parts_def)
  then show ?thesis using r inv st(1,2) by (simp add: conn_inv_def)
qed

lemma proxy_step_inv:
  assumes "proxy_step e v (db, conn) r" and "proxy_inv v lim mlim cap (db, Live conn)" and "env_ok e"
  shows "\<exists>s. r = Ok s \<and> proxy_inv v lim mlim cap s"
proof -
  have inv: "proxy_conn v lim mlim cap conn" and db: "length db = DATA_BUFFER_SIZE"
    using assms(2) by (auto simp: proxy_inv_def)
  show ?thesis
    using assms(1)
  proof (cases rule: proxy_stepE)
    case (client_read inp)
    then show ?thesis using cm.read_cb_ok [OF inv assms(3), of inp] db by (auto simp: okP_iff proxy_inv_def)
  next
    case (client_event events)
    then show ?thesis using cm.event_cb_ok [OF inv assms(3), of events] db by (auto simp: okP_iff proxy_inv_def)
  next
    case (client_written len)
    then show ?thesis using cm.write_cb_ok [OF inv assms(3), of len] db by (auto simp: okP_iff proxy_inv_def)
  next
    case (server_event events)
    then show ?thesis using cm_eventcb_ok [OF inv assms(3), of events] db by (auto simp: okP_iff proxy_inv_def)
  next
    case (server_read chunks)
    then show ?thesis using cm_readcb_ok [OF inv _ _ db, of chunks] by (auto simp: okP_iff proxy_inv_def)
  qed
qed

lemma reachable_inv:
  assumes "reachable e v s0 s" and "proxy_inv v lim mlim cap (fst s0, Live (snd s0))" and "env_ok e"
  shows "proxy_inv v lim mlim cap s"
  using assms(1)
proof (induction rule: reachable.induct)
  case start
  then show ?case using assms(2) by simp
next
  case (step db conn s)
  then show ?case using proxy_step_inv [OF step.hyps(2) step.IH assms(3)] by auto
qed

section \<open>A new connection\<close>

text \<open>The server as \<open>main\<close> sets it up.\<close>

definition main_server :: "cenv \<Rightarrow> jsconf_t \<Rightarrow> cm_ctx wsserver_t \<Rightarrow> cm_ctx wsserver_t" where
  "main_server v conf ws = ws_set_cb (ws_set_config ws (Some conf)) (cm_create v) cm_delete (Some (cmanager v))"

lemma new_connection:
  assumes e: "env_ok e" and v: "cenv_ok v"
    and lim: "cf_max_frame_size conf = int lim" "14 \<le> lim" "lim \<le> 114"
    and mlim: "cf_max_message_size conf = int mlim" "0 < mlim" "int mlim \<le> INT_MAX"
  shows "\<exists>conn. ws_accept_conn_cb e True peer (main_server v conf ws) = Ok (Some conn)
     \<and> proxy_conn v lim mlim (init_cap lim) conn \<and> c_ws_state conn = WS_ST_START \<and> c_conf conn = conf
     \<and> absq (c_req conn) = areq_init \<and> absw (c_wsmsg conn) = amsg_init \<and> c_output conn = []
     \<and> (\<exists>cm. c_custom_ctx conn = CM_Live cm \<and> cm_reading [] cm)"
proof -
  have al: "generous (e_al e)" using e by (simp add: env_ok_def)
  obtain rq where rq: "rq_create (e_al e) = Ok (Some rq)" "rq_ok rq" "absq rq = areq_init"
    using rq_create_ok [OF al] by blast
  have l: "2 * int lim \<le> INT_MAX" using lim(3) by (simp add: INT_MAX_def)
  obtain w where w: "wsmsg_create (e_al e) conf = Ok (Some w)" "wsmsg_inv lim mlim (init_cap lim) w" "absw w = amsg_init"
    using wsmsg_create_ok [OF al lim(1) l mlim(1,3)] by blast
  obtain mb where mb: "buffer_create (e_al e) 0 = Some mb" "unlimited mb" by (rule create_unlimited_buffer [OF al])
  obtain cx where cx: "cm_create v = Ok (Some cx)" "cm_fresh v cx" "\<exists>cm. cx = CM_Live cm \<and> cm_reading [] cm"
    using cm_create_reading [OF v] by blast
  have g: "granted (e_al e) sizeof_wsconn_t"
    using generous_small [OF al] by (simp add: sizeof_wsconn_t_def PTRDIFF_MAX_def)
  have "limits lim mlim (init_cap lim)" using lim mlim l by (auto simp: limits_def init_cap_def)
  moreover have "cm_opened v cx" using cx(2) by (auto simp: cm_fresh_def cm_opened_def)
  ultimately show ?thesis
    using rq w mb cx g
    by (simp add: ws_accept_eq wsconn_create_def main_server_def ws_set_cb_def ws_set_config_def conn_inv_def phase_ok_def)
qed

lemma connection_safe:
  assumes "proxy_conn v lim mlim cap conn0" and "length db = DATA_BUFFER_SIZE" and "env_ok e"
    and "reachable e v (db, conn0) (db', Live conn)" and "proxy_step e v (db', conn) r"
  shows "\<exists>s. r = Ok s"
proof -
  have "proxy_inv v lim mlim cap (db, Live conn0)" using assms(1,2) by (simp add: proxy_inv_def)
  then show ?thesis
    using reachable_inv [OF assms(4) _ assms(3)] proxy_step_inv [OF assms(5) _ assms(3)] by fastforce
qed

text \<open>C7: in every state a new connection can get to, on the inputs of the step relation and with receive limits the
  receiver can keep, the web socket, the manager and the flags fit together. Before and after the handshake the
  manager exists and no closing has been initiated, and \<open>fl_cm_closed\<close> tells the two phases apart; a web socket
  that is closing has initiated it and a manager that has been told to close; once the manager has reported that
  it is closed, \<open>fl_cm_closed\<close> is set. A manager with a connection to the XMPP server belongs to a web socket that
  is receiving, a web socket that is closing or closed has a manager that holds nothing any more, and a freed
  connection has a freed manager.\<close>

theorem proxy_phases:
  assumes "env_ok e" and "cenv_ok v"
    and "cf_max_frame_size conf = int lim" "14 \<le> lim" "lim \<le> 114"
    and "cf_max_message_size conf = int mlim" "0 < mlim" "int mlim \<le> INT_MAX"
    and "length db = DATA_BUFFER_SIZE"
    and "ws_accept_conn_cb e True peer (main_server v conf ws) = Ok (Some conn0)"
    and "reachable e v (db, conn0) (db', s)"
  shows "case s of
      Live conn \<Rightarrow> (case c_ws_state conn of
          WS_ST_START \<Rightarrow> c_cm_state conn = CM_ST_CREATED \<and> c_fl_cm_closed conn \<and> \<not> c_fl_ws_closing conn
        | WS_ST_RECEIVING \<Rightarrow> c_cm_state conn = CM_ST_CREATED \<and> \<not> c_fl_cm_closed conn \<and> \<not> c_fl_ws_closing conn
        | WS_ST_CLOSING \<Rightarrow> c_fl_ws_closing conn \<and> (c_cm_state conn = CM_ST_CLOSING \<or> c_cm_state conn = CM_ST_CLOSED)
        | WS_ST_CLOSED \<Rightarrow> c_cm_state conn = CM_ST_CLOSING \<or> c_cm_state conn = CM_ST_CLOSED)
        \<and> (c_cm_state conn = CM_ST_CLOSED \<longrightarrow> c_fl_cm_closed conn)
        \<and> (server_bev conn \<longrightarrow> c_ws_state conn = WS_ST_RECEIVING)
        \<and> (c_ws_state conn = WS_ST_CLOSING \<or> c_ws_state conn = WS_ST_CLOSED \<longrightarrow> cm_closed (c_custom_ctx conn))
    | Deleted cx \<Rightarrow> cx = CM_Freed"
proof -
  have c: "proxy_conn v lim mlim (init_cap lim) conn0" using new_connection [OF assms(1-8), of peer ws] assms(10) by auto
  have "proxy_inv v lim mlim (init_cap lim) (db, Live conn0)" using c assms(9) by (simp add: proxy_inv_def)
  then have inv: "conn_post (proxy_conn v lim mlim (init_cap lim)) cm_gone s"
    using reachable_inv [OF assms(11) _ assms(1)] by (fastforce simp: proxy_inv_def)
  show ?thesis
  proof (cases s)
    case (Live conn)
    then have i: "proxy_conn v lim mlim (init_cap lim) conn" using inv by simp
    then have "c_ws_state conn = WS_ST_CLOSING \<or> c_ws_state conn = WS_ST_CLOSED \<longrightarrow> cm_closed (c_custom_ctx conn)"
      by (auto simp: conn_inv_def phase_ok_def)
    moreover have "phase_ok conn" using i by (simp add: conn_inv_def)
    ultimately show ?thesis using Live server_bev_receiving(1) [OF i] by (simp add: phase_ok_def)
  qed (use inv in \<open>simp add: cm_gone_def\<close>)
qed

section \<open>A client that disconnects\<close>

definition stranded :: "cm_ctx wsconn_t \<Rightarrow> bool" where
  "stranded conn \<longleftrightarrow> c_ws_state conn = WS_ST_CLOSED \<and> c_cm_state conn = CM_ST_CLOSING \<and> \<not> c_fl_cm_closed conn
     \<and> cm_closed (c_custom_ctx conn)"

lemma stranded_step:
  assumes "proxy_step e v (db, conn) (Ok s)" and "stranded conn"
  shows "\<exists>db'. s = (db', Live conn)"
proof -
  have st: "c_ws_state conn = WS_ST_CLOSED" "c_cm_state conn = CM_ST_CLOSING" "\<not> c_fl_cm_closed conn"
    using assms(2) by (auto simp: stranded_def)
  have same: "conn\<lparr>c_ws_state := WS_ST_CLOSED\<rparr> = conn" using st(1) by (cases conn) simp
  have "\<not> server_bev conn" using assms(2) by (auto simp: stranded_def cm_closed_def server_bev_def)
  with assms(1) show ?thesis
    by (elim proxy_stepE) (auto simp: wsconn_read_cb_def wsconn_event_cb_def wsconn_write_cb_def wsconn_close_def LOG_eq st same
        split: if_splits)
qed

lemma stranded_forever:
  assumes "reachable e v (db, conn) s" and "stranded conn"
  shows "\<exists>db'. s = (db', Live conn)"
  using assms(1)
proof (induction rule: reachable.induct)
  case (step db' c s)
  then show ?case using stranded_step assms(2) by auto
qed simp

text \<open>C35: a client that disconnects after the handshake leaves its connection behind: the manager is closed,
  but nobody reports that to the server, and no callback that can still come frees the connection, the
  receive buffers or the socket.\<close>

theorem disconnect_leaks_connection:
  assumes "proxy_conn v lim mlim cap conn" and "c_ws_state conn = WS_ST_RECEIVING" and "\<not> e_log_info e"
  shows "\<exists>conn1. wsconn_event_cb e [BEV_EVENT_READING, BEV_EVENT_EOF] conn = Ok (Live conn1)
     \<and> (\<forall>db s. reachable e v (db, conn1) s \<longrightarrow> (\<exists>db'. s = (db', Live conn1)))"
proof -
  have st: "c_cm_state conn = CM_ST_CREATED" "\<not> c_fl_cm_closed conn" "c_cb conn = Some (cmanager v)"
    "cm_opened v (c_custom_ctx conn)"
    using assms by (auto simp: conn_inv_def phase_ok_def)
  obtain cx where "cmanager v WSCB_CLOSE (c_message_buffer conn) (c_custom_ctx conn) = Ok cx" "cm_closed cx"
    using cm.close_law [OF st(4)] by blast
  then obtain conn1 where "wsconn_event_cb e [BEV_EVENT_READING, BEV_EVENT_EOF] conn = Ok (Live conn1)" "stranded conn1"
    using st assms(3) by (simp add: wsconn_event_cb_def LOG_eq wsconn_close_def run_cb_def stranded_def)
  then show ?thesis using stranded_forever by blast
qed

section \<open>Messages of the client\<close>

text \<open>A whole masked text message in one read, with limits it fits.\<close>

definition fits_limits :: "nat \<Rightarrow> nat \<Rightarrow> byte list \<Rightarrow> bool" where
  "fits_limits lim mlim payload \<longleftrightarrow> length payload \<le> lim \<and> length payload \<le> mlim \<and> length payload + 14 \<le> 2 * lim"

lemma aloop_message:
  assumes key: "length k = 4" and a: "a = amsg_init\<lparr>a_opcode := oc\<rparr>"
    and lim: "0 < lim" "0 < mlim" "2 * int lim \<le> INT_MAX" "fits_limits lim mlim payload"
  shows "aloop lim mlim (a\<lparr>a_in := ws_frame True OPCODE_TEXT (Some k) payload\<rparr>)
    = a\<lparr>a_msg := payload, a_started := True, a_opcode := OPCODE_TEXT, a_message := True\<rparr>"
proof -
  let ?f = "ws_frame True OPCODE_TEXT (Some k) payload"
  let ?b = "a\<lparr>a_msg := payload, a_started := True, a_opcode := OPCODE_TEXT, a_message := True\<rparr>"
  have p: "parse_frame lim ?f = Complete True OPCODE_TEXT True payload []"
    using parse_frame_ws_frame [of OPCODE_TEXT payload "Some k" lim True "[]"] key lim
    by (simp add: cut_def OPCODE_TEXT_def fits_limits_def INT_MAX_def)
  have "astep lim mlim (a\<lparr>a_in := ?f\<rparr>) = (True, ?b)"
    using astep_data [of lim "a\<lparr>a_in := ?f\<rparr>" True OPCODE_TEXT True payload "[]" mlim] p a lim
    by (simp add: opcode_defs amsg_init_def cut_def fits_limits_def)
  then show ?thesis
    using aloop_step aloop_stop [of lim ?b mlim] a by (simp add: amsg_init_def)
qed

lemma aadd_message:
  assumes key: "length k = 4" and a: "a = amsg_init\<lparr>a_opcode := oc\<rparr>"
    and lim: "0 < lim" "0 < mlim" "2 * int lim \<le> INT_MAX" "fits_limits lim mlim payload"
  shows "aadd lim mlim (ws_frame True OPCODE_TEXT (Some k) payload) a
    = (True, a\<lparr>a_msg := payload, a_started := True, a_opcode := OPCODE_TEXT, a_message := True\<rparr>)"
proof -
  have "length (ws_frame True OPCODE_TEXT (Some k) payload) \<le> 2 * lim"
    using key lim by (auto simp: length_ws_frame length_bytes_def fits_limits_def)
  then show ?thesis
    using aloop_message [OF assms] a lim(1) by (simp add: aadd_def aprocess_def amsg_init_def cut_def)
qed

lemma aget_whole_message:
  assumes "a = amsg_init\<lparr>a_opcode := oc\<rparr>"
  shows "aget_message lim mlim (a\<lparr>a_msg := payload, a_started := True, a_opcode := op, a_message := True\<rparr>)
    = (Some (op, payload), amsg_init\<lparr>a_opcode := op\<rparr>)"
  using assms by (auto simp: aget_message_def aprocess_def amsg_init_def aloop_stop)

text \<open>Such a message makes the server call the callback once, with the payload in the message buffer.\<close>

lemma read_text_message:
  assumes inv: "conn_inv fr op cl cb lim mlim cap conn" and e: "env_ok e" and st: "c_ws_state conn = WS_ST_RECEIVING"
    and w: "absw (c_wsmsg conn) = amsg_init\<lparr>a_opcode := oc\<rparr>" and k: "length k = 4" and p: "fits_limits lim mlim payload"
    and inp: "i_data inp = ws_frame True OPCODE_TEXT (Some k) payload"
  shows "\<exists>w' mb. wsconn_read_cb e inp conn
       = bindr (cb WSCB_MESSAGE mb (c_custom_ctx conn)) (\<lambda>cx.
         Ok (Live (conn\<lparr>c_wsmsg := w', c_message_buffer := mb, c_custom_ctx := cx\<rparr>)))
     \<and> wsmsg_inv lim mlim cap w' \<and> absw w' = amsg_init\<lparr>a_opcode := OPCODE_TEXT\<rparr> \<and> unlimited mb \<and> contents mb = payload
     \<and> b_length mb + 8192 \<le> PTRDIFF_MAX"
proof -
  let ?w = "c_wsmsg conn" and ?f = "ws_frame True OPCODE_TEXT (Some k) payload"
  have al: "generous (e_al e)" using e by (simp add: env_ok_def)
  have lim: "wsmsg_inv lim mlim cap ?w" "limits lim mlim cap" "c_cb conn = Some cb" "unlimited (c_message_buffer conn)"
    using inv by (auto simp: conn_inv_def)
  have flen: "length ?f < 2 ^ 62"
    using k p lim(2) by (auto simp: length_ws_frame length_bytes_def fits_limits_def limits_def INT_MAX_def)
  have safe: "safe_run lim mlim cap [Add ?f] (absw ?w)"
    using safe_run_limited [OF lim(1), of "Add ?f"] lim(2) flen by (simp add: limits_def)
  note add = aadd_message [OF k w, where lim = lim and mlim = mlim and payload = payload]
  obtain w1 where w1: "wsmsg_add (e_al e) ?w ?f (length ?f) = Ok (True, w1)" "wsmsg_inv lim mlim cap w1"
    "absw w1 = (absw ?w)\<lparr>a_msg := payload, a_started := True, a_opcode := OPCODE_TEXT, a_message := True\<rparr>"
    using wsmsg_add_refines [OF lim(1) al _ refl, of ?f ?f] safe add lim(2) p by (auto simp: Let_def limits_def)
  have fl: "\<not> w_error w1" "\<not> w_frame w1" "w_message w1"
    using w1(3) w by (auto simp: absw_def amsg_init_def split: if_splits)
  obtain w2 mb where g: "wsmsg_get_message (e_al e) w1 (c_message_buffer conn) = Ok (True, w2, mb, Some OPCODE_TEXT)"
    "wsmsg_inv lim mlim cap w2" "unlimited mb" "b_length mb + 8192 \<le> PTRDIFF_MAX" "contents mb = payload"
    "absw w2 = amsg_init\<lparr>a_opcode := OPCODE_TEXT\<rparr>"
    using take_message [OF w1(2) lim(2) al lim(4)] fl(3) aget_whole_message [OF w, where lim = lim and mlim = mlim and payload = payload and op = OPCODE_TEXT] w1(3)
    by (auto simp: wsmsg_has_message_def)
  have fl2: "\<not> w_error w2" "\<not> w_frame w2" "\<not> w_message w2"
    using g(6) by (auto simp: absw_def amsg_init_def split: if_splits)
  obtain b where b: "buffer_create (e_al e) 0 = Some b" by (rule create_unlimited_buffer [OF al])
  have gr: "granted (e_al e) (length ?f)" using generous_small [OF al] flen by (simp add: PTRDIFF_MAX_def)
  note flags = wsmsg_fail_def wsmsg_has_frame_def wsmsg_has_message_def
  have stop: "process_loop e (conn\<lparr>c_wsmsg := w2, c_message_buffer := mb, c_custom_ctx := cx\<rparr>) b
      = Ok (Live (conn\<lparr>c_wsmsg := w2, c_message_buffer := mb, c_custom_ctx := cx\<rparr>))" for cx
    using fl2 by (simp add: process_loop.simps [of e "conn\<lparr>c_wsmsg := w2, c_message_buffer := mb, c_custom_ctx := cx\<rparr>"] process_round_def flags)
  have "wsconn_read_cb e inp conn = process_loop e (conn\<lparr>c_wsmsg := w1\<rparr>) b"
    using st inp b gr w1(1) by (simp add: wsconn_read_cb_def wsconn_process_frame_def)
  also have "\<dots> = bindr (cb WSCB_MESSAGE mb (c_custom_ctx conn)) (\<lambda>cx.
      Ok (Live (conn\<lparr>c_wsmsg := w2, c_message_buffer := mb, c_custom_ctx := cx\<rparr>)))"
    using fl g(1) lim(3) stop by (simp add: process_loop.simps [of e "conn\<lparr>c_wsmsg := w1\<rparr>"] process_round_def flags Let_def)
  finally show ?thesis using g by blast
qed

text \<open>A text message of the client that fits the limits is handed to the XMPP server unchanged once the
  connection to it is up, and the receiver is ready for the next one.\<close>

theorem client_message_forwarded:
  assumes "proxy_conn v lim mlim cap conn" and "env_ok e" and "c_ws_state conn = WS_ST_RECEIVING"
    and "absw (c_wsmsg conn) = amsg_init\<lparr>a_opcode := oc\<rparr>" and "length k = 4" and "fits_limits lim mlim payload"
    and "i_data inp = ws_frame True OPCODE_TEXT (Some k) payload"
    and "c_custom_ctx conn = CM_Live cm" and "m_state cm = CMS_FORWARD"
  shows "\<exists>conn'. wsconn_read_cb e inp conn = Ok (Live conn')
     \<and> c_custom_ctx conn' = CM_Live (cm\<lparr>m_sent := m_sent cm @ payload\<rparr>)
     \<and> absw (c_wsmsg conn') = amsg_init\<lparr>a_opcode := OPCODE_TEXT\<rparr> \<and> c_ws_state conn' = WS_ST_RECEIVING"
proof -
  obtain w' mb where r: "wsconn_read_cb e inp conn
       = bindr (cmanager v WSCB_MESSAGE mb (c_custom_ctx conn)) (\<lambda>cx.
         Ok (Live (conn\<lparr>c_wsmsg := w', c_message_buffer := mb, c_custom_ctx := cx\<rparr>)))"
     "absw w' = amsg_init\<lparr>a_opcode := OPCODE_TEXT\<rparr>" "unlimited mb" "contents mb = payload"
    using read_text_message [OF assms(1-7)] by blast
  have "m_bev cm" using assms(1,3,8,9) by (auto simp: conn_inv_def phase_ok_def cm_opened_def cm_parts_def)
  moreover have "mem_read (b_data mb) 0 (b_length mb) = Ok payload" using read_contents r(3,4) by auto
  ultimately have "cmanager v WSCB_MESSAGE mb (c_custom_ctx conn) = Ok (CM_Live (cm\<lparr>m_sent := m_sent cm @ payload\<rparr>))"
    using assms(8,9) by (simp add: cmanager_def cm_onmessage_def buffer_get_length_def)
  then show ?thesis using r assms(3) by simp
qed

text \<open>C37: a message that arrives while the connection to the XMPP server is being made is lost: it is neither
  sent nor kept for later.\<close>

theorem message_while_connecting_lost:
  assumes "proxy_conn v lim mlim cap conn" and "env_ok e" and "c_ws_state conn = WS_ST_RECEIVING"
    and "absw (c_wsmsg conn) = amsg_init\<lparr>a_opcode := oc\<rparr>" and "length k = 4" and "fits_limits lim mlim payload"
    and "i_data inp = ws_frame True OPCODE_TEXT (Some k) payload"
    and "c_custom_ctx conn = CM_Live cm" and "m_state cm = CMS_CONNECT"
  shows "\<exists>conn'. wsconn_read_cb e inp conn = Ok (Live conn') \<and> c_custom_ctx conn' = CM_Live cm
     \<and> absw (c_wsmsg conn') = amsg_init\<lparr>a_opcode := OPCODE_TEXT\<rparr>"
proof -
  obtain w' mb where r: "wsconn_read_cb e inp conn
       = bindr (cmanager v WSCB_MESSAGE mb (c_custom_ctx conn)) (\<lambda>cx.
         Ok (Live (conn\<lparr>c_wsmsg := w', c_message_buffer := mb, c_custom_ctx := cx\<rparr>)))"
     "absw w' = amsg_init\<lparr>a_opcode := OPCODE_TEXT\<rparr>"
    using read_text_message [OF assms(1-7)] by blast
  have "cmanager v WSCB_MESSAGE mb (c_custom_ctx conn) = Ok (CM_Live cm)"
    using assms(8,9) by (simp add: cmanager_def cm_onmessage_def)
  then show ?thesis using r by simp
qed

section \<open>Concrete runs\<close>

definition sample_env :: env where
  "sample_env = \<lparr>e_al = zero_alloc, e_fnm = (=), e_sha1 = (\<lambda>_. replicate 20 0), e_log_mask = 0\<rparr>"

definition sample_peer :: "bool \<times> string \<times> string" where
  "sample_peer = (True, ''client'', ''4711'')"

lemma sample_env_log: "\<not> e_log_info sample_env"
  by (simp add: sample_env_def log_passes_def)

lemma sample_env_ok: "env_ok sample_env"
  by (simp add: env_ok_def sample_env_def log_passes_def)

lemma limited_conf_values:
  "cf_max_frame_size limited_conf = int 100" "(14 :: nat) \<le> 100" "(100 :: nat) \<le> 114"
  "cf_max_message_size limited_conf = int 1000" "(0 :: nat) < 1000" "int 1000 \<le> INT_MAX"
  by (simp_all add: limited_conf_def INT_MAX_def)

lemmas sample_setup = sample_env_ok sample_cenv_ok limited_conf_values

lemma data_buffer_length: "length (replicate 65536 (0 :: byte)) = DATA_BUFFER_SIZE"
  by (simp add: DATA_BUFFER_SIZE_def)

text \<open>A connection behind the handshake, its manager in the given state.\<close>

definition after_handshake :: "cm_st \<Rightarrow> cm_ctx wsconn_t \<Rightarrow> cm_ctx wsconn_t" where
  "after_handshake st conn =
     conn\<lparr>c_ws_state := WS_ST_RECEIVING, c_fl_cm_closed := False,
       c_custom_ctx := (case c_custom_ctx conn of CM_Freed \<Rightarrow> CM_Freed | CM_Live cm \<Rightarrow> CM_Live (cm\<lparr>m_state := st, m_bev := True\<rparr>))\<rparr>"

lemma after_handshake_inv:
  assumes "proxy_conn v lim mlim cap conn" and "c_ws_state conn = WS_ST_START" and "st \<noteq> CMS_START"
  shows "proxy_conn v lim mlim cap (after_handshake st conn)" "c_ws_state (after_handshake st conn) = WS_ST_RECEIVING"
    "c_wsmsg (after_handshake st conn) = c_wsmsg conn"
    "\<exists>cm. c_custom_ctx conn = CM_Live cm \<and> c_custom_ctx (after_handshake st conn) = CM_Live (cm\<lparr>m_state := st, m_bev := True\<rparr>)"
proof -
  obtain cm where cm: "c_custom_ctx conn = CM_Live cm" "cm_parts v cm" "cenv_ok v"
    using assms(1,2) by (auto simp: conn_inv_def cm_fresh_def)
  then have "cm_opened v (CM_Live (cm\<lparr>m_state := st, m_bev := True\<rparr>))"
    using assms(3) by (auto simp: cm_opened_def cm_parts_def)
  then show "proxy_conn v lim mlim cap (after_handshake st conn)" "c_ws_state (after_handshake st conn) = WS_ST_RECEIVING"
    "c_wsmsg (after_handshake st conn) = c_wsmsg conn"
    "\<exists>cm. c_custom_ctx conn = CM_Live cm \<and> c_custom_ctx (after_handshake st conn) = CM_Live (cm\<lparr>m_state := st, m_bev := True\<rparr>)"
    using assms cm by (auto simp: after_handshake_def conn_inv_def phase_ok_def)
qed

text \<open>A connection whose client goes away before the handshake is closed, and its manager with it.\<close>

lemma client_lost_before_handshake:
  "\<exists>conn0 conn1. ws_accept_conn_cb sample_env True sample_peer (main_server sample_cenv limited_conf ws) = Ok (Some conn0)
     \<and> wsconn_event_cb sample_env [BEV_EVENT_EOF] conn0 = Ok (Live conn1) \<and> c_ws_state conn1 = WS_ST_CLOSED"
proof -
  obtain conn0 where c: "ws_accept_conn_cb sample_env True sample_peer (main_server sample_cenv limited_conf ws) = Ok (Some conn0)"
    "proxy_conn sample_cenv 100 1000 (init_cap 100) conn0" "c_ws_state conn0 = WS_ST_START"
    using new_connection [OF sample_setup, of sample_peer ws] by blast
  have st: "c_cm_state conn0 = CM_ST_CREATED" "c_cb conn0 = Some (cmanager sample_cenv)"
    "cm_opened sample_cenv (c_custom_ctx conn0)"
    using c(2,3) by (auto simp: conn_inv_def phase_ok_def)
  obtain cx where "cmanager sample_cenv WSCB_CLOSE (c_message_buffer conn0) (c_custom_ctx conn0) = Ok cx"
    using cm.close_law [OF st(3)] by blast
  then show ?thesis
    using st c(1) by (auto simp: wsconn_event_cb_def wsconn_close_def run_cb_def sample_env_def LOG_eq log_passes_def)
qed

theorem proxy_phases_witness:
  "\<forall>ws. \<exists>conn0 conn1. ws_accept_conn_cb sample_env True sample_peer (main_server sample_cenv limited_conf ws) = Ok (Some conn0)
     \<and> wsconn_event_cb sample_env [BEV_EVENT_EOF] conn0 = Ok (Live conn1) \<and> c_ws_state conn1 = WS_ST_CLOSED
     \<and> cm_closed (c_custom_ctx conn1)"
proof
  fix ws
  obtain conn0 conn1 where
    c: "ws_accept_conn_cb sample_env True sample_peer (main_server sample_cenv limited_conf ws) = Ok (Some conn0)"
    and c1: "wsconn_event_cb sample_env [BEV_EVENT_EOF] conn0 = Ok (Live conn1)" "c_ws_state conn1 = WS_ST_CLOSED"
    using client_lost_before_handshake by blast
  have "proxy_step sample_env sample_cenv (replicate 65536 0, conn0)
      (bindr (wsconn_event_cb sample_env [BEV_EVENT_EOF] conn0) (\<lambda>r. Ok (replicate 65536 0, r)))"
    by (rule client_event)
  then have "reachable sample_env sample_cenv (replicate 65536 0, conn0) (replicate 65536 0, Live conn1)"
    using reachable.start [of _ _ "(replicate 65536 0, conn0)"] c1(1) by (auto intro: reachable.step)
  from proxy_phases [OF sample_setup data_buffer_length c this]
  show "\<exists>conn0 conn1. ws_accept_conn_cb sample_env True sample_peer (main_server sample_cenv limited_conf ws) = Ok (Some conn0)
     \<and> wsconn_event_cb sample_env [BEV_EVENT_EOF] conn0 = Ok (Live conn1) \<and> c_ws_state conn1 = WS_ST_CLOSED
     \<and> cm_closed (c_custom_ctx conn1)"
    using c c1 by (auto simp: sample_env_def)
qed

lemma sample_connection:
  assumes "st \<noteq> CMS_START"
  obtains conn0 cm where "ws_accept_conn_cb sample_env True sample_peer (main_server sample_cenv limited_conf ws) = Ok (Some conn0)"
    "c_custom_ctx conn0 = CM_Live cm"
    "proxy_conn sample_cenv 100 1000 (init_cap 100) (after_handshake st conn0)"
    "c_ws_state (after_handshake st conn0) = WS_ST_RECEIVING"
    "c_custom_ctx (after_handshake st conn0) = CM_Live (cm\<lparr>m_state := st, m_bev := True\<rparr>)"
    "absw (c_wsmsg (after_handshake st conn0)) = amsg_init\<lparr>a_opcode := a_opcode amsg_init\<rparr>"
proof -
  obtain conn0 where c: "ws_accept_conn_cb sample_env True sample_peer (main_server sample_cenv limited_conf ws) = Ok (Some conn0)"
    "proxy_conn sample_cenv 100 1000 (init_cap 100) conn0" "c_ws_state conn0 = WS_ST_START" "absw (c_wsmsg conn0) = amsg_init"
    using new_connection [OF sample_setup, of sample_peer ws] by blast
  note a = after_handshake_inv [OF c(2,3) assms]
  show thesis using that c(1,4) a by (auto simp: sample_env_def)
qed

theorem disconnect_leaks_connection_witness:
  "\<forall>ws. \<exists>conn0 conn1. ws_accept_conn_cb sample_env True sample_peer (main_server sample_cenv limited_conf ws) = Ok (Some conn0)
     \<and> wsconn_event_cb sample_env [BEV_EVENT_READING, BEV_EVENT_EOF] (after_handshake CMS_FORWARD conn0) = Ok (Live conn1)
     \<and> (\<forall>db s. reachable sample_env sample_cenv (db, conn1) s \<longrightarrow> (\<exists>db'. s = (db', Live conn1)))"
proof
  fix ws
  obtain conn0 where c: "ws_accept_conn_cb sample_env True sample_peer (main_server sample_cenv limited_conf ws) = Ok (Some conn0)"
    "proxy_conn sample_cenv 100 1000 (init_cap 100) (after_handshake CMS_FORWARD conn0)"
    "c_ws_state (after_handshake CMS_FORWARD conn0) = WS_ST_RECEIVING"
    using sample_connection [of CMS_FORWARD ws] by blast
  show "\<exists>conn0 conn1. ws_accept_conn_cb sample_env True sample_peer (main_server sample_cenv limited_conf ws) = Ok (Some conn0)
     \<and> wsconn_event_cb sample_env [BEV_EVENT_READING, BEV_EVENT_EOF] (after_handshake CMS_FORWARD conn0) = Ok (Live conn1)
     \<and> (\<forall>db s. reachable sample_env sample_cenv (db, conn1) s \<longrightarrow> (\<exists>db'. s = (db', Live conn1)))"
    using disconnect_leaks_connection [OF c(2,3) sample_env_log] c(1) by blast
qed

definition sample_message :: input where
  "sample_message = \<lparr>i_lines = [], i_data = ws_frame True OPCODE_TEXT (Some [1, 2, 3, 4]) (map byte_of_char ''<a/>'')\<rparr>"

lemma sample_message_data:
  "length [1, 2, 3, 4 :: byte] = 4" "fits_limits 100 1000 (map byte_of_char ''<a/>'')"
  "i_data sample_message = ws_frame True OPCODE_TEXT (Some [1, 2, 3, 4]) (map byte_of_char ''<a/>'')"
  by (simp_all add: fits_limits_def sample_message_def)

theorem client_message_forwarded_witness:
  "\<forall>ws. \<exists>conn0 cm conn'. ws_accept_conn_cb sample_env True sample_peer (main_server sample_cenv limited_conf ws) = Ok (Some conn0)
     \<and> c_custom_ctx conn0 = CM_Live cm
     \<and> wsconn_read_cb sample_env sample_message (after_handshake CMS_FORWARD conn0) = Ok (Live conn')
     \<and> c_custom_ctx conn' = CM_Live (cm\<lparr>m_state := CMS_FORWARD, m_bev := True, m_sent := m_sent cm @ map byte_of_char ''<a/>''\<rparr>)"
proof
  fix ws
  obtain conn0 cm where c: "ws_accept_conn_cb sample_env True sample_peer (main_server sample_cenv limited_conf ws) = Ok (Some conn0)"
    "c_custom_ctx conn0 = CM_Live cm"
    "proxy_conn sample_cenv 100 1000 (init_cap 100) (after_handshake CMS_FORWARD conn0)"
    "c_ws_state (after_handshake CMS_FORWARD conn0) = WS_ST_RECEIVING"
    "c_custom_ctx (after_handshake CMS_FORWARD conn0) = CM_Live (cm\<lparr>m_state := CMS_FORWARD, m_bev := True\<rparr>)"
    "absw (c_wsmsg (after_handshake CMS_FORWARD conn0)) = amsg_init\<lparr>a_opcode := a_opcode amsg_init\<rparr>"
    by (rule sample_connection [of CMS_FORWARD ws]) simp
  from client_message_forwarded [OF c(3) sample_env_ok c(4,6) sample_message_data c(5)]
  show "\<exists>conn0 cm conn'. ws_accept_conn_cb sample_env True sample_peer (main_server sample_cenv limited_conf ws) = Ok (Some conn0)
     \<and> c_custom_ctx conn0 = CM_Live cm
     \<and> wsconn_read_cb sample_env sample_message (after_handshake CMS_FORWARD conn0) = Ok (Live conn')
     \<and> c_custom_ctx conn' = CM_Live (cm\<lparr>m_state := CMS_FORWARD, m_bev := True, m_sent := m_sent cm @ map byte_of_char ''<a/>''\<rparr>)"
    using c(1,2) by auto
qed

theorem message_while_connecting_lost_witness:
  "\<forall>ws. \<exists>conn0 cm conn'. ws_accept_conn_cb sample_env True sample_peer (main_server sample_cenv limited_conf ws) = Ok (Some conn0)
     \<and> c_custom_ctx conn0 = CM_Live cm
     \<and> wsconn_read_cb sample_env sample_message (after_handshake CMS_CONNECT conn0) = Ok (Live conn')
     \<and> c_custom_ctx conn' = CM_Live (cm\<lparr>m_state := CMS_CONNECT, m_bev := True\<rparr>)"
proof
  fix ws
  obtain conn0 cm where c: "ws_accept_conn_cb sample_env True sample_peer (main_server sample_cenv limited_conf ws) = Ok (Some conn0)"
    "c_custom_ctx conn0 = CM_Live cm"
    "proxy_conn sample_cenv 100 1000 (init_cap 100) (after_handshake CMS_CONNECT conn0)"
    "c_ws_state (after_handshake CMS_CONNECT conn0) = WS_ST_RECEIVING"
    "c_custom_ctx (after_handshake CMS_CONNECT conn0) = CM_Live (cm\<lparr>m_state := CMS_CONNECT, m_bev := True\<rparr>)"
    "absw (c_wsmsg (after_handshake CMS_CONNECT conn0)) = amsg_init\<lparr>a_opcode := a_opcode amsg_init\<rparr>"
    by (rule sample_connection [of CMS_CONNECT ws]) simp
  from message_while_connecting_lost [OF c(3) sample_env_ok c(4,6) sample_message_data c(5)]
  show "\<exists>conn0 cm conn'. ws_accept_conn_cb sample_env True sample_peer (main_server sample_cenv limited_conf ws) = Ok (Some conn0)
     \<and> c_custom_ctx conn0 = CM_Live cm
     \<and> wsconn_read_cb sample_env sample_message (after_handshake CMS_CONNECT conn0) = Ok (Live conn')
     \<and> c_custom_ctx conn' = CM_Live (cm\<lparr>m_state := CMS_CONNECT, m_bev := True\<rparr>)"
    using c(1,2) by auto
qed

end
