(* ===== verification/WsEvents.thy ===== *)
theory WsEvents
  imports Proxy
begin

text \<open>
  What a client sees of a connection: the answer to its handshake, to a Ping and to a Close frame, and the
  Close frame it gets when the XMPP server goes away.
\<close>

section \<open>The handshake\<close>

text \<open>The request as far as the read callback takes it: up to the line that ends it or is in error.\<close>

fun request_end :: "areq \<Rightarrow> string list \<Rightarrow> areq option" where
  "request_end a [] = None"
| "request_end a (l # ls) = (let a' = aadd_line l a in if q_error a' \<or> q_done a' then Some a' else request_end a' ls)"

lemma rq_flags: "rq_is_error h = q_error (absq h)" "rq_done h = q_done (absq h)"
  by (simp_all add: rq_is_error_def rq_done_def absq_def)

lemma read_lines_eq:
  assumes "env_ok e" and "rq_ok (c_req conn)" and "lines_safe (absq (c_req conn)) (map line_text ls)"
    and "request_end (absq (c_req conn)) (map line_text ls) = Some a"
  shows "\<exists>h. rq_ok h \<and> absq h = a \<and> read_lines e ls conn
    = (if q_error a then wsconn_close e (conn\<lparr>c_req := h\<rparr>) else wsconn_handshake e (conn\<lparr>c_req := h\<rparr>))"
  using assms(2-4)
proof (induction ls arbitrary: conn)
  case (Cons l ls)
  have al: "generous (e_al e)" using assms(1) by (simp add: env_ok_def)
  obtain h where h: "rq_add_line (e_al e) (c_req conn) (line_text l) = Ok h" "rq_ok h"
    "absq h = aadd_line (line_text l) (absq (c_req conn))"
    using rq_add_line_refines [OF Cons.prems(1) al] Cons.prems(2) by auto
  show ?case
  proof (cases "q_error (absq h) \<or> q_done (absq h)")
    case True
    then have "a = absq h" using Cons.prems(3) h(3) by (simp add: Let_def)
    then show ?thesis using True h by (intro exI [of _ h]) (auto simp: rq_flags Let_def)
  next
    case False
    then have "request_end (absq h) (map line_text ls) = Some a" using Cons.prems(3) h(3) by (simp add: Let_def)
    then show ?thesis
      using Cons.IH [of "conn\<lparr>c_req := h\<rparr>"] Cons.prems(2) h False by (fastforce simp: rq_flags Let_def)
  qed
qed simp

lemma close_open_connection:
  assumes "c_cm_state conn = CM_ST_CREATED" and "c_cb conn = Some (cmanager v)" and "cm_opened v (c_custom_ctx conn)"
  shows "\<exists>cx. wsconn_close e conn = Ok (Live (conn\<lparr>c_ws_state := WS_ST_CLOSED, c_custom_ctx := cx, c_cm_state := CM_ST_CLOSING\<rparr>))
     \<and> cm_closed cx"
proof -
  obtain cx where "cmanager v WSCB_CLOSE (c_message_buffer conn) (c_custom_ctx conn) = Ok cx" "cm_closed cx"
    using cm.close_law [OF assms(3)] by blast
  then show ?thesis using assms(1,2) by (auto simp: wsconn_close_def run_cb_def)
qed

lemma delete_closed_manager:
  assumes "cm_closed (c_custom_ctx conn)" and "c_cb conn = Some (cmanager v)" and "env_ok e"
  shows "wsconn_delete e conn = Ok (Deleted CM_Freed)"
proof -
  have "cmanager v WSCB_DELETE (c_message_buffer conn) (c_custom_ctx conn) = Ok CM_Freed"
    using cm.delete_law [of v "c_custom_ctx conn"] assms(1) by (auto simp: cm_gone_def)
  then show ?thesis using assms(2,3) by (simp add: wsconn_delete_def run_cb_if_def run_cb_def env_ok_def)
qed

lemma closing_then_deleted:
  assumes "cm_closed (c_custom_ctx conn)" and "c_ws_state conn = WS_ST_CLOSING" and "c_cb conn = Some (cmanager v)" and "env_ok e"
  shows "wsconn_write_cb e 0 conn = Ok (Deleted CM_Freed)"
  using assms(2) delete_closed_manager [OF assms(1,3,4)] by (simp add: wsconn_write_cb_def)

text \<open>A connection in the state \<open>WS_ST_CLOSED\<close> waits for its client to go away.\<close>

lemma closed_waits:
  assumes "cm_closed (c_custom_ctx conn)" and "c_ws_state conn = WS_ST_CLOSED" and "c_cm_state conn = CM_ST_CLOSING"
    and "c_fl_cm_closed conn" and "c_cb conn = Some (cmanager v)" and "env_ok e"
  shows "wsconn_write_cb e len conn = Ok (Live conn)"
    and "wsconn_event_cb e [BEV_EVENT_READING, BEV_EVENT_EOF] conn = Ok (Deleted CM_Freed)"
proof -
  show "wsconn_write_cb e len conn = Ok (Live conn)" using assms(2) by (simp add: wsconn_write_cb_def)
  show "wsconn_event_cb e [BEV_EVENT_READING, BEV_EVENT_EOF] conn = Ok (Deleted CM_Freed)"
    using assms delete_closed_manager [of "conn\<lparr>c_ws_state := WS_ST_CLOSED\<rparr>" v e]
    by (simp add: wsconn_event_cb_def wsconn_close_def LOG_eq env_ok_def)
qed

text \<open>The read that completes the request.\<close>

lemma read_handshake:
  assumes "proxy_conn v lim mlim cap conn" and "env_ok e" and "c_ws_state conn = WS_ST_START"
    and "lines_safe (absq (c_req conn)) (map line_text (i_lines inp))"
    and "request_end (absq (c_req conn)) (map line_text (i_lines inp)) = Some a" and "\<not> q_error a"
    and "verdict = averdict (e_fnm e) (c_conf conn) a"
  shows "\<exists>h. wsconn_read_cb e inp conn = (let c = conn\<lparr>c_req := h,
        c_output := c_output conn @ map byte_of_char (answer (e_sha1 e) a verdict)\<rparr>
      in if verdict = V_101 then Ok (Live (c\<lparr>c_ws_state := WS_ST_RECEIVING, c_fl_cm_closed := False\<rparr>)) else wsconn_close e c)"
proof -
  have st: "rq_ok (c_req conn)" "c_cb conn = Some (cmanager v)" "cm_opened v (c_custom_ctx conn)"
    using assms(1,3) by (auto simp: conn_inv_def phase_ok_def)
  obtain cm where cm: "c_custom_ctx conn = CM_Live cm" using st(3) by (auto simp: cm_opened_def)
  obtain h where h: "rq_ok h" "absq h = a" "read_lines e (i_lines inp) conn = wsconn_handshake e (conn\<lparr>c_req := h\<rparr>)"
    using read_lines_eq [OF assms(2) st(1) assms(4,5)] assms(6) by auto
  then show ?thesis
    using handshake_eq [OF assms(2), of "conn\<lparr>c_req := h\<rparr>"] assms(3,7) st(2) cm
    by (intro exI [of _ h]) (simp add: wsconn_read_cb_def run_cb_if_def run_cb_def cmanager_def Let_def)
qed

text \<open>C14: a complete request of harmless lines on a new connection is answered with the status, and for an accepted
  one the key, of the decision table; an accepted connection goes on to receive frames with its manager untouched.
  A refused one closes its manager and is marked as closed, but it is not closed when the answer has been written,
  as the header announces for \<open>wsconn_close_send\<close>, which is never called: it stays until the client disconnects.\<close>

theorem handshake_connection:
  assumes "proxy_conn v lim mlim cap conn" and "env_ok e" and "c_ws_state conn = WS_ST_START"
    and "lines_safe (absq (c_req conn)) (map line_text (i_lines inp))"
    and "request_end (absq (c_req conn)) (map line_text (i_lines inp)) = Some a" and "\<not> q_error a"
    and "verdict = averdict (e_fnm e) (c_conf conn) a"
  shows "\<exists>conn'. wsconn_read_cb e inp conn = Ok (Live conn')
     \<and> c_output conn' = c_output conn @ map byte_of_char (answer (e_sha1 e) a verdict)
     \<and> (if verdict = V_101 then c_ws_state conn' = WS_ST_RECEIVING \<and> c_custom_ctx conn' = c_custom_ctx conn
        else c_ws_state conn' = WS_ST_CLOSED \<and> cm_closed (c_custom_ctx conn')
          \<and> (\<forall>len. wsconn_write_cb e len conn' = Ok (Live conn'))
          \<and> wsconn_event_cb e [BEV_EVENT_READING, BEV_EVENT_EOF] conn' = Ok (Deleted CM_Freed))"
proof -
  have st: "c_cm_state conn = CM_ST_CREATED" "c_fl_cm_closed conn" "c_cb conn = Some (cmanager v)" "cm_opened v (c_custom_ctx conn)"
    using assms(1,3) by (auto simp: conn_inv_def phase_ok_def)
  obtain h where "wsconn_read_cb e inp conn = (let c = conn\<lparr>c_req := h,
        c_output := c_output conn @ map byte_of_char (answer (e_sha1 e) a verdict)\<rparr>
      in if verdict = V_101 then Ok (Live (c\<lparr>c_ws_state := WS_ST_RECEIVING, c_fl_cm_closed := False\<rparr>)) else wsconn_close e c)"
    using read_handshake [OF assms] by blast
  then show ?thesis
  proof (cases "verdict = V_101")
    case False
    let ?c = "conn\<lparr>c_req := h, c_output := c_output conn @ map byte_of_char (answer (e_sha1 e) a verdict)\<rparr>"
    obtain cx where cx: "wsconn_close e ?c = Ok (Live (?c\<lparr>c_ws_state := WS_ST_CLOSED, c_custom_ctx := cx, c_cm_state := CM_ST_CLOSING\<rparr>))"
      "cm_closed cx"
      using close_open_connection [of ?c v e] st by auto
    note w = closed_waits [of "?c\<lparr>c_ws_state := WS_ST_CLOSED, c_custom_ctx := cx, c_cm_state := CM_ST_CLOSING\<rparr>" v e]
    show ?thesis using \<open>wsconn_read_cb e inp conn = _\<close> False cx st w assms(2) by (simp add: Let_def)
  qed (simp add: Let_def)
qed

section \<open>Control frames\<close>

lemma aadd_control:
  assumes k: "length k = 4" and op: "opcode = OPCODE_CLOSE \<or> opcode = OPCODE_PING" and a: "a = amsg_init\<lparr>a_opcode := oc\<rparr>"
    and lim: "0 < lim" "length payload \<le> lim" "length payload \<le> 125"
    and len: "length (ws_frame True opcode (Some k) payload @ rest) \<le> 2 * lim"
  shows "aadd lim mlim (ws_frame True opcode (Some k) payload @ rest) a
    = (True, a\<lparr>a_in := rest, a_frame := Some (True, opcode, True, payload)\<rparr>)"
proof -
  let ?f = "ws_frame True opcode (Some k) payload @ rest"
  have "opcode < 16" using op by (auto simp: opcode_defs)
  then have "parse_frame lim ?f = Complete True opcode True payload rest"
    using parse_frame_ws_frame [of opcode payload "Some k" lim True rest] k lim by (simp add: cut_def)
  then have "aloop lim mlim (a\<lparr>a_in := ?f\<rparr>) = a\<lparr>a_in := rest, a_frame := Some (True, opcode, True, payload)\<rparr>"
    using op by (auto simp: aloop.simps [of lim mlim "a\<lparr>a_in := ?f\<rparr>"] astep_def Let_def)
  then show ?thesis
    using a len lim(1) by (simp add: aadd_def aprocess_def amsg_init_def cut_def)
qed

text \<open>A control frame in front of the input of an idle receiver: the frame is taken, what follows is left to
  the receiver.\<close>

lemma read_control_frame:
  assumes inv: "conn_inv fr opn cl cb lim mlim cap conn" and e: "env_ok e" and st: "c_ws_state conn = WS_ST_RECEIVING"
    and w: "absw (c_wsmsg conn) = amsg_init\<lparr>a_opcode := oc\<rparr>" and k: "length k = 4"
    and op: "opcode = OPCODE_CLOSE \<or> opcode = OPCODE_PING" and p: "length payload \<le> lim" "length payload \<le> 125"
    and inp: "i_data inp = ws_frame True opcode (Some k) payload @ rest" "length (i_data inp) \<le> 2 * lim"
  shows "\<exists>w' b. wsconn_read_cb e inp conn
       = (if opcode = OPCODE_CLOSE then on_close_frame e (conn\<lparr>c_wsmsg := w'\<rparr>) b
          else Ok (Live (conn\<lparr>c_wsmsg := w', c_output := c_output conn @ ws_frame True OPCODE_PONG None payload\<rparr>)))
     \<and> wsmsg_inv lim mlim cap w' \<and> absw w' = aloop lim mlim (amsg_init\<lparr>a_opcode := oc, a_in := rest\<rparr>)
     \<and> unlimited b \<and> b_length b + 8192 \<le> PTRDIFF_MAX \<and> contents b = payload"
proof -
  let ?w = "c_wsmsg conn"
  have al: "generous (e_al e)" using e by (simp add: env_ok_def)
  have lim: "wsmsg_inv lim mlim cap ?w" "limits lim mlim cap" using inv by (auto simp: conn_inv_def)
  have dlen: "length (i_data inp) < 2 ^ 62" using inp(2) lim(2) by (auto simp: limits_def INT_MAX_def)
  have safe: "safe_run lim mlim cap [Add (i_data inp)] (absw ?w)"
    using safe_run_limited [OF lim(1), of "Add (i_data inp)"] lim(2) dlen by (simp add: limits_def)
  have "aadd lim mlim (i_data inp) (absw ?w)
      = (True, amsg_init\<lparr>a_opcode := oc, a_in := rest, a_frame := Some (True, opcode, True, payload)\<rparr>)"
    using aadd_control [OF k op w, where lim = lim and mlim = mlim and payload = payload and rest = rest] p inp lim(2) w
    by (auto simp: limits_def)
  then obtain w1 where w1: "wsmsg_add (e_al e) ?w (i_data inp) (length (i_data inp)) = Ok (True, w1)" "wsmsg_inv lim mlim cap w1"
    "absw w1 = amsg_init\<lparr>a_opcode := oc, a_in := rest, a_frame := Some (True, opcode, True, payload)\<rparr>"
    using wsmsg_add_refines [OF lim(1) al _ refl, of "i_data inp" "i_data inp"] safe by (auto simp: Let_def)
  have fl: "\<not> w_error w1" "w_frame w1" using w1(3) by (auto simp: absw_def amsg_init_def split: if_splits)
  obtain b0 where b0: "buffer_create (e_al e) 0 = Some b0" "unlimited b0" by (rule create_unlimited_buffer [OF al])
  have "aget_frame lim mlim (absw w1) = (Some (True, opcode, True, payload), aloop lim mlim (amsg_init\<lparr>a_opcode := oc, a_in := rest\<rparr>))"
    using w1(3) by (simp add: aget_frame_def aprocess_def amsg_init_def)
  then obtain w' b where g: "wsmsg_get_frame (e_al e) w1 b0 = Ok (True, w', b, Some (True, opcode, True))"
    "wsmsg_inv lim mlim cap w'" "unlimited b" "b_length b + 8192 \<le> PTRDIFF_MAX" "contents b = payload"
    "absw w' = aloop lim mlim (amsg_init\<lparr>a_opcode := oc, a_in := rest\<rparr>)"
    using take_frame [OF w1(2) lim(2) al b0(2)] fl(2) by (auto simp: wsmsg_has_frame_def)
  have b: "take (b_length b) (b_data b) = payload" "length payload = b_length b" "b_length b + 2048 \<le> PTRDIFF_MAX"
    using g(3-5) contents_take [of b] length_contents [of b] by auto
  have pong: "frame_bytes (of_nat OPCODE_PONG) payload = ws_frame True OPCODE_PONG None payload"
    using frame_bytes_rfc [of OPCODE_PONG payload] p(2) by (simp add: opcode_defs)
  have gr: "granted (e_al e) (length (i_data inp))" using generous_small [OF al] dlen by (simp add: PTRDIFF_MAX_def)
  have "wsconn_read_cb e inp conn = process_loop e (conn\<lparr>c_wsmsg := w1\<rparr>) b0"
    using st b0(1) gr w1(1) by (simp add: wsconn_read_cb_def wsconn_process_frame_def)
  also have "\<dots> = (if opcode = OPCODE_CLOSE then on_close_frame e (conn\<lparr>c_wsmsg := w'\<rparr>) b
      else Ok (Live (conn\<lparr>c_wsmsg := w', c_output := c_output conn @ ws_frame True OPCODE_PONG None payload\<rparr>)))"
    using fl g(1) op wsconn_write_frame_eq [OF al b, of "conn\<lparr>c_wsmsg := w'\<rparr>" "of_nat OPCODE_PONG"] pong
    by (auto simp: process_loop.simps [of e "conn\<lparr>c_wsmsg := w1\<rparr>"] process_round_def wsmsg_fail_def wsmsg_has_frame_def buffer_get_length_def
        opcode_defs)
  finally show ?thesis using g by blast
qed

text \<open>C16: a Ping of a client is answered with a Pong that carries the same bytes; the XMPP server hears nothing
  of it, and the receiver goes on with the bytes behind the Ping.\<close>

theorem ping_answered:
  assumes "proxy_conn v lim mlim cap conn" and "env_ok e" and "c_ws_state conn = WS_ST_RECEIVING"
    and "absw (c_wsmsg conn) = amsg_init\<lparr>a_opcode := oc\<rparr>" and "length k = 4"
    and "length payload \<le> lim" and "length payload \<le> 125"
    and "i_data inp = ws_frame True OPCODE_PING (Some k) payload @ rest" and "length (i_data inp) \<le> 2 * lim"
  shows "\<exists>w'. wsconn_read_cb e inp conn
       = Ok (Live (conn\<lparr>c_wsmsg := w', c_output := c_output conn @ ws_frame True OPCODE_PONG None payload\<rparr>))
     \<and> absw w' = aloop lim mlim (amsg_init\<lparr>a_opcode := oc, a_in := rest\<rparr>)"
  using read_control_frame [OF assms(1-5) _ assms(6-9)] by (auto simp: opcode_defs)

text \<open>A message that comes in the same read as a Ping before it is not handed to the manager: it stays in
  the receiver until the client sends something else.\<close>

theorem message_behind_ping_waits:
  assumes "proxy_conn v lim mlim cap conn" and "env_ok e" and "c_ws_state conn = WS_ST_RECEIVING"
    and "absw (c_wsmsg conn) = amsg_init\<lparr>a_opcode := oc\<rparr>" and "length k = 4"
    and "length payload \<le> lim" and "length payload \<le> 125" and "length k' = 4" and "fits_limits lim mlim body"
    and "i_data inp = ws_frame True OPCODE_PING (Some k) payload @ ws_frame True OPCODE_TEXT (Some k') body"
    and "length (i_data inp) \<le> 2 * lim"
  shows "\<exists>conn'. wsconn_read_cb e inp conn = Ok (Live conn') \<and> c_custom_ctx conn' = c_custom_ctx conn
     \<and> wsmsg_has_message (c_wsmsg conn')"
proof -
  let ?f = "ws_frame True OPCODE_TEXT (Some k') body"
  obtain w' where w': "wsconn_read_cb e inp conn
       = Ok (Live (conn\<lparr>c_wsmsg := w', c_output := c_output conn @ ws_frame True OPCODE_PONG None payload\<rparr>))"
    "absw w' = aloop lim mlim (amsg_init\<lparr>a_opcode := oc, a_in := ?f\<rparr>)"
    using read_control_frame [OF assms(1-5) _ assms(6,7,10,11)] by (auto simp: opcode_defs)
  have "limits lim mlim cap" using assms(1) by (simp add: conn_inv_def)
  then have "a_message (absw w')"
    using aloop_message [OF assms(8) refl, of lim mlim body oc] assms(9) w'(2) by (simp add: limits_def)
  then show ?thesis using w'(1) by (auto simp: absw_def wsmsg_has_message_def)
qed

text \<open>What the server sends back for the payload of a Close frame: the payload itself, unless it has no status
  (then 1001) or the status 0 (then nothing).\<close>

definition close_echo :: "byte list \<Rightarrow> byte list" where
  "close_echo payload = (if length payload < 2 then [3, 233] else if take 2 payload = [0, 0] then [] else payload)"

lemma htons_be_val: "htons_bytes (be_val [x, y]) = [x, y]"
proof -
  have y: "unat y < 256" by (rule byte_bound)
  have "(256 :: byte) = 0" by simp
  then have z: "x * 256 = 0" by (simp only: mult_zero_right)
  have "be_val [x, y] = unat x * 256 + unat y" by (simp add: be_val_def)
  moreover have "(unat x * 256 + unat y) div 256 = unat x" using y by simp
  moreover have "(of_nat (unat x * 256 + unat y) :: byte) = y"
    using z by simp
  ultimately show ?thesis by (simp add: htons_bytes_def)
qed

lemma htons_1001: "htons_bytes 1001 = [3, 233]"
  by (simp add: htons_bytes_def)

lemma close_echo_eq:
  "(if 0 < close_status p then htons_bytes (close_status p) @ drop 2 p else []) = close_echo p"
proof (cases p rule: remdups_adj.cases)
  case (3 x y ys)
  have "be_val [x, y] = 0 \<longleftrightarrow> x = 0 \<and> y = 0" by (simp add: be_val_def unat_eq_0)
  then show ?thesis using 3 htons_be_val [of x y] by (auto simp: close_status_def close_echo_def)
qed (simp_all add: close_status_def close_echo_def htons_1001)

text \<open>C15: a Close frame of the client is answered with a Close frame with its status and reason, the connection
  to the XMPP server is closed, and once the answer is written the connection is freed with its manager.\<close>

theorem close_frame_echoed:
  assumes "proxy_conn v lim mlim cap conn" and "env_ok e" and "c_ws_state conn = WS_ST_RECEIVING"
    and "absw (c_wsmsg conn) = amsg_init\<lparr>a_opcode := oc\<rparr>" and "length k = 4"
    and "length payload \<le> lim" and "length payload \<le> 125"
    and "i_data inp = ws_frame True OPCODE_CLOSE (Some k) payload @ rest" and "length (i_data inp) \<le> 2 * lim"
  shows "\<exists>conn'. wsconn_read_cb e inp conn = Ok (Live conn')
     \<and> c_output conn' = c_output conn @ ws_frame True OPCODE_CLOSE None (close_echo payload)
     \<and> cm_closed (c_custom_ctx conn') \<and> wsconn_write_cb e 0 conn' = Ok (Deleted CM_Freed)"
proof -
  have st: "c_cm_state conn = CM_ST_CREATED" "\<not> c_fl_ws_closing conn" "c_cb conn = Some (cmanager v)"
    "cm_opened v (c_custom_ctx conn)"
    using assms(1,3) by (auto simp: conn_inv_def phase_ok_def)
  obtain w' b where r: "wsconn_read_cb e inp conn = on_close_frame e (conn\<lparr>c_wsmsg := w'\<rparr>) b" "unlimited b"
    "b_length b + 8192 \<le> PTRDIFF_MAX" "contents b = payload"
    using read_control_frame [OF assms(1-5) _ assms(6-9)] by auto
  obtain cx where cx: "cmanager v WSCB_CLOSE (c_message_buffer conn) (c_custom_ctx conn) = Ok cx" "cm_closed cx"
    using cm.close_law [OF st(4)] by blast
  have f: "frame_bytes 8 (close_echo payload) = ws_frame True OPCODE_CLOSE None (close_echo payload)"
    using frame_bytes_rfc [of 8 "close_echo payload"] assms(7) by (auto simp: opcode_defs close_echo_def)
  let ?s = "close_status payload"
  let ?c = "conn\<lparr>c_wsmsg := w', c_status := ?s, c_output := c_output conn @ frame_bytes 8 (close_echo payload),
      c_ws_state := WS_ST_CLOSING, c_custom_ctx := cx, c_cm_state := CM_ST_CLOSING, c_fl_ws_closing := True\<rparr>"
  have "closing ?s (drop 2 payload) (conn\<lparr>c_wsmsg := w', c_status := ?s\<rparr>) = Ok ?c"
    using st cx(1) by (simp add: closing_def close_echo_eq run_cb_def Let_def)
  then have "wsconn_read_cb e inp conn = Ok (Live ?c)"
    using r on_close_frame_eq [OF assms(2) _ r(2,3), of "conn\<lparr>c_wsmsg := w'\<rparr>"] st(2) by simp
  then show ?thesis using cx(2) f closing_then_deleted [of ?c v e] st(3) assms(2) by auto
qed

section \<open>The XMPP server goes away\<close>

text \<open>C17: when the connection to the XMPP server fails, the client gets a Close frame with status 1001 and the
  reason, the manager gives up what it holds, and the connection is freed once the frame is written.\<close>

theorem server_error_reported:
  assumes "proxy_conn v lim mlim cap conn" and "env_ok e" and "server_bev conn"
  shows "\<exists>conn'. cm_eventcb e [BEV_EVENT_ERROR] conn = Ok (Live conn')
     \<and> c_output conn' = c_output conn @ ws_frame True OPCODE_CLOSE None ([3, 233] @ map byte_of_char ''XMPP server closed'')
     \<and> cm_closed (c_custom_ctx conn') \<and> wsconn_write_cb e 0 conn' = Ok (Deleted CM_Freed)"
proof -
  note st = server_bev_receiving [OF assms(1,3)]
  obtain cm where cm: "c_custom_ctx conn = CM_Live cm" "cm_parts v cm" using st(3) by blast
  obtain cm' where close: "cm_close cm = Ok cm'" "cm_closed (CM_Live cm')" using cm_close_parts [OF cm(2)] by blast
  have fl: "\<not> c_fl_ws_closing conn" "c_cb conn = Some (cmanager v)" using assms(1) st(1) by (auto simp: conn_inv_def phase_ok_def)
  have f: "frame_bytes 8 (htons_bytes 1001 @ xmpp_closed)
      = ws_frame True OPCODE_CLOSE None ([3, 233] @ map byte_of_char ''XMPP server closed'')"
    using frame_bytes_rfc [of 8 "htons_bytes 1001 @ xmpp_closed"] xmpp_closed_length
    unfolding htons_1001 by (simp add: opcode_defs xmpp_closed_def)
  let ?c = "conn\<lparr>c_cm_state := CM_ST_CLOSED, c_fl_cm_closed := True,
     c_output := c_output conn @ frame_bytes 8 (htons_bytes 1001 @ xmpp_closed),
     c_ws_state := WS_ST_CLOSING, c_fl_ws_closing := True, c_custom_ctx := CM_Live cm'\<rparr>"
  have "cm_eventcb e [BEV_EVENT_ERROR] conn = Ok (Live ?c)"
    using onclosed_receiving [OF assms(2) st(1) fl(1)] cm(1) close(1) by (simp add: cm_eventcb_def)
  then show ?thesis using close(2) closing_then_deleted [of ?c v e] fl(2) assms(2) by (simp add: f)
qed

section \<open>Concrete runs\<close>

definition sample_handshake :: input where
  "sample_handshake = \<lparr>i_lines = sample_request, i_data = []\<rparr>"

lemma sample_handshake_read:
  "lines_safe areq_init (map line_text (i_lines sample_handshake))"
  "request_end areq_init (map line_text (i_lines sample_handshake)) = Some (aadd_lines sample_request areq_init)"
  "\<not> q_error (aadd_lines sample_request areq_init)"
  "averdict (e_fnm sample_env) limited_conf (aadd_lines sample_request areq_init) = V_101"
  by code_simp+

theorem handshake_connection_witness:
  "\<forall>ws. \<exists>conn0 conn'. ws_accept_conn_cb sample_env True sample_peer (main_server sample_cenv limited_conf ws) = Ok (Some conn0)
     \<and> wsconn_read_cb sample_env sample_handshake conn0 = Ok (Live conn') \<and> c_ws_state conn' = WS_ST_RECEIVING
     \<and> c_output conn' = c_output conn0
         @ map byte_of_char (answer (\<lambda>_. replicate 20 0) (aadd_lines sample_request areq_init) V_101)"
proof
  fix ws
  obtain conn0 where c: "ws_accept_conn_cb sample_env True sample_peer (main_server sample_cenv limited_conf ws) = Ok (Some conn0)"
    "proxy_conn sample_cenv 100 1000 (init_cap 100) conn0" "c_ws_state conn0 = WS_ST_START" "c_conf conn0 = limited_conf"
    "absq (c_req conn0) = areq_init"
    using new_connection [OF sample_setup, of sample_peer ws] by blast
  show "\<exists>conn0 conn'. ws_accept_conn_cb sample_env True sample_peer (main_server sample_cenv limited_conf ws) = Ok (Some conn0)
     \<and> wsconn_read_cb sample_env sample_handshake conn0 = Ok (Live conn') \<and> c_ws_state conn' = WS_ST_RECEIVING
     \<and> c_output conn' = c_output conn0
         @ map byte_of_char (answer (\<lambda>_. replicate 20 0) (aadd_lines sample_request areq_init) V_101)"
    using handshake_connection [OF c(2) sample_env_ok c(3) _ _ sample_handshake_read(3) refl, of sample_handshake]
      sample_handshake_read c by (auto simp: sample_env_def)
qed

definition control_input :: "nat \<Rightarrow> byte list \<Rightarrow> byte list \<Rightarrow> input" where
  "control_input opcode payload rest = \<lparr>i_lines = [], i_data = ws_frame True opcode (Some [1, 2, 3, 4]) payload @ rest\<rparr>"

lemma control_input_data:
  "i_data (control_input opcode payload rest) = ws_frame True opcode (Some [1, 2, 3, 4]) payload @ rest"
  "length payload \<le> 125 \<Longrightarrow> length rest \<le> 60 \<Longrightarrow> length (i_data (control_input opcode payload rest)) \<le> 2 * 100"
  by (simp_all add: control_input_def length_ws_frame length_bytes_def)

theorem ping_answered_witness:
  "\<forall>ws. \<exists>conn0 conn'. ws_accept_conn_cb sample_env True sample_peer (main_server sample_cenv limited_conf ws) = Ok (Some conn0)
     \<and> wsconn_read_cb sample_env (control_input OPCODE_PING [7, 8, 9] []) (after_handshake CMS_FORWARD conn0) = Ok (Live conn')
     \<and> c_output conn' = c_output conn0 @ [0x8A, 3, 7, 8, 9]"
proof
  fix ws
  obtain conn0 cm where c: "ws_accept_conn_cb sample_env True sample_peer (main_server sample_cenv limited_conf ws) = Ok (Some conn0)"
    "proxy_conn sample_cenv 100 1000 (init_cap 100) (after_handshake CMS_FORWARD conn0)"
    "c_ws_state (after_handshake CMS_FORWARD conn0) = WS_ST_RECEIVING"
    "absw (c_wsmsg (after_handshake CMS_FORWARD conn0)) = amsg_init\<lparr>a_opcode := a_opcode amsg_init\<rparr>"
    by (rule sample_connection [of CMS_FORWARD ws]) simp
  have "ws_frame True OPCODE_PONG None [7, 8, 9] = [0x8A, 3, 7, 8, 9]" by code_simp
  then show "\<exists>conn0 conn'. ws_accept_conn_cb sample_env True sample_peer (main_server sample_cenv limited_conf ws) = Ok (Some conn0)
     \<and> wsconn_read_cb sample_env (control_input OPCODE_PING [7, 8, 9] []) (after_handshake CMS_FORWARD conn0) = Ok (Live conn')
     \<and> c_output conn' = c_output conn0 @ [0x8A, 3, 7, 8, 9]"
    using ping_answered [OF c(2) sample_env_ok c(3,4) _ _ _ control_input_data(1) control_input_data(2), of "[7, 8, 9]" "[]"] c(1)
    by (auto simp: after_handshake_def)
qed

theorem close_frame_echoed_witness:
  "\<forall>ws. \<exists>conn0 conn'. ws_accept_conn_cb sample_env True sample_peer (main_server sample_cenv limited_conf ws) = Ok (Some conn0)
     \<and> wsconn_read_cb sample_env (control_input OPCODE_CLOSE [3, 232, 65] []) (after_handshake CMS_FORWARD conn0) = Ok (Live conn')
     \<and> c_output conn' = c_output conn0 @ [0x88, 3, 3, 232, 65] \<and> wsconn_write_cb sample_env 0 conn' = Ok (Deleted CM_Freed)"
proof
  fix ws
  obtain conn0 cm where c: "ws_accept_conn_cb sample_env True sample_peer (main_server sample_cenv limited_conf ws) = Ok (Some conn0)"
    "proxy_conn sample_cenv 100 1000 (init_cap 100) (after_handshake CMS_FORWARD conn0)"
    "c_ws_state (after_handshake CMS_FORWARD conn0) = WS_ST_RECEIVING"
    "absw (c_wsmsg (after_handshake CMS_FORWARD conn0)) = amsg_init\<lparr>a_opcode := a_opcode amsg_init\<rparr>"
    by (rule sample_connection [of CMS_FORWARD ws]) simp
  have "ws_frame True OPCODE_CLOSE None (close_echo [3, 232, 65]) = [0x88, 3, 3, 232, 65]" by code_simp
  then show "\<exists>conn0 conn'. ws_accept_conn_cb sample_env True sample_peer (main_server sample_cenv limited_conf ws) = Ok (Some conn0)
     \<and> wsconn_read_cb sample_env (control_input OPCODE_CLOSE [3, 232, 65] []) (after_handshake CMS_FORWARD conn0) = Ok (Live conn')
     \<and> c_output conn' = c_output conn0 @ [0x88, 3, 3, 232, 65] \<and> wsconn_write_cb sample_env 0 conn' = Ok (Deleted CM_Freed)"
    using close_frame_echoed [OF c(2) sample_env_ok c(3,4) _ _ _ control_input_data(1) control_input_data(2), of "[3, 232, 65]" "[]"] c(1)
    by (auto simp: after_handshake_def)
qed

theorem server_error_reported_witness:
  "\<forall>ws. \<exists>conn0 conn'. ws_accept_conn_cb sample_env True sample_peer (main_server sample_cenv limited_conf ws) = Ok (Some conn0)
     \<and> cm_eventcb sample_env [BEV_EVENT_ERROR] (after_handshake CMS_CONNECT conn0) = Ok (Live conn')
     \<and> cm_closed (c_custom_ctx conn') \<and> wsconn_write_cb sample_env 0 conn' = Ok (Deleted CM_Freed)"
proof
  fix ws
  obtain conn0 cm where c: "ws_accept_conn_cb sample_env True sample_peer (main_server sample_cenv limited_conf ws) = Ok (Some conn0)"
    "proxy_conn sample_cenv 100 1000 (init_cap 100) (after_handshake CMS_CONNECT conn0)"
    "c_custom_ctx (after_handshake CMS_CONNECT conn0) = CM_Live (cm\<lparr>m_state := CMS_CONNECT, m_bev := True\<rparr>)"
    by (rule sample_connection [of CMS_CONNECT ws]) simp
  have "server_bev (after_handshake CMS_CONNECT conn0)" using c(3) by (simp add: server_bev_def)
  then show "\<exists>conn0 conn'. ws_accept_conn_cb sample_env True sample_peer (main_server sample_cenv limited_conf ws) = Ok (Some conn0)
     \<and> cm_eventcb sample_env [BEV_EVENT_ERROR] (after_handshake CMS_CONNECT conn0) = Ok (Live conn')
     \<and> cm_closed (c_custom_ctx conn') \<and> wsconn_write_cb sample_env 0 conn' = Ok (Deleted CM_Freed)"
    using server_error_reported [OF c(2) sample_env_ok] c(1) by blast
qed

theorem message_behind_ping_waits_witness:
  "\<forall>ws. \<exists>conn0 conn'. ws_accept_conn_cb sample_env True sample_peer (main_server sample_cenv limited_conf ws) = Ok (Some conn0)
     \<and> wsconn_read_cb sample_env (control_input OPCODE_PING [7, 8, 9] (i_data sample_message)) (after_handshake CMS_FORWARD conn0)
         = Ok (Live conn')
     \<and> c_custom_ctx conn' = c_custom_ctx (after_handshake CMS_FORWARD conn0) \<and> wsmsg_has_message (c_wsmsg conn')"
proof
  fix ws
  obtain conn0 cm where c: "ws_accept_conn_cb sample_env True sample_peer (main_server sample_cenv limited_conf ws) = Ok (Some conn0)"
    "proxy_conn sample_cenv 100 1000 (init_cap 100) (after_handshake CMS_FORWARD conn0)"
    "c_ws_state (after_handshake CMS_FORWARD conn0) = WS_ST_RECEIVING"
    "absw (c_wsmsg (after_handshake CMS_FORWARD conn0)) = amsg_init\<lparr>a_opcode := a_opcode amsg_init\<rparr>"
    by (rule sample_connection [of CMS_FORWARD ws]) simp
  let ?in = "control_input OPCODE_PING [7, 8, 9] (i_data sample_message)"
  have d: "i_data ?in = ws_frame True OPCODE_PING (Some [1, 2, 3, 4]) [7, 8, 9]
      @ ws_frame True OPCODE_TEXT (Some [1, 2, 3, 4]) (map byte_of_char ''<a/>'')" "length (i_data ?in) \<le> 2 * 100"
    by (simp_all add: control_input_def sample_message_def length_ws_frame length_bytes_def)
  show "\<exists>conn0 conn'. ws_accept_conn_cb sample_env True sample_peer (main_server sample_cenv limited_conf ws) = Ok (Some conn0)
     \<and> wsconn_read_cb sample_env ?in (after_handshake CMS_FORWARD conn0) = Ok (Live conn')
     \<and> c_custom_ctx conn' = c_custom_ctx (after_handshake CMS_FORWARD conn0) \<and> wsmsg_has_message (c_wsmsg conn')"
    using message_behind_ping_waits [OF c(2) sample_env_ok c(3,4) _ _ _ _ sample_message_data(2) d] c(1) by auto
qed

end
