(* ===== verification/Session.thy ===== *)
theory Session
  imports WsEvents
begin

text \<open>
  A whole session of the proxy: the handshake, the client's stream up to the tag that names the XMPP server,
  the connection to it, and then messages of the client and reads from the server in any order.
\<close>

section \<open>The reads of a server\<close>

text \<open>What the framer has got of the current stream after one more read.\<close>

definition after_read :: "byte list list \<Rightarrow> byte list list \<Rightarrow> byte list list" where
  "after_read cs r = resumed cs r @ r"

fun reads_good :: "expat \<Rightarrow> byte list list \<Rightarrow> byte list list list \<Rightarrow> bool" where
  "reads_good xp cs [] \<longleftrightarrow> True"
| "reads_good xp cs (r # rs) \<longleftrightarrow> stream_good xp (after_read cs r) \<and> reads_good xp (after_read cs r) rs"

fun reads_output :: "expat \<Rightarrow> byte list list \<Rightarrow> byte list list list \<Rightarrow> byte list" where
  "reads_output xp cs [] = []"
| "reads_output xp cs (r # rs) = forwarded DATA_BUFFER_SIZE (concat (after_read cs r)) (new_frames xp (resumed cs r) r)
     @ reads_output xp (after_read cs r) rs"

lemma reads_append:
  "reads_good xp cs (xs @ ys) \<longleftrightarrow> reads_good xp cs xs \<and> reads_good xp (foldl after_read cs xs) ys"
  "reads_output xp cs (xs @ ys) = reads_output xp cs xs @ reads_output xp (foldl after_read cs xs) ys"
  by (induction xs arbitrary: cs) simp_all

lemma accepted_small:
  "accepted xp old ms \<Longrightarrow> \<forall>ev \<in> set (xml_hist xp old ms). small_event (int (length (concat (old @ ms)))) ev"
proof (induction ms arbitrary: old)
  case (Cons m ms)
  have "small_event (int (length (concat (old @ m # ms)))) ev" if "small_event (int (length (concat old @ m))) ev" for ev
    using that by (auto simp: small_event_def)
  then show ?case using Cons.IH [of "old @ [m]"] Cons.prems by auto
qed simp

lemma frames_ok_index: "frames_ok lo frs \<Longrightarrow> 0 \<le> lo \<Longrightarrow> fr \<in> set frs \<Longrightarrow> 0 \<le> fr_index fr"
  by (induction frs arbitrary: lo) (auto simp: fr_end_def)

lemma stream_good_frames:
  assumes "stream_good xp cs" and "fr \<in> set (fst (flog (xml_hist xp [] cs) (0, 0)))"
  shows "0 \<le> fr_index fr" and "fr_end fr \<le> int (length (concat cs))"
proof -
  show "0 \<le> fr_index fr" using assms frames_ok_index by (fastforce simp: stream_good_def)
  obtain ev where "ev \<in> set (xml_hist xp [] cs)" "fr_end fr = ev_end ev" using flog_ends [OF assms(2)] by blast
  then show "fr_end fr \<le> int (length (concat cs))"
    using accepted_small [of xp "[]" cs] assms(1) by (auto simp: stream_good_def small_event_def)
qed

lemma new_frames_append: "new_frames xp cs (xs @ ys) = new_frames xp cs xs @ new_frames xp (cs @ xs) ys"
  by (simp add: new_frames_def xml_hist_append flog_append)

lemma forwarded_append: "forwarded cap bs (xs @ ys) = forwarded cap bs xs @ forwarded cap bs ys"
  by (simp add: forwarded_def)

text \<open>The frames of a read do not change when more of the stream arrives.\<close>

lemma forwarded_extend:
  assumes "stream_good xp (cs @ xs)"
  shows "forwarded cap (concat (cs @ xs) @ ys) (new_frames xp cs xs) = forwarded cap (concat (cs @ xs)) (new_frames xp cs xs)"
proof -
  have "piece (concat (cs @ xs) @ ys) fr = piece (concat (cs @ xs)) fr" if "fr \<in> set (new_frames xp cs xs)" for fr
  proof -
    have "fr \<in> set (fst (flog (xml_hist xp [] (cs @ xs)) (0, 0)))"
      using that by (simp add: new_frames_def xml_hist_append flog_append)
    from stream_good_frames [OF assms this] show ?thesis by (rule piece_append [rotated])
  qed
  then show ?thesis by (simp add: forwarded_def cong: map_cong)
qed

lemma reads_of_one_stream:
  assumes "\<forall>r \<in> set rs. r = [] \<or> \<not> stream_start (hd r)" and "stream_good xp (cs @ concat rs)"
  shows "reads_good xp cs rs"
    and "reads_output xp cs rs = forwarded DATA_BUFFER_SIZE (concat (cs @ concat rs)) (new_frames xp cs (concat rs))"
  using assms
proof (induction rs arbitrary: cs)
  case Nil
  { case 1 then show ?case by simp }
  { case 2 then show ?case by (simp add: new_frames_def forwarded_def) }
next
  case (Cons r rs)
  { case 1
    have "resumed cs r = cs" using 1(1) by (cases r) (simp_all add: resumed_def)
    moreover have "stream_good xp (cs @ r)" using stream_good_prefix [of xp "cs @ r" "concat rs"] 1(2) by simp
    ultimately show ?case using Cons.IH(1) [of "cs @ r"] 1 by (simp add: after_read_def) }
  { case 2
    have r: "resumed cs r = cs" using 2(1) by (cases r) (simp_all add: resumed_def)
    have "stream_good xp (cs @ r)" using stream_good_prefix [of xp "cs @ r" "concat rs"] 2(2) by simp
    from forwarded_extend [OF this, of DATA_BUFFER_SIZE "concat (concat rs)"] show ?case
      using Cons.IH(2) [of "cs @ r"] 2 r by (simp add: after_read_def new_frames_append forwarded_append) }
qed

text \<open>One stream of the server in several reads: the first begins like a stream, the others do not.\<close>

definition stream_reads :: "expat \<Rightarrow> byte list list list \<Rightarrow> xmpp_stream \<Rightarrow> bool" where
  "stream_reads xp reads s \<longleftrightarrow>
     (case reads of [] \<Rightarrow> False
      | r # rs \<Rightarrow> r \<noteq> [] \<and> stream_start (hd r) \<and> (\<forall>r' \<in> set rs. r' = [] \<or> \<not> stream_start (hd r')))
     \<and> accepted xp [] (concat reads) \<and> xml_hist xp [] (concat reads) = stream_events s
     \<and> stream_ok s \<and> frames_ok 0 (stream_frames s) \<and> (\<forall>fr \<in> set (stream_frames s). fr_size fr < 65536)
     \<and> int (length (concat (concat reads))) \<le> INT_MAX \<and> int (length (stream_events s)) \<le> INT_MAX"

definition stream_output :: "byte list list list \<Rightarrow> xmpp_stream \<Rightarrow> byte list" where
  "stream_output reads s
    = concat (map (\<lambda>fr. ws_frame True OPCODE_TEXT None (piece (concat (concat reads)) fr)) (stream_frames s))"

lemma forwarded_rfc:
  assumes "\<forall>fr \<in> set frs. fr_size fr < 65536"
  shows "forwarded DATA_BUFFER_SIZE bs frs = concat (map (\<lambda>fr. ws_frame True OPCODE_TEXT None (piece bs fr)) frs)"
proof -
  have "frame_bytes 1 (take DATA_BUFFER_SIZE (piece bs fr)) = ws_frame True OPCODE_TEXT None (piece bs fr)"
    if "fr \<in> set frs" for fr
  proof -
    have "length (piece bs fr) < 65536" using assms that by (auto simp: piece_def)
    then show ?thesis using frame_bytes_rfc [of 1] by (simp add: DATA_BUFFER_SIZE_def opcode_defs)
  qed
  then show ?thesis by (simp add: forwarded_def cong: map_cong)
qed

lemma reads_of_stream:
  assumes "stream_reads xp reads s"
  shows "reads_good xp cs reads" and "reads_output xp cs reads = stream_output reads s"
proof -
  obtain r rs where r: "reads = r # rs" "r \<noteq> []" "stream_start (hd r)" "\<forall>r' \<in> set rs. r' = [] \<or> \<not> stream_start (hd r')"
    using assms by (auto simp: stream_reads_def split: list.splits)
  have s: "xml_hist xp [] (concat reads) = stream_events s" "stream_ok s" "\<forall>fr \<in> set (stream_frames s). fr_size fr < 65536"
    using assms by (auto simp: stream_reads_def)
  have fl: "fst (flog (stream_events s) (0, 0)) = stream_frames s" using flog_stream [OF s(2)] .
  then have good: "stream_good xp (r @ concat rs)"
    using assms r(1) by (simp add: stream_reads_def stream_good_def)
  have first: "resumed cs r = []" using r(2,3) by (cases r) (simp_all add: resumed_def)
  note rest = reads_of_one_stream [OF r(4) good] and good1 = stream_good_prefix [OF good]
  show "reads_good xp cs reads" using rest(1) good1 r(1) first by (simp add: after_read_def)
  have "new_frames xp [] (r @ concat rs) = stream_frames s" using s(1) fl r(1) by (simp add: new_frames_def)
  moreover have "reads_output xp cs reads = forwarded DATA_BUFFER_SIZE (concat (r @ concat rs)) (new_frames xp [] (r @ concat rs))"
    using rest(2) forwarded_extend [of xp "[]" r DATA_BUFFER_SIZE "concat (concat rs)"] good1 r(1) first
    by (simp add: after_read_def new_frames_append forwarded_append)
  ultimately show "reads_output xp cs reads = stream_output reads s"
    using forwarded_rfc [OF s(3)] r(1) by (simp add: stream_output_def)
qed

lemma reads_of_streams:
  assumes "\<forall>(reads, s) \<in> set streams. stream_reads xp reads s"
  shows "reads_good xp cs (concat (map fst streams))"
    and "reads_output xp cs (concat (map fst streams)) = concat (map (\<lambda>(reads, s). stream_output reads s) streams)"
  using assms by (induction streams arbitrary: cs) (auto simp: reads_append reads_of_stream)

section \<open>Traffic\<close>

text \<open>What may happen between a client and a server that are connected: a text message of the client, masked
  with a key, in one read, or a read from the server.\<close>

datatype traffic = Client_Message "byte list" "byte list" | Server_Read "byte list list"

definition text_input :: "byte list \<Rightarrow> byte list \<Rightarrow> input" where
  "text_input k m = \<lparr>i_lines = [], i_data = ws_frame True OPCODE_TEXT (Some k) m\<rparr>"

fun traffic_step ::
  "env \<Rightarrow> cenv \<Rightarrow> traffic \<Rightarrow> byte list \<Rightarrow> cm_ctx wsconn_t \<Rightarrow> (byte list \<times> cm_ctx conn) cres" where
  "traffic_step e v (Client_Message k m) db conn = bindr (wsconn_read_cb e (text_input k m) conn) (\<lambda>r. Ok (db, r))"
| "traffic_step e v (Server_Read chunks) db conn = bindr (cm_readcb v chunks db conn) (\<lambda>(db', c). Ok (db', Live c))"

fun run_traffic ::
  "env \<Rightarrow> cenv \<Rightarrow> traffic list \<Rightarrow> byte list \<Rightarrow> cm_ctx wsconn_t \<Rightarrow> (byte list \<times> cm_ctx conn) cres" where
  "run_traffic e v [] db conn = Ok (db, Live conn)"
| "run_traffic e v (t # ts) db conn =
     bindr (traffic_step e v t db conn) (\<lambda>(db', r).
     case r of Live conn' \<Rightarrow> run_traffic e v ts db' conn' | Deleted cx \<Rightarrow> Ok (db', Deleted cx))"

fun client_part :: "traffic list \<Rightarrow> byte list list" where
  "client_part [] = []"
| "client_part (Client_Message k m # ts) = m # client_part ts"
| "client_part (Server_Read chunks # ts) = client_part ts"

fun server_part :: "traffic list \<Rightarrow> byte list list list" where
  "server_part [] = []"
| "server_part (Client_Message k m # ts) = server_part ts"
| "server_part (Server_Read chunks # ts) = chunks # server_part ts"

fun traffic_fits :: "nat \<Rightarrow> nat \<Rightarrow> traffic \<Rightarrow> bool" where
  "traffic_fits lim mlim (Client_Message k m) \<longleftrightarrow> length k = 4 \<and> fits_limits lim mlim m"
| "traffic_fits lim mlim (Server_Read chunks) \<longleftrightarrow> True"

text \<open>A connection between two callbacks: it keeps the invariant, waits for a message, and has the given
  manager and output.\<close>

definition receiving :: "cenv \<Rightarrow> nat \<Rightarrow> nat \<Rightarrow> nat \<Rightarrow> cmanager_t \<Rightarrow> byte list \<Rightarrow> cm_ctx wsconn_t \<Rightarrow> bool" where
  "receiving v lim mlim cap cm out conn \<longleftrightarrow> proxy_conn v lim mlim cap conn \<and> c_ws_state conn = WS_ST_RECEIVING
     \<and> (\<exists>oc. absw (c_wsmsg conn) = amsg_init\<lparr>a_opcode := oc\<rparr>) \<and> c_custom_ctx conn = CM_Live cm \<and> c_output conn = out"

lemma run_traffic_append:
  "run_traffic e v (ts @ us) db conn = bindr (run_traffic e v ts db conn) (\<lambda>(db', r).
     case r of Live conn' \<Rightarrow> run_traffic e v us db' conn' | Deleted cx \<Rightarrow> Ok (db', Deleted cx))"
  by (induction ts arbitrary: db conn) (auto split: conn.split intro!: bindr_cong)

section \<open>Messages of the client\<close>

text \<open>The manager looks at the message buffer only as far as the message goes.\<close>

lemma buffer_append_source:
  assumes "b_max_length b = 0" and "b_length b + n + 1024 < SIZE_MOD" and "take n src = m" and "length m = n"
  shows "buffer_append al b src n = buffer_append al b m n"
proof -
  have "buffer_put b' src n = buffer_put b' m n" for b'
    using assms(3,4) by (auto simp: buffer_put_def mem_read_def)
  then show ?thesis using assms(1,2) by (simp add: buffer_append_def buffer_resize_def size_add_exact Let_def)
qed

lemma cm_onmessage_source:
  assumes "take n src = m" and "length m = n"
    and "m_state cm = CMS_START \<Longrightarrow> \<exists>b. m_buffer cm = Some b \<and> b_max_length b = 0 \<and> b_length b + n + 1024 < SIZE_MOD"
  shows "cm_onmessage v cm src n = cm_onmessage v cm m n"
proof (cases "m_state cm")
  case CMS_START
  then obtain b where b: "m_buffer cm = Some b" "b_max_length b = 0" "b_length b + n + 1024 < SIZE_MOD" using assms(3) by blast
  have "message_text src n = message_text m n" using assms(1,2) by (simp add: message_text_def)
  then show ?thesis using CMS_START b(1) buffer_append_source [OF b(2,3) assms(1,2), of "v_al v"]
    by (simp add: cm_onmessage_def Let_def cong: option.case_cong if_cong)
next
  case CMS_CONNECT
  then show ?thesis by (simp add: cm_onmessage_def)
next
  case CMS_FORWARD
  have "mem_read src 0 n = mem_read m 0 n" using assms(1,2) by (auto simp: mem_read_def)
  then show ?thesis using CMS_FORWARD by (simp add: cm_onmessage_def)
qed

lemma client_step:
  assumes r: "receiving v lim mlim cap cm out conn" and e: "env_ok e" and k: "length k = 4" and m: "fits_limits lim mlim m"
    and b: "m_state cm = CMS_START \<Longrightarrow> \<exists>b. m_buffer cm = Some b \<and> b_max_length b = 0 \<and> b_length b + length m + 1024 < SIZE_MOD"
    and cm: "cm_onmessage v cm m (length m) = Ok cm'"
  shows "\<exists>conn'. wsconn_read_cb e (text_input k m) conn = Ok (Live conn') \<and> receiving v lim mlim cap cm' out conn'"
proof -
  have c: "proxy_conn v lim mlim cap conn" "c_ws_state conn = WS_ST_RECEIVING" "c_custom_ctx conn = CM_Live cm" "c_output conn = out"
    using r by (auto simp: receiving_def)
  obtain oc where oc: "absw (c_wsmsg conn) = amsg_init\<lparr>a_opcode := oc\<rparr>" using r by (auto simp: receiving_def)
  obtain w mb where g: "wsconn_read_cb e (text_input k m) conn
       = bindr (cmanager v WSCB_MESSAGE mb (c_custom_ctx conn)) (\<lambda>cx.
         Ok (Live (conn\<lparr>c_wsmsg := w, c_message_buffer := mb, c_custom_ctx := cx\<rparr>)))"
     "absw w = amsg_init\<lparr>a_opcode := OPCODE_TEXT\<rparr>" "unlimited mb" "contents mb = m"
    using read_text_message [OF c(1) e c(2) oc k m, of "text_input k m"] by (auto simp: text_input_def)
  have n: "take (b_length mb) (b_data mb) = m" "length m = b_length mb"
    using g(3,4) length_contents [of mb] by (auto simp: contents_def)
  have "cm_onmessage v cm (b_data mb) (b_length mb) = Ok cm'"
    using cm_onmessage_source [OF n, of cm v] b cm n(2) by simp
  then have rd: "wsconn_read_cb e (text_input k m) conn
      = Ok (Live (conn\<lparr>c_wsmsg := w, c_message_buffer := mb, c_custom_ctx := CM_Live cm'\<rparr>))" (is "_ = Ok (Live ?c)")
    using g(1) c(3) by (simp add: cmanager_def buffer_get_length_def)
  have "input_ok conn (text_input k m)"
    using k m c(1) by (auto simp: input_ok_def text_input_def length_ws_frame length_bytes_def fits_limits_def conn_inv_def
        limits_def INT_MAX_def)
  from cm.read_cb_ok [OF c(1) e this] have "proxy_conn v lim mlim cap ?c" unfolding rd by simp
  then show ?thesis using rd g(2) c by (auto simp: receiving_def)
qed

text \<open>While the manager waits for the server of the stream, messages are kept.\<close>

lemma cm_reading_buffer:
  assumes "cm_reading ms cm" and "length (concat (ms @ [m])) + 1024 \<le> PTRDIFF_MAX"
  shows "\<exists>b. m_buffer cm = Some b \<and> b_max_length b = 0 \<and> b_length b + length m + 1024 < SIZE_MOD"
proof -
  obtain b where b: "m_buffer cm = Some b" "unlimited b" "contents b = concat ms" using assms(1) by (auto simp: cm_reading_def)
  then have "b_length b = length (concat ms)" using length_contents [of b] by auto
  then show ?thesis using b assms(2) by (auto simp: unlimited_def PTRDIFF_MAX_def SIZE_MOD_def)
qed

definition message_traffic :: "(byte list \<times> byte list) list \<Rightarrow> traffic list" where
  "message_traffic kms = map (\<lambda>(k, m). Client_Message k m) kms"

lemma traffic_reading:
  assumes e: "env_ok e" and v: "cenv_ok v" "v_bev v" "v_dns v"
    and r: "receiving v lim mlim cap cm out conn" "cm_reading [] cm"
    and "\<forall>t \<in> set (message_traffic kms). traffic_fits lim mlim t"
    and "snd (xml_run (v_stream v) [] (map text_of (map snd kms)))"
    and "server_of (fst (xml_run (v_stream v) [] (map text_of (map snd kms)))) = None"
    and "length (concat (map snd kms)) + 1024 \<le> PTRDIFF_MAX"
  shows "\<exists>cm' conn'. run_traffic e v (message_traffic kms) db conn = Ok (db, Live conn')
     \<and> receiving v lim mlim cap cm' out conn' \<and> cm_reading (map snd kms) cm'"
  using assms(7-)
proof (induction kms rule: rev_induct)
  case (snoc km kms)
  obtain k m where km: "km = (k, m)" by fastforce
  let ?ms = "map snd kms"
  obtain evs where x: "x_parse (v_stream v) (map (map byte_of_char \<circ> text_of) ?ms) (map byte_of_char (text_of m)) = (evs, True)"
    "server_of evs = None" "snd (xml_run (v_stream v) [] (map text_of ?ms))"
    "server_of (fst (xml_run (v_stream v) [] (map text_of ?ms))) = None"
    using snoc.prems(2,3) km by (auto simp: xml_run_snoc server_of_append o_assoc split: prod.splits option.splits)
  have len: "length (concat (?ms @ [m])) + 1024 \<le> PTRDIFF_MAX" using snoc.prems(4) km by simp
  have fit: "\<forall>t \<in> set (message_traffic kms). traffic_fits lim mlim t" "length k = 4" "fits_limits lim mlim m"
    using snoc.prems(1) km by (auto simp: message_traffic_def)
  obtain cm1 conn1 where c: "run_traffic e v (message_traffic kms) db conn = Ok (db, Live conn1)"
    "receiving v lim mlim cap cm1 out conn1" "cm_reading ?ms cm1"
    using snoc.IH [OF fit(1) x(3,4)] len by auto
  obtain cm2 where m: "cm_onmessage v cm1 m (length m) = Ok cm2" "cm_reading (?ms @ [m]) cm2"
    using cm_start_message [OF v c(3) x(1) len] x(2) by auto
  obtain conn2 where "wsconn_read_cb e (text_input k m) conn1 = Ok (Live conn2)" "receiving v lim mlim cap cm2 out conn2"
    using client_step [OF c(2) e fit(2,3) cm_reading_buffer [OF c(3) len] m(1)] by blast
  then show ?case using c(1) m(2) km by (auto simp: message_traffic_def run_traffic_append)
qed (use r in \<open>auto simp: message_traffic_def\<close>)

section \<open>Both directions\<close>

text \<open>Once the connection to the server is up, the client's messages go to the server and the server's frames
  to the client, in whatever order the two sides are read.\<close>

lemma server_step:
  assumes r: "receiving v lim mlim cap cm out conn" and f: "m_framer cm = Some f" "framer_idle (v_framer v) cs f"
    and bev: "m_bev cm" and g: "stream_good (v_framer v) (after_read cs chunks)" and db: "length db = DATA_BUFFER_SIZE"
  shows "\<exists>f' db' conn'. cm_readcb v chunks db conn = Ok (db', conn') \<and> length db' = DATA_BUFFER_SIZE
     \<and> framer_idle (v_framer v) (after_read cs chunks) f'
     \<and> receiving v lim mlim cap (cm\<lparr>m_framer := Some f'\<rparr>) (out @ reads_output (v_framer v) cs [chunks]) conn'"
proof -
  have c: "proxy_conn v lim mlim cap conn" "c_custom_ctx conn = CM_Live cm" "c_ws_state conn = WS_ST_RECEIVING" "c_output conn = out"
    using r by (auto simp: receiving_def)
  then have "cenv_ok v" by (auto simp: conn_inv_def phase_ok_def cm_opened_def)
  then have v: "generous (v_al v)" "x_create (v_framer v)" by (auto simp: cenv_ok_def)
  have g': "stream_good (v_framer v) (resumed cs chunks @ chunks)" using g by (simp add: after_read_def)
  obtain f' db' where rd: "cm_readcb v chunks db conn
       = Ok (db', conn\<lparr>c_output := c_output conn @ forwarded DATA_BUFFER_SIZE (concat (resumed cs chunks @ chunks))
                          (new_frames (v_framer v) (resumed cs chunks) chunks),
             c_custom_ctx := CM_Live (cm\<lparr>m_framer := Some f'\<rparr>)\<rparr>)" (is "_ = Ok (db', ?c)")
     "framer_idle (v_framer v) (resumed cs chunks @ chunks) f'" "length db' = DATA_BUFFER_SIZE"
    using cm_readcb_eq [OF v f(2) g' c(2) f(1) db] by blast
  have "f_parser f = XP cs" using f(2) by (simp add: framer_idle_def framer_inv_def)
  then have "server_ok v conn chunks" using g' c(2) f(1) by (simp add: server_ok_def)
  moreover have "server_bev conn" using c(2) bev by (simp add: server_bev_def)
  ultimately have "proxy_conn v lim mlim cap ?c" using cm_readcb_ok [OF c(1) _ _ db, of chunks] unfolding rd(1) by simp
  then show ?thesis using rd r c by (auto simp: receiving_def after_read_def)
qed

lemma traffic_forwarding:
  assumes e: "env_ok e" and "receiving v lim mlim cap cm out conn" and "m_state cm = CMS_FORWARD" "m_bev cm"
    and "m_framer cm = Some f" "framer_idle (v_framer v) cs f" and "length db = DATA_BUFFER_SIZE"
    and "\<forall>t \<in> set ts. traffic_fits lim mlim t" and "reads_good (v_framer v) cs (server_part ts)"
  shows "\<exists>f' db' conn'. run_traffic e v ts db conn = Ok (db', Live conn')
     \<and> receiving v lim mlim cap (cm\<lparr>m_sent := m_sent cm @ concat (client_part ts), m_framer := Some f'\<rparr>)
         (out @ reads_output (v_framer v) cs (server_part ts)) conn'"
  using assms(2-)
proof (induction ts arbitrary: cm out conn f cs db)
  case Nil
  have same: "cm\<lparr>m_sent := m_sent cm @ [], m_framer := Some f\<rparr> = cm" using Nil(4) by (cases cm) simp
  then have "receiving v lim mlim cap (cm\<lparr>m_sent := m_sent cm @ [], m_framer := Some f\<rparr>) (out @ []) conn"
    using Nil(1) by (simp only: same append_Nil2)
  then show ?case by (intro exI [of _ f]) simp
next
  case (Cons t ts)
  show ?case
  proof (cases t)
    case (Client_Message k m)
    have s: "cm_onmessage v cm m (length m) = Ok (cm\<lparr>m_sent := m_sent cm @ m\<rparr>)"
      using Cons.prems(2,3) by (simp add: cm_onmessage_def mem_read_def)
    obtain conn1 where c: "wsconn_read_cb e (text_input k m) conn = Ok (Live conn1)"
      "receiving v lim mlim cap (cm\<lparr>m_sent := m_sent cm @ m\<rparr>) out conn1"
      using client_step [OF Cons.prems(1) e _ _ _ s, of k] Cons.prems(2,7) Client_Message by auto
    show ?thesis
      using Cons.IH [OF c(2), of f cs db] Cons.prems Client_Message c(1) by simp
  next
    case (Server_Read chunks)
    then have g: "stream_good (v_framer v) (after_read cs chunks)" using Cons.prems(8) by simp
    obtain f1 db1 conn1 where c: "cm_readcb v chunks db conn = Ok (db1, conn1)" "length db1 = DATA_BUFFER_SIZE"
      "framer_idle (v_framer v) (after_read cs chunks) f1"
      "receiving v lim mlim cap (cm\<lparr>m_framer := Some f1\<rparr>) (out @ reads_output (v_framer v) cs [chunks]) conn1"
      using server_step [OF Cons.prems(1,4,5,3) g Cons.prems(6)] by blast
    show ?thesis
      using Cons.IH [OF c(4), of f1 "after_read cs chunks" db1] Cons.prems Server_Read c(1-3) by simp
  qed
qed

section \<open>The steps of a session\<close>

lemma handshake_receiving:
  assumes inv: "proxy_conn v lim mlim cap conn" and e: "env_ok e" and st: "c_ws_state conn = WS_ST_START"
    and ls: "lines_safe (absq (c_req conn)) (map line_text (i_lines inp))" and len: "length (i_data inp) < 2 ^ 62"
    and rq: "request_end (absq (c_req conn)) (map line_text (i_lines inp)) = Some a" "\<not> q_error a"
    and ok: "averdict (e_fnm e) (c_conf conn) a = V_101"
    and w: "absw (c_wsmsg conn) = amsg_init" and cm: "c_custom_ctx conn = CM_Live cm"
  shows "\<exists>conn'. wsconn_read_cb e inp conn = Ok (Live conn')
     \<and> receiving v lim mlim cap cm (c_output conn @ map byte_of_char (answer (e_sha1 e) a V_101)) conn'"
proof -
  obtain h where r: "wsconn_read_cb e inp conn = Ok (Live (conn\<lparr>c_req := h,
      c_output := c_output conn @ map byte_of_char (answer (e_sha1 e) a V_101),
      c_ws_state := WS_ST_RECEIVING, c_fl_cm_closed := False\<rparr>))" (is "_ = Ok (Live ?c)")
    using read_handshake [OF inv e st ls rq refl] ok by (auto simp: Let_def)
  have "input_ok conn inp" using ls len by (simp add: input_ok_def)
  from cm.read_cb_ok [OF inv e this] have "proxy_conn v lim mlim cap ?c" unfolding r by simp
  moreover have "amsg_init\<lparr>a_opcode := a_opcode amsg_init\<rparr> = amsg_init" by simp
  ultimately show ?thesis using r w cm by (auto simp: receiving_def intro: exI [of _ "a_opcode amsg_init"])
qed

lemma traffic_connecting:
  assumes e: "env_ok e" and v: "cenv_ok v" "v_bev v" "v_dns v"
    and r: "receiving v lim mlim cap cm out conn" "cm_reading [] cm"
    and fit: "\<forall>t \<in> set (message_traffic kms @ [Client_Message k m]). traffic_fits lim mlim t"
    and x: "snd (xml_run (v_stream v) [] (map text_of (map snd kms @ [m])))"
      "server_of (fst (xml_run (v_stream v) [] (map text_of (map snd kms)))) = None"
      "server_of (fst (xml_run (v_stream v) [] (map text_of (map snd kms @ [m])))) = Some s"
    and len: "length (concat (map snd kms @ [m])) + 1024 \<le> PTRDIFF_MAX"
  shows "\<exists>conn' cm'. run_traffic e v (message_traffic kms @ [Client_Message k m]) db conn = Ok (db, Live conn')
     \<and> receiving v lim mlim cap cm' out conn' \<and> cm_connecting (map snd kms @ [m]) s cm'"
proof -
  obtain evs where p: "snd (xml_run (v_stream v) [] (map text_of (map snd kms)))" "server_of evs = Some s"
    "x_parse (v_stream v) (map (map byte_of_char \<circ> text_of) (map snd kms)) (map byte_of_char (text_of m)) = (evs, True)"
    using x by (auto simp: xml_run_snoc server_of_append o_assoc split: prod.splits option.splits)
  have fits: "\<forall>t \<in> set (message_traffic kms). traffic_fits lim mlim t" "length k = 4" "fits_limits lim mlim m"
    using fit by auto
  obtain cm1 conn1 where c: "run_traffic e v (message_traffic kms) db conn = Ok (db, Live conn1)"
    "receiving v lim mlim cap cm1 out conn1" "cm_reading (map snd kms) cm1"
    using traffic_reading [OF e v r fits(1) p(1) x(2), of db] len by auto
  obtain cm2 where m: "cm_onmessage v cm1 m (length m) = Ok cm2" "cm_connecting (map snd kms @ [m]) s cm2"
    using cm_start_message [OF v c(3) p(3) len] p(2) by auto
  obtain conn2 where "wsconn_read_cb e (text_input k m) conn1 = Ok (Live conn2)" "receiving v lim mlim cap cm2 out conn2"
    using client_step [OF c(2) e fits(2,3) cm_reading_buffer [OF c(3) len] m(1)] by blast
  then show ?thesis using c(1) m(2) by (auto simp: run_traffic_append)
qed

lemma traffic_connected:
  assumes e: "env_ok e" and r: "receiving v lim mlim cap cm out conn" and cm: "cm_connecting ms s cm"
  shows "\<exists>conn' cm'. cm_eventcb e [BEV_EVENT_CONNECTED] conn = Ok (Live conn') \<and> receiving v lim mlim cap cm' out conn'
     \<and> m_state cm' = CMS_FORWARD \<and> m_bev cm' \<and> m_sent cm' = concat ms \<and> m_connects cm' = [(s, XMPP_PORT)]"
proof -
  have c: "proxy_conn v lim mlim cap conn" "c_custom_ctx conn = CM_Live cm" using r by (auto simp: receiving_def)
  have bev: "server_bev conn" "m_bev cm" "m_connects cm = [(s, XMPP_PORT)]" using c(2) cm by (simp_all add: server_bev_def cm_connecting_def)
  obtain b where rd: "cm_eventcb e [BEV_EVENT_CONNECTED] conn = Ok (Live (conn\<lparr>c_custom_ctx
      := CM_Live (cm\<lparr>m_sent := concat ms, m_buffer := Some b, m_state := CMS_FORWARD\<rparr>)\<rparr>))" (is "_ = Ok (Live ?c)")
    using cm_connected_event [OF cm c(2)] by blast
  have "proxy_conn v lim mlim cap ?c" using cm_eventcb_ok [OF c(1) e bev(1), of "[BEV_EVENT_CONNECTED]"] unfolding rd by simp
  then show ?thesis using rd r bev by (auto simp: receiving_def)
qed

section \<open>A session\<close>

text \<open>A session from end to end. A client connects, its request is accepted, its messages up to the one that
  names the XMPP server arrive, the connection to that server comes up, and from then on messages of the client
  and reads from the server come in any order. Then exactly one connection was asked for, to the server the
  client named; the server has been sent every message of the client, byte for byte and in order; and the client
  has been sent the answer to its request and behind it, as one text frame each and in order, the opening tag,
  the stanzas and the closing tag of every stream of the server, however the streams were cut into reads.\<close>

theorem session_end_to_end:
  assumes "env_ok e" and "cenv_ok v" and "v_bev v" and "v_dns v"
    and "cf_max_frame_size conf = int lim" "14 \<le> lim" "lim \<le> 114"
    and "cf_max_message_size conf = int mlim" "0 < mlim" "int mlim \<le> INT_MAX"
    and "length db = DATA_BUFFER_SIZE"
    and "lines_safe areq_init (map line_text (i_lines hs))" and "length (i_data hs) < 2 ^ 62"
    and "request_end areq_init (map line_text (i_lines hs)) = Some a" and "\<not> q_error a" and "averdict (e_fnm e) conf a = V_101"
    and "\<forall>t \<in> set (message_traffic kms @ Client_Message k m # ts). traffic_fits lim mlim t"
    and "snd (xml_run (v_stream v) [] (map text_of (map snd kms @ [m])))"
    and "server_of (fst (xml_run (v_stream v) [] (map text_of (map snd kms)))) = None"
    and "server_of (fst (xml_run (v_stream v) [] (map text_of (map snd kms @ [m])))) = Some s"
    and "length (concat (map snd kms @ [m])) + 1024 \<le> PTRDIFF_MAX"
    and "\<forall>(reads, st) \<in> set streams. stream_reads (v_framer v) reads st"
    and "server_part ts = concat (map fst streams)"
  shows "\<exists>conn0 conn1 conn2 conn3 conn4 db' cm.
       ws_accept_conn_cb e True peer (main_server v conf ws) = Ok (Some conn0)
     \<and> wsconn_read_cb e hs conn0 = Ok (Live conn1)
     \<and> run_traffic e v (message_traffic kms @ [Client_Message k m]) db conn1 = Ok (db, Live conn2)
     \<and> cm_eventcb e [BEV_EVENT_CONNECTED] conn2 = Ok (Live conn3)
     \<and> run_traffic e v ts db conn3 = Ok (db', Live conn4)
     \<and> c_custom_ctx conn4 = CM_Live cm \<and> m_connects cm = [(s, XMPP_PORT)]
     \<and> m_sent cm = concat (map snd kms @ [m] @ client_part ts)
     \<and> c_output conn4 = map byte_of_char (answer (e_sha1 e) a V_101) @ concat (map (\<lambda>(reads, st). stream_output reads st) streams)"
proof -
  let ?out = "map byte_of_char (answer (e_sha1 e) a V_101)"
  obtain conn0 cm0 where c0: "ws_accept_conn_cb e True peer (main_server v conf ws) = Ok (Some conn0)"
    "proxy_conn v lim mlim (init_cap lim) conn0" "c_ws_state conn0 = WS_ST_START" "c_conf conn0 = conf"
    "absq (c_req conn0) = areq_init" "absw (c_wsmsg conn0) = amsg_init" "c_output conn0 = []"
    "c_custom_ctx conn0 = CM_Live cm0" "cm_reading [] cm0"
    using new_connection [OF assms(1,2,5-10), of peer ws] by blast
  obtain conn1 where c1: "wsconn_read_cb e hs conn0 = Ok (Live conn1)" "receiving v lim mlim (init_cap lim) cm0 ?out conn1"
    using handshake_receiving [OF c0(2) assms(1) c0(3), of hs a cm0] c0(4-8) assms(12-16) by auto
  obtain conn2 cm2 where c2: "run_traffic e v (message_traffic kms @ [Client_Message k m]) db conn1 = Ok (db, Live conn2)"
    "receiving v lim mlim (init_cap lim) cm2 ?out conn2" "cm_connecting (map snd kms @ [m]) s cm2"
    using traffic_connecting [OF assms(1-4) c1(2) c0(9) _ assms(18-21), of k db] assms(17) by auto
  obtain conn3 cm3 where c3: "cm_eventcb e [BEV_EVENT_CONNECTED] conn2 = Ok (Live conn3)"
    "receiving v lim mlim (init_cap lim) cm3 ?out conn3" "m_state cm3 = CMS_FORWARD" "m_bev cm3"
    "m_sent cm3 = concat (map snd kms @ [m])" "m_connects cm3 = [(s, XMPP_PORT)]"
    using traffic_connected [OF assms(1) c2(2,3)] by blast
  obtain f cs where f: "m_framer cm3 = Some f" "framer_idle (v_framer v) cs f"
    using c3(2) by (auto simp: receiving_def conn_inv_def phase_ok_def cm_opened_def cm_parts_def)
  note st = reads_of_streams [OF assms(22), of cs]
  obtain f' db' conn4 where "run_traffic e v ts db conn3 = Ok (db', Live conn4)"
    "receiving v lim mlim (init_cap lim) (cm3\<lparr>m_sent := m_sent cm3 @ concat (client_part ts), m_framer := Some f'\<rparr>)
       (?out @ reads_output (v_framer v) cs (server_part ts)) conn4"
    using traffic_forwarding [OF assms(1) c3(2,3,4) f assms(11), of ts] assms(17,23) st(1) by auto
  then show ?thesis
    using c0(1) c1(1) c2(1) c3(1,5,6) st(2) assms(23) by (auto simp: receiving_def)
qed

section \<open>A concrete session\<close>

text \<open>The client names its server in two messages, then sends two more while the stream of the server arrives.\<close>

definition sample_key :: "byte list" where
  "sample_key = [1, 2, 3, 4]"

definition sample_opening :: "(byte list \<times> byte list) list" where
  "sample_opening = [(sample_key, map byte_of_char ''<stream:'')]"

definition sample_reads :: "byte list list list" where
  "sample_reads = map (\<lambda>c. [c]) server_chunks"

definition sample_traffic :: "traffic list" where
  "sample_traffic = [Client_Message sample_key (map byte_of_char ''<a/>''), Server_Read (sample_reads ! 0),
     Client_Message sample_key (map byte_of_char ''<b/>''), Server_Read (sample_reads ! 1)]"

lemma sample_stream_reads: "stream_reads server_expat sample_reads server_stream"
proof -
  have "concat sample_reads = server_chunks" by (simp add: sample_reads_def server_chunks_def)
  moreover have "case sample_reads of [] \<Rightarrow> False
      | r # rs \<Rightarrow> r \<noteq> [] \<and> stream_start (hd r) \<and> (\<forall>r' \<in> set rs. r' = [] \<or> \<not> stream_start (hd r'))"
    by code_simp
  ultimately show ?thesis
    using server_chunks_good server_expat_accepts by (simp add: stream_reads_def INT_MAX_def)
qed

lemma sample_traffic_fits:
  "\<forall>t \<in> set (message_traffic sample_opening @ Client_Message sample_key (map byte_of_char ''stream to='') # sample_traffic).
     traffic_fits 100 1000 t"
  by (simp add: message_traffic_def sample_opening_def sample_traffic_def sample_key_def fits_limits_def)

lemma sample_names_server:
  "snd (xml_run to_expat [] (map text_of (map snd sample_opening @ [map byte_of_char ''stream to=''])))"
  "server_of (fst (xml_run to_expat [] (map text_of (map snd sample_opening)))) = None"
  "server_of (fst (xml_run to_expat [] (map text_of (map snd sample_opening @ [map byte_of_char ''stream to=''])))) = Some ''example.com''"
  by code_simp+

lemma sample_parsers:
  "v_stream sample_cenv = to_expat" "v_framer sample_cenv = server_expat" "v_bev sample_cenv" "v_dns sample_cenv"
  by (simp_all add: sample_cenv_def)

lemma sample_sizes:
  "length (i_data sample_handshake) < 2 ^ 62"
  "length (concat (map snd sample_opening @ [map byte_of_char ''stream to=''])) + 1024 \<le> PTRDIFF_MAX"
  by (simp_all add: sample_handshake_def sample_opening_def PTRDIFF_MAX_def)

lemma sample_streams:
  "\<forall>(reads, st) \<in> set [(sample_reads, server_stream)]. stream_reads (v_framer sample_cenv) reads st"
  "server_part sample_traffic = concat (map fst [(sample_reads, server_stream)])"
  using sample_stream_reads sample_parsers(2) by (simp_all add: sample_traffic_def sample_reads_def server_chunks_def)

lemma sample_sent:
  "concat (map snd sample_opening @ [map byte_of_char ''stream to=''] @ client_part sample_traffic)
     = map byte_of_char ''<stream:stream to=<a/><b/>''"
  by (simp add: sample_opening_def sample_traffic_def)

lemma sample_output:
  "stream_output sample_reads server_stream
     = concat (map (\<lambda>t. ws_frame True OPCODE_TEXT None (map byte_of_char t)) [''<stream:stream>'', ''<a/>'', ''</stream:stream>''])"
  by (simp add: stream_output_def sample_reads_def server_chunks_def server_stream_def stream_frames_def piece_def)

theorem sample_session:
  "\<forall>ws. \<exists>conn0 conn1 conn2 conn3 conn4 db' cm.
       ws_accept_conn_cb sample_env True sample_peer (main_server sample_cenv limited_conf ws) = Ok (Some conn0)
     \<and> wsconn_read_cb sample_env sample_handshake conn0 = Ok (Live conn1)
     \<and> run_traffic sample_env sample_cenv (message_traffic sample_opening
         @ [Client_Message sample_key (map byte_of_char ''stream to='')]) (replicate 65536 0) conn1 = Ok (replicate 65536 0, Live conn2)
     \<and> cm_eventcb sample_env [BEV_EVENT_CONNECTED] conn2 = Ok (Live conn3)
     \<and> run_traffic sample_env sample_cenv sample_traffic (replicate 65536 0) conn3 = Ok (db', Live conn4)
     \<and> c_custom_ctx conn4 = CM_Live cm \<and> m_connects cm = [(''example.com'', XMPP_PORT)]
     \<and> m_sent cm = map byte_of_char ''<stream:stream to=<a/><b/>''
     \<and> c_output conn4 = map byte_of_char (answer (e_sha1 sample_env) (aadd_lines sample_request areq_init) V_101)
         @ concat (map (\<lambda>t. ws_frame True OPCODE_TEXT None (map byte_of_char t)) [''<stream:stream>'', ''<a/>'', ''</stream:stream>''])"
proof
  fix ws
  note v = sample_parsers and names = sample_names_server [folded sample_parsers(1)]
  from session_end_to_end [OF sample_setup(1,2) v(3,4) sample_setup(3-8) data_buffer_length sample_handshake_read(1) sample_sizes(1)
      sample_handshake_read(2-4) sample_traffic_fits names sample_sizes(2) sample_streams, of sample_peer ws]
  show "\<exists>conn0 conn1 conn2 conn3 conn4 db' cm.
       ws_accept_conn_cb sample_env True sample_peer (main_server sample_cenv limited_conf ws) = Ok (Some conn0)
     \<and> wsconn_read_cb sample_env sample_handshake conn0 = Ok (Live conn1)
     \<and> run_traffic sample_env sample_cenv (message_traffic sample_opening
         @ [Client_Message sample_key (map byte_of_char ''stream to='')]) (replicate 65536 0) conn1 = Ok (replicate 65536 0, Live conn2)
     \<and> cm_eventcb sample_env [BEV_EVENT_CONNECTED] conn2 = Ok (Live conn3)
     \<and> run_traffic sample_env sample_cenv sample_traffic (replicate 65536 0) conn3 = Ok (db', Live conn4)
     \<and> c_custom_ctx conn4 = CM_Live cm \<and> m_connects cm = [(''example.com'', XMPP_PORT)]
     \<and> m_sent cm = map byte_of_char ''<stream:stream to=<a/><b/>''
     \<and> c_output conn4 = map byte_of_char (answer (e_sha1 sample_env) (aadd_lines sample_request areq_init) V_101)
         @ concat (map (\<lambda>t. ws_frame True OPCODE_TEXT None (map byte_of_char t)) [''<stream:stream>'', ''<a/>'', ''</stream:stream>''])"
    unfolding sample_sent using sample_output by simp
qed

end
