(* ===== verification/Unwinding.thy ===== *)
theory Unwinding
  imports Jab_Prelude
begin

text \<open>
  Runs of a system whose actions each belong to one part. When an action of one part is invisible to the
  others, and what it does to its own part depends on that part only, then the parts do not interfere: each
  sees a run as if it were alone.
\<close>

section \<open>Runs\<close>

fun run_steps :: "('a \<Rightarrow> 's \<Rightarrow> 's cres) \<Rightarrow> 'a list \<Rightarrow> 's \<Rightarrow> 's cres" where
  "run_steps step [] s = Ok s"
| "run_steps step (a # as) s = bindr (step a s) (run_steps step as)"

lemma run_steps_append: "run_steps step (as @ bs) s = bindr (run_steps step as s) (run_steps step bs)"
  by (induction as arbitrary: s) (auto intro: bindr_cong)

lemma run_steps_append_Ok:
  "run_steps step (as @ bs) s = Ok u \<longleftrightarrow> (\<exists>t. run_steps step as s = Ok t \<and> run_steps step bs t = Ok u)"
  by (simp add: run_steps_append bindr_eq_Ok)

text \<open>The actions of one part.\<close>

definition own :: "('a \<Rightarrow> 'd) \<Rightarrow> 'd \<Rightarrow> 'a list \<Rightarrow> 'a list" where
  "own part d as = filter (\<lambda>a. part a = d) as"

lemma own_simps [simp]:
  "own part d [] = []" "own part d (a # as) = (if part a = d then a # own part d as else own part d as)"
  "own part d (as @ bs) = own part d as @ own part d bs"
  by (simp_all add: own_def)

lemma own_own: "own part d (own part d as) = own part d as"
  by (simp add: own_def)

section \<open>Computations that agree\<close>

lemma rel_bindr:
  "rel_cres R r q \<Longrightarrow> (\<And>x y. R x y \<Longrightarrow> rel_cres S (f x) (g y)) \<Longrightarrow> rel_cres S (bindr r f) (bindr q g)"
  by (cases rule: cres.rel_cases [of R r q]) auto

lemma rel_bindr_same: "(\<And>x. rel_cres S (f x) (g x)) \<Longrightarrow> rel_cres S (bindr r f) (bindr r g)"
  by (cases r) auto

lemma rel_cres_Ok: "rel_cres R (Ok x) q \<longleftrightarrow> (\<exists>y. q = Ok y \<and> R x y)" "rel_cres R r (Ok y) \<longleftrightarrow> (\<exists>x. r = Ok x \<and> R x y)"
  by (cases q; simp) (cases r; simp)

section \<open>Parts that do not interfere\<close>

locale unwinding =
  fixes step :: "'a \<Rightarrow> 's \<Rightarrow> 's cres" and part :: "'a \<Rightarrow> 'd" and sim :: "'d \<Rightarrow> 's \<Rightarrow> 's \<Rightarrow> bool"
  assumes sim_sym: "sim d s t \<Longrightarrow> sim d t s"
    and sim_trans: "sim d s t \<Longrightarrow> sim d t u \<Longrightarrow> sim d s u"
    and invisible: "step a s = Ok s' \<Longrightarrow> part a \<noteq> d \<Longrightarrow> sim d s s \<Longrightarrow> sim d s' s"
    and consistent: "sim (part a) s t \<Longrightarrow> rel_cres (sim (part a)) (step a s) (step a t)"
begin

lemma alone:
  "run_steps step as s = Ok s' \<Longrightarrow> sim d s t \<Longrightarrow> \<exists>t'. run_steps step (own part d as) t = Ok t' \<and> sim d s' t'"
proof (induction as arbitrary: s t)
  case (Cons a as)
  then obtain s1 where s1: "step a s = Ok s1" "run_steps step as s1 = Ok s'" by (auto simp: bindr_eq_Ok)
  show ?case
  proof (cases "part a = d")
    case True
    then obtain t1 where "step a t = Ok t1" "sim d s1 t1"
      using consistent [of a s t] Cons.prems(2) s1(1) by (auto simp: rel_cres_Ok)
    then show ?thesis using Cons.IH [OF s1(2)] True by simp
  next
    case False
    then have "sim d s1 t"
      using invisible [OF s1(1)] sim_trans [of d s t s] sim_trans [of d s1 s t] sim_sym Cons.prems(2) by blast
    then show ?thesis using Cons.IH [OF s1(2)] False by simp
  qed
qed simp

lemma together:
  assumes "\<And>d. sim d s s" and "\<And>d. \<exists>t. run_steps step (own part d as) s = Ok t"
  shows "\<exists>s'. run_steps step as s = Ok s'"
  using assms(2)
proof (induction as rule: rev_induct)
  case (snoc a as)
  have "\<exists>t. run_steps step (own part d as) s = Ok t" for d
    using snoc.prems [of d] by (auto simp: run_steps_append_Ok)
  then obtain s1 where s1: "run_steps step as s = Ok s1" using snoc.IH by blast
  then obtain t1 where t1: "run_steps step (own part (part a) as) s = Ok t1" "sim (part a) s1 t1"
    using alone [OF _ assms(1)] by blast
  obtain t where "step a t1 = Ok t" using snoc.prems [of "part a"] t1(1) by (auto simp: run_steps_append_Ok bindr_eq_Ok)
  then show ?case using consistent [OF t1(2)] s1 by (auto simp: rel_cres_Ok run_steps_append)
qed simp

end

end
