(* ===== verification/Server.thy ===== *)
theory Server
  imports Session Unwinding
begin

text \<open>
  The event loop of the server: libevent calls the callback of the listener and those of the connections, one at
  a time and in any order. The connections live side by side, each under the number of its socket. They share
  one thing, the static array \<open>data_buffer\<close> of \<open>cm_readcb\<close>, in which every frame from an XMPP server is put
  before it is written to the client.
\<close>

section \<open>The event loop\<close>

text \<open>What libevent may call for a connection, and for the server.\<close>

datatype conn_ev =
    Client_Input input
  | Client_Event "bev_event list"
  | Client_Drained nat
  | Xmpp_Event "bev_event list"
  | Xmpp_Input "byte list list"

datatype server_ev = Accept nat bool "bool \<times> string \<times> string" | Callback nat conn_ev

record server_st =
  sv_buffer :: "byte list"
  sv_conns :: "nat \<rightharpoonup> cm_ctx conn"

fun conn_callback :: "env \<Rightarrow> cenv \<Rightarrow> conn_ev \<Rightarrow> byte list \<Rightarrow> cm_ctx wsconn_t \<Rightarrow> (byte list \<times> cm_ctx conn) cres" where
  "conn_callback e v (Client_Input inp) db conn = bindr (wsconn_read_cb e inp conn) (\<lambda>r. Ok (db, r))"
| "conn_callback e v (Client_Event events) db conn = bindr (wsconn_event_cb e events conn) (\<lambda>r. Ok (db, r))"
| "conn_callback e v (Client_Drained len) db conn = bindr (wsconn_write_cb e len conn) (\<lambda>r. Ok (db, r))"
| "conn_callback e v (Xmpp_Event events) db conn = bindr (cm_eventcb e events conn) (\<lambda>r. Ok (db, r))"
| "conn_callback e v (Xmpp_Input chunks) db conn = bindr (cm_readcb v chunks db conn) (\<lambda>(db', c). Ok (db', Live c))"

text \<open>One round of the loop. A callback of a connection that does not exist any more would be a use after free.\<close>

fun dispatch :: "env \<Rightarrow> cenv \<Rightarrow> cm_ctx wsserver_t \<Rightarrow> server_ev \<Rightarrow> server_st \<Rightarrow> server_st cres" where
  "dispatch e v ws (Accept i bev peer) s =
     bindr (ws_accept_conn_cb e bev peer ws) (\<lambda>r.
     case r of None \<Rightarrow> Ok s | Some conn \<Rightarrow> Ok (s\<lparr>sv_conns := (sv_conns s)(i \<mapsto> Live conn)\<rparr>))"
| "dispatch e v ws (Callback i ev) s =
     (case sv_conns s i of
        Some (Live conn) \<Rightarrow>
          bindr (conn_callback e v ev (sv_buffer s) conn) (\<lambda>(db, c).
          Ok (s\<lparr>sv_buffer := db, sv_conns := (sv_conns s)(i \<mapsto> c)\<rparr>))
      | _ \<Rightarrow> Fault Use_After_Free)"

definition event_loop :: "env \<Rightarrow> cenv \<Rightarrow> cm_ctx wsserver_t \<Rightarrow> server_ev list \<Rightarrow> server_st \<Rightarrow> server_st cres" where
  "event_loop e v ws evs s = run_steps (dispatch e v ws) evs s"

definition server_start :: "byte list \<Rightarrow> server_st" where
  "server_start db = \<lparr>sv_buffer = db, sv_conns = Map.empty\<rparr>"

fun ev_conn :: "server_ev \<Rightarrow> nat" where
  "ev_conn (Accept i bev peer) = i"
| "ev_conn (Callback i ev) = i"

section \<open>What a connection sees of the shared array\<close>

definition same_room :: "data_t \<Rightarrow> data_t \<Rightarrow> bool" where
  "same_room d d' \<longleftrightarrow> length (d_buffer d) = length (d_buffer d') \<and> d_capacity d = d_capacity d'"

lemma data_copy_loop_rel:
  assumes "length m = length m'" and "take i m = take i m'"
  shows "rel_cres (\<lambda>a b. length a = length m \<and> length b = length m \<and> take (i + k) a = take (i + k) b)
     (data_copy_loop m src i k) (data_copy_loop m' src i k)"
  using assms
proof (induction k arbitrary: m m' i)
  case (Suc k)
  have "take (Suc i) (m[i := x]) = take (Suc i) (m'[i := x])" if "i < length m" for x
    using that Suc.prems by (simp add: take_Suc_conv_app_nth)
  then have step: "rel_cres (\<lambda>a b. length a = length m \<and> length b = length m \<and> take (Suc i + k) a = take (Suc i + k) b)
      (data_copy_loop (m[i := x]) src (Suc i) k) (data_copy_loop (m'[i := x]) src (Suc i) k)" if "i < length m" for x
    using that Suc.IH [of "m[i := x]" "m'[i := x]" "Suc i"] Suc.prems(1) by simp
  show ?case using step Suc.prems(1) by (simp add: mem_get_def mem_set_def)
qed simp

lemma data_set_data_rel:
  assumes "same_room d d'"
  shows "rel_cres (\<lambda>a b. same_room a b \<and> length (d_buffer a) = length (d_buffer d)
       \<and> d_length a = d_length b \<and> d_length a \<le> d_capacity d \<and> d_capacity a = d_capacity d \<and> take (d_length a) (d_buffer a) = take (d_length b) (d_buffer b))
     (data_set_data d src n) (data_set_data d' src n)"
proof -
  have len: "length (d_buffer d) = length (d_buffer d')" and cap: "d_capacity d' = d_capacity d"
    using assms by (auto simp: same_room_def)
  show ?thesis
    unfolding data_set_data_def Let_def cap
    by (rule rel_bindr [OF data_copy_loop_rel [OF len]]) (use len cap in \<open>auto simp: same_room_def\<close>)
qed

text \<open>A frame is written to the client from the part of the array that holds it.\<close>

lemma buffer_append_length:
  assumes "b_max_length b = 0" and "b_length b + n + 1024 < SIZE_MOD" and "buffer_append al b src n = Ok (True, b')"
  shows "b_length b' = b_length b + n" and "b_max_length b' = 0"
  using assms
  by (auto simp: buffer_append_def buffer_resize_def buffer_put_def size_add_exact Let_def bindr_eq_Ok split: if_split_asm)

lemma wsconn_write_source:
  assumes "take n src = take n src'" and "length src = length src'" and "n \<le> DATA_BUFFER_SIZE"
  shows "wsconn_write al conn src n = wsconn_write al conn src' n"
proof -
  have small: "n \<le> 65536" using assms(3) by (simp add: DATA_BUFFER_SIZE_def)
  have lb: "snd (length_block n) \<le> 9" by (simp add: length_block_def)
  have append: "buffer_append al b2 src n = buffer_append al b2 src' n"
    if b: "buffer_create al 0 = Some b0" "buffer_append al b0 xs 1 = Ok (True, b1)"
       "buffer_append al b1 (fst (length_block n)) (snd (length_block n)) = Ok (True, b2)" for b0 b1 b2 xs
  proof -
    have b0: "b_length b0 = 0" "b_max_length b0 = 0" using b(1) by (auto simp: buffer_create_def split: if_split_asm)
    have b1: "b_length b1 = 1" "b_max_length b1 = 0"
      using buffer_append_length [OF _ _ b(2)] b0 by (simp_all add: SIZE_MOD_def)
    have b2: "b_length b2 \<le> 10" "b_max_length b2 = 0"
      using buffer_append_length [OF _ _ b(3)] b1 lb by (simp_all add: SIZE_MOD_def)
    show ?thesis
    proof (cases "n \<le> length src")
      case True
      then show ?thesis
        using buffer_append_source [of b2 n src "take n src"] buffer_append_source [of b2 n src' "take n src"] b2 small assms(1,2)
        by (simp add: SIZE_MOD_def)
    next
      case False
      then have "src = src'" using assms(1,2) by simp
      then show ?thesis by simp
    qed
  qed
  show ?thesis
    unfolding wsconn_write_def wsconn_write_frame_def
    by (auto simp: append intro!: bindr_cong split: option.split)
qed

lemma framer_get_frame2_rel:
  assumes "same_room d d'"
  shows "rel_cres (\<lambda>(a, n, f1) (b, n', f2). n = n' \<and> f1 = f2 \<and> same_room a b \<and> length (d_buffer a) = length (d_buffer d)
       \<and> d_length a = d_length b \<and> d_length a \<le> d_capacity d \<and> d_capacity a = d_capacity d
       \<and> take (d_length a) (d_buffer a) = take (d_length b) (d_buffer b))
     (framer_get_frame2 f d) (framer_get_frame2 f d')"
proof (cases "f_frames f \<noteq> [] \<and> f_buffer f \<noteq> None \<and> \<not> f_list_freed f")
  case True
  then obtain fr frs b where f: "f_frames f = fr # frs" "f_buffer f = Some b" "\<not> f_list_freed f"
    by (auto simp: neq_Nil_conv)
  show ?thesis
    unfolding framer_get_frame2_def f buffer_get_data2_def
    by (auto intro!: rel_bindr_same rel_bindr [OF data_set_data_rel [OF assms]] simp: f(3) Let_def)
next
  case False
  then show ?thesis by (auto simp: framer_get_frame2_def split: list.split option.split)
qed

lemma forward_frames_rel:
  fixes conn :: "'c wsconn_t"
  assumes "same_room d d'" and "d_capacity d \<le> DATA_BUFFER_SIZE"
  shows "rel_cres (\<lambda>(f1, a, c) (f2, b, c'). f1 = f2 \<and> c = c' \<and> same_room a b \<and> length (d_buffer a) = length (d_buffer d))
     (forward_frames al f d conn) (forward_frames al f d' conn)"
  using assms
proof (induction "length (f_frames f)" arbitrary: f d d' conn rule: less_induct)
  case less
  show ?case
  proof (cases "framer_has_frame f")
    case True
    note rel = framer_get_frame2_rel [OF less.prems(1), of f]
    show ?thesis
    proof (cases "framer_get_frame2 f d")
      case (Ok r)
      then obtain a n f' where r: "framer_get_frame2 f d = Ok (a, n, f')" by (metis prod_cases3)
      then obtain b where b: "framer_get_frame2 f d' = Ok (b, n, f')" "same_room a b" "length (d_buffer a) = length (d_buffer d)"
        "d_length a = d_length b" "d_length a \<le> d_capacity d" "d_capacity a = d_capacity d"
        "take (d_length a) (d_buffer a) = take (d_length b) (d_buffer b)"
        using rel by (auto simp: rel_cres_Ok)
      have shorter: "length (f_frames f') < length (f_frames f)" using framer_get_frame2_shrinks [OF r] .
      have "wsconn_write al conn (d_buffer a) (d_length a) = wsconn_write al conn (d_buffer b) (d_length b)"
        using wsconn_write_source [of "d_length a" "d_buffer a" "d_buffer b"] b less.prems(2) by (simp add: same_room_def)
      moreover have "rel_cres (\<lambda>(f1, a, c) (f2, b, c'). f1 = f2 \<and> c = c' \<and> same_room a b \<and> length (d_buffer a) = length (d_buffer d))
          (forward_frames al f' a conn') (forward_frames al f' b conn')" for conn' :: "'c wsconn_t"
        using less.hyps [OF shorter b(2), of conn'] b less.prems(2) by simp
      ultimately show ?thesis
        using True r b(1)
        by (simp add: forward_frames.simps [of al f] data_get_buffer_def data_get_length_def)
          (rule rel_bindr_same)
    next
      case (Fault x)
      then have "framer_get_frame2 f d' = Fault x" using rel by (cases "framer_get_frame2 f d'") auto
      then show ?thesis using Fault True by (simp add: forward_frames.simps [of al f])
    qed
  next
    case False
    then show ?thesis using less.prems by (simp add: forward_frames.simps [of al f])
  qed
qed

lemma cm_readcb_rel:
  assumes "length db = length db'"
  shows "rel_cres (\<lambda>(a, c) (b, c'). c = c' \<and> length a = length db \<and> length b = length db)
     (cm_readcb v chunks db conn) (cm_readcb v chunks db' conn)"
proof (cases "c_custom_ctx conn")
  case (CM_Live cm)
  show ?thesis
  proof (cases "m_framer cm")
    case (Some f)
    have room: "same_room (data_init db DATA_BUFFER_SIZE) (data_init db' DATA_BUFFER_SIZE)"
      "d_capacity (data_init db DATA_BUFFER_SIZE) \<le> DATA_BUFFER_SIZE"
      using assms by (simp_all add: same_room_def data_init_def)
    have fwd: "rel_cres (\<lambda>(a, c) (b, c'). c = c' \<and> length a = length db \<and> length b = length db)
       (bindr (forward_frames (v_al v) f1 (data_init db DATA_BUFFER_SIZE) conn) (\<lambda>(f2, d, conn').
          Ok (data_get_buffer d, conn'\<lparr>c_custom_ctx := CM_Live (cm\<lparr>m_framer := Some f2\<rparr>)\<rparr>)))
       (bindr (forward_frames (v_al v) f1 (data_init db' DATA_BUFFER_SIZE) conn) (\<lambda>(f2, d, conn').
          Ok (data_get_buffer d, conn'\<lparr>c_custom_ctx := CM_Live (cm\<lparr>m_framer := Some f2\<rparr>)\<rparr>)))" for f1
      by (rule rel_bindr [OF forward_frames_rel [OF room]]) (auto simp: same_room_def data_get_buffer_def data_init_def)
    show ?thesis
      using CM_Live Some assms fwd unfolding cm_readcb_def
      by (auto intro!: rel_bindr_same)
  qed (use CM_Live in \<open>simp add: cm_readcb_def\<close>)
qed (simp add: cm_readcb_def)

lemma conn_callback_rel:
  assumes "length db = length db'"
  shows "rel_cres (\<lambda>(a, c) (b, c'). c = c' \<and> length a = length db \<and> length b = length db)
     (conn_callback e v ev db conn) (conn_callback e v ev db' conn)"
proof (cases ev)
  case (Xmpp_Input chunks)
  then show ?thesis by simp (rule rel_bindr [OF cm_readcb_rel [OF assms]], auto)
qed (use assms in \<open>auto intro!: rel_bindr_same\<close>)

section \<open>Connections do not interfere\<close>

definition same_conn :: "nat \<Rightarrow> server_st \<Rightarrow> server_st \<Rightarrow> bool" where
  "same_conn i s t \<longleftrightarrow> sv_conns s i = sv_conns t i \<and> length (sv_buffer s) = length (sv_buffer t)"

lemma dispatch_others:
  assumes "dispatch e v ws ev s = Ok s'"
  shows "length (sv_buffer s') = length (sv_buffer s)" and "i \<noteq> ev_conn ev \<Longrightarrow> sv_conns s' i = sv_conns s i"
proof -
  have "length (sv_buffer s') = length (sv_buffer s) \<and> (i \<noteq> ev_conn ev \<longrightarrow> sv_conns s' i = sv_conns s i)"
  proof (cases ev)
    case (Accept j bev peer)
    then show ?thesis using assms by (auto simp: bindr_eq_Ok split: option.split_asm)
  next
    case (Callback j ev')
    then obtain conn db c where c: "sv_conns s j = Some (Live conn)" "conn_callback e v ev' (sv_buffer s) conn = Ok (db, c)"
      "s' = s\<lparr>sv_buffer := db, sv_conns := (sv_conns s)(j \<mapsto> c)\<rparr>"
      using assms by (auto simp: bindr_eq_Ok split: option.split_asm conn.split_asm)
    moreover have "length db = length (sv_buffer s)"
      using conn_callback_rel [of "sv_buffer s" "sv_buffer s" e v ev' conn] c(2) by simp
    ultimately show ?thesis using Callback by simp
  qed
  then show "length (sv_buffer s') = length (sv_buffer s)" "i \<noteq> ev_conn ev \<Longrightarrow> sv_conns s' i = sv_conns s i" by auto
qed

lemma dispatch_consistent:
  assumes "same_conn (ev_conn ev) s t"
  shows "rel_cres (same_conn (ev_conn ev)) (dispatch e v ws ev s) (dispatch e v ws ev t)"
proof (cases ev)
  case (Accept j bev peer)
  then show ?thesis using assms
    by (auto intro!: rel_bindr_same simp: same_conn_def split: option.split)
next
  case (Callback j ev')
  have same: "sv_conns t j = sv_conns s j" "length (sv_buffer s) = length (sv_buffer t)"
    using assms Callback by (auto simp: same_conn_def)
  show ?thesis
  proof (cases "\<exists>conn. sv_conns s j = Some (Live conn)")
    case True
    then obtain conn where "sv_conns s j = Some (Live conn)" by blast
    then show ?thesis using Callback same
      by simp (rule rel_bindr [OF conn_callback_rel [OF same(2)]], auto simp: same_conn_def)
  next
    case False
    then show ?thesis using Callback same by (auto split: option.split conn.split)
  qed
qed

interpretation loop: unwinding "dispatch e v ws" ev_conn same_conn for e v ws
proof
  show "same_conn d s' s" if "dispatch e v ws a s = Ok s'" "ev_conn a \<noteq> d" for a d s s'
    using dispatch_others [OF that(1)] that(2) by (auto simp: same_conn_def)
  show "rel_cres (same_conn (ev_conn a)) (dispatch e v ws a s) (dispatch e v ws a t)" if "same_conn (ev_conn a) s t" for a s t
    using dispatch_consistent [OF that] .
qed (auto simp: same_conn_def)

text \<open>C3: connections are isolated: in any interleaving of the events of all connections, each ends in the state
  it would reach if the server had served it alone, whatever the array they share holds; and the server runs
  without a fault exactly when every connection alone does.\<close>

theorem connections_isolated:
  assumes "length db = length db'"
  shows "(\<forall>i s. event_loop e v ws evs (server_start db) = Ok s \<longrightarrow>
       (\<exists>t. event_loop e v ws (own ev_conn i evs) (server_start db') = Ok t \<and> sv_conns t i = sv_conns s i))
     \<and> (is_Ok (event_loop e v ws evs (server_start db)) \<longleftrightarrow>
       (\<forall>i. is_Ok (event_loop e v ws (own ev_conn i evs) (server_start db'))))"
proof -
  have start: "same_conn j (server_start db) (server_start db')" "same_conn j (server_start db') (server_start db)"
    "same_conn j (server_start db) (server_start db)" for j
    using assms by (simp_all add: same_conn_def server_start_def)
  have alone: "\<exists>t. event_loop e v ws (own ev_conn i evs) (server_start db') = Ok t \<and> sv_conns t i = sv_conns s i"
    if "event_loop e v ws evs (server_start db) = Ok s" for s i
    using loop.alone [OF that [unfolded event_loop_def] start(1), of i] by (auto simp: event_loop_def same_conn_def)
  have own: "\<exists>t. run_steps (dispatch e v ws) (own ev_conn i evs) (server_start db) = Ok t"
    if ok: "is_Ok (event_loop e v ws (own ev_conn i evs) (server_start db'))" for i
  proof -
    obtain t where "run_steps (dispatch e v ws) (own ev_conn i evs) (server_start db') = Ok t"
      using ok by (auto simp: event_loop_def is_Ok_def)
    from loop.alone [OF this start(2), of i] show ?thesis by (auto simp: own_own)
  qed
  show ?thesis
    using alone own loop.together [OF start(3), of e v ws evs] by (force simp: event_loop_def is_Ok_def)
qed

section \<open>A server that is never undefined\<close>

text \<open>What libevent may call in a state: a new connection gets the number of a free socket and a bufferevent,
  only a connection that is alive is called, and its XMPP side only while it has one.\<close>

fun conn_possible :: "cenv \<Rightarrow> cm_ctx wsconn_t \<Rightarrow> conn_ev \<Rightarrow> bool" where
  "conn_possible v conn (Client_Input inp) \<longleftrightarrow> input_ok conn inp"
| "conn_possible v conn (Client_Event events) \<longleftrightarrow> True"
| "conn_possible v conn (Client_Drained len) \<longleftrightarrow> True"
| "conn_possible v conn (Xmpp_Event events) \<longleftrightarrow> server_bev conn"
| "conn_possible v conn (Xmpp_Input chunks) \<longleftrightarrow> server_bev conn \<and> server_ok v conn chunks"

fun possible :: "cenv \<Rightarrow> server_st \<Rightarrow> server_ev \<Rightarrow> bool" where
  "possible v s (Accept i bev peer) \<longleftrightarrow> bev \<and> (case sv_conns s i of Some (Live conn) \<Rightarrow> False | _ \<Rightarrow> True)"
| "possible v s (Callback i ev) \<longleftrightarrow> (case sv_conns s i of Some (Live conn) \<Rightarrow> conn_possible v conn ev | _ \<Rightarrow> False)"

inductive server_reaches :: "env \<Rightarrow> cenv \<Rightarrow> cm_ctx wsserver_t \<Rightarrow> server_st \<Rightarrow> server_st \<Rightarrow> bool" for e v ws s0 where
  start: "server_reaches e v ws s0 s0"
| step: "server_reaches e v ws s0 s \<Longrightarrow> possible v s ev \<Longrightarrow> dispatch e v ws ev s = Ok s' \<Longrightarrow> server_reaches e v ws s0 s'"

definition server_inv :: "cenv \<Rightarrow> nat \<Rightarrow> nat \<Rightarrow> nat \<Rightarrow> server_st \<Rightarrow> bool" where
  "server_inv v lim mlim cap s \<longleftrightarrow> length (sv_buffer s) = DATA_BUFFER_SIZE
     \<and> (\<forall>i c. sv_conns s i = Some c \<longrightarrow> conn_post (proxy_conn v lim mlim cap) cm_gone c)"

lemma server_inv_start: "length db = DATA_BUFFER_SIZE \<Longrightarrow> server_inv v lim mlim cap (server_start db)"
  by (simp add: server_inv_def server_start_def)

lemma conn_possible_step: "conn_possible v conn ev \<Longrightarrow> proxy_step e v (db, conn) (conn_callback e v ev db conn)"
  by (cases ev) (auto intro: proxy_step.intros)

lemma dispatch_inv:
  assumes "server_inv v lim mlim (init_cap lim) s" and "possible v s ev" and e: "env_ok e" and v: "cenv_ok v"
    and lim: "cf_max_frame_size conf = int lim" "14 \<le> lim" "lim \<le> 114"
    and mlim: "cf_max_message_size conf = int mlim" "0 < mlim" "int mlim \<le> INT_MAX"
  shows "\<exists>s'. dispatch e v (main_server v conf ws) ev s = Ok s' \<and> server_inv v lim mlim (init_cap lim) s'"
proof (cases ev)
  case (Accept i bev peer)
  then show ?thesis
    using new_connection [OF e v lim mlim, of peer ws] assms(1,2) by (auto simp: server_inv_def)
next
  case (Callback i ev')
  then obtain conn where c: "sv_conns s i = Some (Live conn)" "conn_possible v conn ev'"
    using assms(2) by (auto split: option.split_asm conn.split_asm)
  have "proxy_inv v lim mlim (init_cap lim) (sv_buffer s, Live conn)"
    using assms(1) c(1) by (fastforce simp: server_inv_def proxy_inv_def)
  from proxy_step_inv [OF conn_possible_step [OF c(2), of e "sv_buffer s"] this e]
  show ?thesis using Callback c(1) assms(1) by (auto simp: server_inv_def proxy_inv_def)
qed

lemma server_reaches_inv:
  assumes "server_reaches e v (main_server v conf ws) (server_start db) s" and e: "env_ok e" and v: "cenv_ok v"
    and lim: "cf_max_frame_size conf = int lim" "14 \<le> lim" "lim \<le> 114"
    and mlim: "cf_max_message_size conf = int mlim" "0 < mlim" "int mlim \<le> INT_MAX"
    and db: "length db = DATA_BUFFER_SIZE"
  shows "server_inv v lim mlim (init_cap lim) s"
  using assms(1)
proof (induction rule: server_reaches.induct)
  case start
  then show ?case using server_inv_start [OF db] .
next
  case (step s ev s')
  then show ?case using dispatch_inv [OF step.IH step.hyps(2) e v lim mlim, of ws] by auto
qed

section \<open>A session among others\<close>

fun traffic_ev :: "traffic \<Rightarrow> conn_ev" where
  "traffic_ev (Client_Message k m) = Client_Input (text_input k m)"
| "traffic_ev (Server_Read chunks) = Xmpp_Input chunks"

lemma traffic_events:
  assumes "run_traffic e v ts (sv_buffer s) conn = Ok (db', Live conn')" and "sv_conns s i = Some (Live conn)"
  shows "\<exists>s'. run_steps (dispatch e v ws) (map (\<lambda>t. Callback i (traffic_ev t)) ts) s = Ok s'
     \<and> sv_conns s' i = Some (Live conn') \<and> sv_buffer s' = db'"
  using assms
proof (induction ts arbitrary: s conn)
  case (Cons t ts)
  have step: "conn_callback e v (traffic_ev t) db c = traffic_step e v t db c" for db c by (cases t) simp_all
  obtain db1 conn1 where c1: "traffic_step e v t (sv_buffer s) conn = Ok (db1, Live conn1)"
    "run_traffic e v ts db1 conn1 = Ok (db', Live conn')"
    using Cons.prems(1) by (auto simp: bindr_eq_Ok split: conn.split_asm) (metis conn.exhaust)
  show ?case
    using Cons.IH [of "s\<lparr>sv_buffer := db1, sv_conns := (sv_conns s)(i \<mapsto> Live conn1)\<rparr>" conn1] c1 Cons.prems(2) step by simp
qed simp

text \<open>The events of one connection in a session: it is accepted, its request arrives, then its messages up to the
  one that names the server, the connection to that server, and the traffic in both directions.\<close>

definition session_events ::
  "nat \<Rightarrow> bool \<times> string \<times> string \<Rightarrow> input \<Rightarrow> traffic list \<Rightarrow> traffic list \<Rightarrow> server_ev list" where
  "session_events i peer hs ts0 ts =
     [Accept i True peer, Callback i (Client_Input hs)] @ map (\<lambda>t. Callback i (traffic_ev t)) ts0
     @ [Callback i (Xmpp_Event [BEV_EVENT_CONNECTED])] @ map (\<lambda>t. Callback i (traffic_ev t)) ts"

lemma session_events_run:
  assumes "ws_accept_conn_cb e True peer ws = Ok (Some conn0)" and "wsconn_read_cb e hs conn0 = Ok (Live conn1)"
    and "run_traffic e v ts0 db conn1 = Ok (db, Live conn2)"
    and "cm_eventcb e [BEV_EVENT_CONNECTED] conn2 = Ok (Live conn3)"
    and "run_traffic e v ts db conn3 = Ok (db', Live conn4)"
  shows "\<exists>t. event_loop e v ws (session_events i peer hs ts0 ts) (server_start db) = Ok t
     \<and> sv_conns t i = Some (Live conn4)"
proof -
  let ?s1 = "\<lparr>sv_buffer = db, sv_conns = [i \<mapsto> Live conn1]\<rparr>"
  obtain s2 where s2: "run_steps (dispatch e v ws) (map (\<lambda>t. Callback i (traffic_ev t)) ts0) ?s1 = Ok s2"
    "sv_conns s2 i = Some (Live conn2)" "sv_buffer s2 = db"
    using traffic_events [of e v ts0 ?s1 conn1 db conn2 i ws] assms(3) by auto
  obtain s4 where "run_steps (dispatch e v ws) (map (\<lambda>t. Callback i (traffic_ev t)) ts)
      (s2\<lparr>sv_buffer := db, sv_conns := (sv_conns s2)(i \<mapsto> Live conn3)\<rparr>) = Ok s4" "sv_conns s4 i = Some (Live conn4)"
    using traffic_events [of e v ts "s2\<lparr>sv_buffer := db, sv_conns := (sv_conns s2)(i \<mapsto> Live conn3)\<rparr>" conn3 db' conn4 i ws] assms(5)
    by auto
  then show ?thesis
    using assms(1,2,4) s2 by (auto simp: event_loop_def session_events_def server_start_def run_steps_append)
qed


section \<open>Two clients at once\<close>

lemma session_events_own: "set es \<subseteq> set (session_events i peer hs ts0 ts) \<Longrightarrow> own ev_conn j es = (if i = j then es else [])"
  by (induction es) (auto simp: session_events_def)

definition sample_events :: "server_ev list" where
  "sample_events = session_events 0 sample_peer sample_handshake
     (message_traffic sample_opening @ [Client_Message sample_key (map byte_of_char ''stream to='')]) sample_traffic"

text \<open>Another client connects first and goes away in the middle of the session.\<close>

definition two_clients :: "server_ev list" where
  "two_clients = [Accept 1 True sample_peer] @ take 3 sample_events @ [Callback 1 (Client_Event [BEV_EVENT_EOF])]
     @ drop 3 sample_events"

definition sample_server :: "cm_ctx wsserver_t" where
  "sample_server = main_server sample_cenv limited_conf zeroed_server"

lemma two_clients_own:
  "own ev_conn 0 two_clients = sample_events"
  "own ev_conn 1 two_clients = [Accept 1 True sample_peer, Callback 1 (Client_Event [BEV_EVENT_EOF])]"
  "i \<noteq> 0 \<Longrightarrow> i \<noteq> 1 \<Longrightarrow> own ev_conn i two_clients = []"
proof -
  have "own ev_conn j (take 3 sample_events) = (if 0 = j then take 3 sample_events else [])"
    "own ev_conn j (drop 3 sample_events) = (if 0 = j then drop 3 sample_events else [])" for j
    unfolding sample_events_def by (rule session_events_own, use set_take_subset set_drop_subset in fast)+
  then show "own ev_conn 0 two_clients = sample_events"
    "own ev_conn 1 two_clients = [Accept 1 True sample_peer, Callback 1 (Client_Event [BEV_EVENT_EOF])]"
    "i \<noteq> 0 \<Longrightarrow> i \<noteq> 1 \<Longrightarrow> own ev_conn i two_clients = []"
    by (simp_all add: two_clients_def)
qed

lemma lost_client_run:
  "\<exists>t conn. event_loop sample_env sample_cenv sample_server [Accept 1 True sample_peer, Callback 1 (Client_Event [BEV_EVENT_EOF])]
       (server_start db) = Ok t \<and> sv_conns t 1 = Some (Live conn) \<and> c_ws_state conn = WS_ST_CLOSED"
proof -
  obtain conn0 conn1 where "ws_accept_conn_cb sample_env True sample_peer sample_server = Ok (Some conn0)"
    "wsconn_event_cb sample_env [BEV_EVENT_EOF] conn0 = Ok (Live conn1)" "c_ws_state conn1 = WS_ST_CLOSED"
    using client_lost_before_handshake [of zeroed_server] by (auto simp: sample_server_def)
  then show ?thesis by (auto simp: event_loop_def server_start_def)
qed

lemma sample_events_run:
  "\<exists>t. event_loop sample_env sample_cenv sample_server sample_events (server_start (replicate 65536 0)) = Ok t"
proof -
  obtain conn0 conn1 conn2 conn3 conn4 db' where
    "ws_accept_conn_cb sample_env True sample_peer sample_server = Ok (Some conn0)"
    "wsconn_read_cb sample_env sample_handshake conn0 = Ok (Live conn1)"
    "run_traffic sample_env sample_cenv (message_traffic sample_opening
       @ [Client_Message sample_key (map byte_of_char ''stream to='')]) (replicate 65536 0) conn1 = Ok (replicate 65536 0, Live conn2)"
    "cm_eventcb sample_env [BEV_EVENT_CONNECTED] conn2 = Ok (Live conn3)"
    "run_traffic sample_env sample_cenv sample_traffic (replicate 65536 0) conn3 = Ok (db', Live conn4)"
    using sample_session unfolding sample_server_def by blast
  from session_events_run [OF this, of 0] show ?thesis by (auto simp: sample_events_def)
qed

lemma two_clients_run:
  assumes "\<exists>t. event_loop sample_env sample_cenv sample_server sample_events (server_start db) = Ok t"
  shows "\<exists>s. event_loop sample_env sample_cenv sample_server two_clients (server_start db) = Ok s"
proof -
  have "\<exists>t. event_loop sample_env sample_cenv sample_server (own ev_conn i two_clients) (server_start db) = Ok t" for i
  proof (cases "i = 0 \<or> i = 1")
    case True
    then show ?thesis using assms lost_client_run [of db] by (auto simp: two_clients_own simp del: One_nat_def)
  next
    case False
    then show ?thesis by (simp add: two_clients_own(3) event_loop_def)
  qed
  then show ?thesis
    unfolding event_loop_def by (rule loop.together [rotated]) (simp add: same_conn_def)
qed

text \<open>The two clients: the state of each is the one it reaches alone, also when the array holds something else.\<close>

theorem connections_isolated_witness:
  "\<exists>s t conn. event_loop sample_env sample_cenv sample_server two_clients (server_start (replicate 65536 0)) = Ok s
     \<and> event_loop sample_env sample_cenv sample_server [Accept 1 True sample_peer, Callback 1 (Client_Event [BEV_EVENT_EOF])]
         (server_start (replicate 65536 7)) = Ok t
     \<and> sv_conns t 1 = sv_conns s 1 \<and> sv_conns s 1 = Some (Live conn) \<and> c_ws_state conn = WS_ST_CLOSED"
proof -
  obtain s where s: "event_loop sample_env sample_cenv sample_server two_clients (server_start (replicate 65536 0)) = Ok s"
    using two_clients_run [OF sample_events_run] by blast
  have "length (replicate 65536 (0 :: byte)) = length (replicate 65536 (7 :: byte))" by simp
  from connections_isolated [OF this, of sample_env sample_cenv sample_server two_clients] s two_clients_own(2)
  obtain t where "event_loop sample_env sample_cenv sample_server [Accept 1 True sample_peer, Callback 1 (Client_Event [BEV_EVENT_EOF])]
         (server_start (replicate 65536 7)) = Ok t" "sv_conns t 1 = sv_conns s 1" by metis
  then show ?thesis using s lost_client_run [of "replicate 65536 7"] by auto
qed


end
