(* ===== verification/MainProg.thy ===== *)
theory MainProg
  imports Proxy
begin

text \<open>
  \<open>main.c\<close>: the options, the configuration and the server before the event loop, and the signal handlers. What
  \<open>getopt_long\<close> returns call by call, the tokens libyaml finds in a file, the outcome of \<open>evutil_getaddrinfo\<close>,
  \<open>event_base_new\<close> and the listener, and the version numbers the build writes into \<open>jabsocketConfig.h\<close> are
  arguments. The process ends with a status and a message or goes into the event loop with a server and a log
  mask.
\<close>

section \<open>Messages\<close>

definition newline :: string where
  "newline = [CHR 0x0A]"

fun decimal :: "nat \<Rightarrow> string" where
  "decimal n = (if n < 10 then [char_of (48 + n)] else decimal (n div 10) @ [char_of (48 + n mod 10)])"

declare decimal.simps [simp del]

definition usage :: "string \<Rightarrow> string" where
  "usage prog = ''Usage: '' @ prog @ '' <options>'' @ newline
     @ ''Options:'' @ newline
     @ ''  --config, -c <config file>          - Configuration file'' @ newline
     @ ''                                        (default is /etc/jabsocket.conf)'' @ newline
     @ ''  --nodaemon, -n                      - Don'' @ [CHR 0x27] @ ''t run as daemon'' @ newline
     @ ''                                        (default is running as daemon)'' @ newline
     @ ''  --version, -v                       - Display the version'' @ newline
     @ ''  --help, -h                          - Help message'' @ newline"

definition version :: "string \<Rightarrow> nat \<times> nat \<times> nat \<Rightarrow> string" where
  "version prog ver = (case ver of (major, minor, patch) \<Rightarrow>
     prog @ '' version '' @ decimal major @ ''.'' @ decimal minor @ ''.'' @ decimal patch @ newline)"

section \<open>Options\<close>

record params_t =
  prm_config :: string
  prm_nodaemon :: bool

text \<open>The results of \<open>getopt_long\<close>; \<open>Opt_c\<close> comes with its argument, \<open>Opt_invalid\<close> is the question mark.\<close>

datatype getopt = Opt_c string | Opt_n | Opt_v | Opt_h | Opt_invalid

text \<open>\<open>usage\<close> and \<open>version\<close> print their text and end the process; \<open>Inl\<close> with the text stands for that.\<close>

fun parse_params_loop :: "string \<Rightarrow> nat \<times> nat \<times> nat \<Rightarrow> getopt list \<Rightarrow> params_t \<Rightarrow> string + params_t" where
  "parse_params_loop prog ver [] params = Inr params"
| "parse_params_loop prog ver (c # cs) params =
     (case c of
        Opt_v \<Rightarrow> Inl (version prog ver)
      | Opt_h \<Rightarrow> Inl (usage prog)
      | Opt_n \<Rightarrow> parse_params_loop prog ver cs (params\<lparr>prm_nodaemon := True\<rparr>)
      | Opt_c optarg \<Rightarrow> parse_params_loop prog ver cs (params\<lparr>prm_config := optarg\<rparr>)
      | Opt_invalid \<Rightarrow> Inl (usage prog))"

definition parse_params :: "string \<Rightarrow> nat \<times> nat \<times> nat \<Rightarrow> getopt list \<Rightarrow> string + params_t" where
  "parse_params prog ver opts =
     parse_params_loop prog ver opts \<lparr>prm_config = ''/etc/jabsocket.conf'', prm_nodaemon = False\<rparr>"

section \<open>The start of the program\<close>

text \<open>\<open>o_resolve\<close> is the error text of \<open>evutil_getaddrinfo\<close>, \<open>None\<close> when it finds an address.\<close>

record world =
  o_prog :: string
  o_version :: "nat \<times> nat \<times> nat"
  o_al :: allocator
  o_key :: "char list"
  o_yaml :: "string \<Rightarrow> yaml_token list option"
  o_resolve :: "string option \<Rightarrow> string option \<Rightarrow> string option"
  o_base :: bool
  o_listening :: bool

datatype 'a outcome = Exit int string | Serving 'a

text \<open>From the configuration to the server. When the address does not resolve, the message prints \<open>conf->cidr\<close>
  with \<open>%s\<close>, also when it is NULL.\<close>

definition main_listen :: "world \<Rightarrow> cenv \<Rightarrow> jsconf_t \<Rightarrow> (cm_ctx wsserver_t \<times> nat) outcome cres" where
  "main_listen s v conf =
     (case o_resolve s (cf_cidr conf) (cf_port conf) of
        Some err \<Rightarrow>
          (case cf_cidr conf of
             None \<Rightarrow> Fault Null_Pointer
           | Some cidr \<Rightarrow> Ok (Exit (- 1) (''Error while resolving '' @ [CHR 0x27] @ cidr @ [CHR 0x27] @ '': '' @ err)))
      | None \<Rightarrow>
          if \<not> o_base s then Ok (Exit (- 1) (''Couldn'' @ [CHR 0x27] @ ''t open event base'' @ newline))
          else
            (let log_mask = logopen conf in
             bindr (ws_create (o_al s) (o_listening s)) (\<lambda>r.
             case r of
               None \<Rightarrow> Ok (Exit (- 1) (''Error creating WebSocket server'' @ newline))
             | Some wsserver \<Rightarrow> Ok (Serving (main_server v conf wsserver, log_mask)))))"

definition main_prog :: "world \<Rightarrow> cenv \<Rightarrow> getopt list \<Rightarrow> (cm_ctx wsserver_t \<times> nat) outcome cres" where
  "main_prog s v opts =
     (case parse_params (o_prog s) (o_version s) opts of
        Inl msg \<Rightarrow> Ok (Exit 0 msg)
      | Inr params \<Rightarrow>
          (case config_create (o_al s) of
             None \<Rightarrow> Ok (Exit (- 1) (''Error creating configuration reader'' @ newline))
           | Some conf0 \<Rightarrow>
               bindr (config_parse (o_al s) (o_key s) (o_yaml s (prm_config params)) conf0) (\<lambda>(res, conf).
               if \<not> res then Ok (Exit (- 1) (''Error reading configuration'' @ newline))
               else main_listen s v conf)))"

section \<open>Signals\<close>

definition signal_callback :: "nat \<Rightarrow> unit cres" where
  "signal_callback log_mask = bindr (LOG log_mask LOG_INFO ''main.c:signal_callback exiting'' []) (\<lambda>_. Ok ())"

definition sig_handler :: "nat \<Rightarrow> nat \<Rightarrow> 'a outcome cres" where
  "sig_handler log_mask sig =
     bindr (LOG log_mask LOG_INFO ''main.c:sig_handler exiting (signal %d)'' [decimal sig]) (\<lambda>_. Ok (Exit 0 []))"

section \<open>Properties\<close>

text \<open>The configuration file is the argument of the last \<open>-c\<close>, or the default.\<close>

fun config_file :: "getopt list \<Rightarrow> string \<Rightarrow> string" where
  "config_file [] f = f"
| "config_file (Opt_c f' # cs) f = config_file cs f'"
| "config_file (c # cs) f = config_file cs f"

definition runs :: "getopt list \<Rightarrow> bool" where
  "runs opts \<longleftrightarrow> Opt_v \<notin> set opts \<and> Opt_h \<notin> set opts \<and> Opt_invalid \<notin> set opts"

text \<open>What the first option that ends the run prints.\<close>

fun stop_text :: "string \<Rightarrow> nat \<times> nat \<times> nat \<Rightarrow> getopt list \<Rightarrow> string" where
  "stop_text prog ver [] = []"
| "stop_text prog ver (Opt_v # cs) = version prog ver"
| "stop_text prog ver (Opt_h # cs) = usage prog"
| "stop_text prog ver (Opt_invalid # cs) = usage prog"
| "stop_text prog ver (c # cs) = stop_text prog ver cs"

lemma parse_params_loop_eq:
  "parse_params_loop prog ver opts p = (if runs opts
     then Inr \<lparr>prm_config = config_file opts (prm_config p), prm_nodaemon = (prm_nodaemon p \<or> Opt_n \<in> set opts)\<rparr>
     else Inl (stop_text prog ver opts))"
proof (induction opts arbitrary: p)
  case (Cons c cs)
  then show ?case by (cases c) (auto simp: runs_def)
qed (simp add: runs_def)

lemma config_parse_tokens:
  assumes "generous al" and "\<forall>en \<in> set doc. entry_fits al en" and "length key = 128"
  shows "config_create al = Some empty_conf"
    and "config_parse al key (Some (doc_tokens doc)) conf = Ok (True, doc_meaning doc conf)"
  using generous_small [OF assms(1), of sizeof_jsconf_t] config_loop_document [OF assms(2,3)]
  by (auto simp: config_create_def config_parse_def sizeof_jsconf_t_def PTRDIFF_MAX_def)

lemma main_prog_document:
  assumes "generous (o_al s)" and "runs opts" and "length (o_key s) = 128"
    and "o_yaml s (config_file opts ''/etc/jabsocket.conf'') = Some (doc_tokens doc)" and "\<forall>en \<in> set doc. entry_fits (o_al s) en"
    and "conf = doc_meaning doc empty_conf" and "o_resolve s (cf_cidr conf) (cf_port conf) = None" and "o_base s" and "o_listening s"
  shows "main_prog s v opts = Ok (Serving (main_server v conf zeroed_server, logopen conf))"
proof -
  have "granted (o_al s) sizeof_wsserver_t"
    using generous_small [OF assms(1)] by (simp add: sizeof_wsserver_t_def PTRDIFF_MAX_def)
  then show ?thesis
    using assms(2,4,6-9) config_parse_tokens [OF assms(1,5,3)]
    by (simp add: main_prog_def main_listen_def parse_params_def parse_params_loop_eq ws_create_def)
qed

text \<open>C20: the program starts exactly as the options and the configuration say: with options that ask for a run,
  a readable document in the file they name and an address to listen on, it goes into the event loop with the
  configuration the document means, the connection manager as the client of the server, and a log mask that
  lets the configured levels pass.\<close>

theorem main_starts_as_configured:
  assumes "generous (o_al s)" and "runs opts" and "length (o_key s) = 128"
    and "o_yaml s (config_file opts ''/etc/jabsocket.conf'') = Some (doc_tokens doc)" and "\<forall>en \<in> set doc. entry_fits (o_al s) en"
    and "conf = doc_meaning doc empty_conf" and "o_resolve s (cf_cidr conf) (cf_port conf) = None" and "o_base s" and "o_listening s"
  shows "\<exists>ws log_mask. main_prog s v opts = Ok (Serving (ws, log_mask))
     \<and> s_conf ws = Some conf \<and> s_create_cb ws = cm_create v \<and> s_delete_cb ws = cm_delete \<and> ws_get_cb ws = Some (cmanager v)
     \<and> (\<forall>level. log_passes log_mask level \<longleftrightarrow> level \<le> cf_log_level conf)"
  using main_prog_document [OF assms]
  by (simp add: main_server_def ws_set_cb_def ws_set_config_def ws_get_cb_def log_passes_logopen)

lemma main_listen_exit:
  assumes "main_listen s v conf = Ok (Exit n msg)"
  shows "n = - 1 \<and> take 5 msg \<in> {''Error'', ''Could''}"
  using assms
  by (cases "o_resolve s (cf_cidr conf) (cf_port conf)"; cases "cf_cidr conf")
    (auto simp: main_listen_def cres_simps Let_def split: option.split_asm if_split_asm)

text \<open>C31: when the program ends before the event loop it says so: with status 0 and the usage or the version,
  whichever the first such option asks for, exactly when the options ask for that or are invalid, and with
  status -1 and an error message for every failure of the start.\<close>

theorem main_exit_status:
  assumes "main_prog s v opts = Ok (Exit n msg)"
  shows "if runs opts then n = - 1 \<and> take 5 msg \<in> {''Error'', ''Could''}
    else n = 0 \<and> msg = stop_text (o_prog s) (o_version s) opts"
  using assms
  by (auto simp: main_prog_def parse_params_def parse_params_loop_eq cres_simps dest: main_listen_exit
      split: option.split_asm if_split_asm prod.split_asm)

text \<open>The option \<open>--nodaemon\<close> has no effect: the program does the same without it.\<close>

theorem nodaemon_ignored: "main_prog s v (filter (\<lambda>c. c \<noteq> Opt_n) opts) = main_prog s v opts"
proof -
  have "config_file (filter (\<lambda>c. c \<noteq> Opt_n) opts) f = config_file opts f" for f
  proof (induction opts arbitrary: f)
    case (Cons c cs)
    then show ?case by (cases c) auto
  qed simp
  moreover have "stop_text prog ver (filter (\<lambda>c. c \<noteq> Opt_n) opts) = stop_text prog ver opts" for prog ver
  proof (induction opts)
    case (Cons c cs)
    then show ?case by (cases c) auto
  qed simp
  ultimately show ?thesis by (simp add: main_prog_def parse_params_def parse_params_loop_eq runs_def split: option.split)
qed

section \<open>A concrete start\<close>

definition sample_world :: world where
  "sample_world = \<lparr>o_prog = ''jabsocket'', o_version = (0, 1, 12), o_al = zero_alloc, o_key = replicate 128 NUL,
     o_yaml = (\<lambda>f. if f = ''a.conf'' then Some (doc_tokens sample_doc) else None),
     o_resolve = (\<lambda>cidr port. if cidr = Some ''0.0.0.0'' \<and> port = Some ''5000'' then None else Some ''unknown''), o_base = True, o_listening = True\<rparr>"

lemma sample_doc_address: "cf_cidr (doc_meaning sample_doc empty_conf) = Some ''0.0.0.0''"
  "cf_port (doc_meaning sample_doc empty_conf) = Some ''5000''" "cf_log_level (doc_meaning sample_doc empty_conf) = LOG_INFO"
  by code_simp+

theorem main_starts_as_configured_witness:
  "\<exists>ws log_mask. main_prog sample_world sample_cenv [Opt_n, Opt_c ''a.conf''] = Ok (Serving (ws, log_mask))
     \<and> s_conf ws = Some (doc_meaning sample_doc empty_conf)
     \<and> (\<forall>level. log_passes log_mask level \<longleftrightarrow> level \<le> LOG_INFO)"
proof -
  have "generous (o_al sample_world)" "runs [Opt_n, Opt_c ''a.conf'']" "length (o_key sample_world) = 128"
    "o_yaml sample_world (config_file [Opt_n, Opt_c ''a.conf''] ''/etc/jabsocket.conf'') = Some (doc_tokens sample_doc)"
    "\<forall>en \<in> set sample_doc. entry_fits (o_al sample_world) en"
    using sample_doc_fits by (simp_all add: sample_world_def runs_def)
  note h = this
  have "o_resolve sample_world (cf_cidr (doc_meaning sample_doc empty_conf)) (cf_port (doc_meaning sample_doc empty_conf)) = None"
    "o_base sample_world" "o_listening sample_world"
    by (simp_all add: sample_world_def sample_doc_address)
  from main_starts_as_configured [OF h refl this, of sample_cenv] show ?thesis
    unfolding sample_doc_address by auto
qed

theorem main_exit_status_witness:
  "main_prog sample_world sample_cenv [Opt_n, Opt_v, Opt_h] = Ok (Exit 0 (''jabsocket version 0.1.12'' @ newline))
     \<and> \<not> runs [Opt_n, Opt_v, Opt_h]"
proof -
  have r: "main_prog sample_world sample_cenv [Opt_n, Opt_v, Opt_h] = Ok (Exit 0 (version ''jabsocket'' (0, 1, 12)))"
    by (simp add: main_prog_def parse_params_def sample_world_def)
  have "version ''jabsocket'' (0, 1, 12) = ''jabsocket version 0.1.12'' @ newline" by code_simp
  moreover have "\<not> runs [Opt_n, Opt_v, Opt_h]" by (simp add: runs_def)
  ultimately show ?thesis using r main_exit_status [OF r] by simp
qed

end
