(* ===== verification/RqFaults.thy ===== *)
theory RqFaults
  imports RqHandshake
begin

text \<open>
  The harmful requests: each condition of \<open>line_safe\<close> is needed. A client that breaks one of them
  drives \<open>rq_add_line\<close> into undefined behaviour, whatever the configuration.
\<close>

section \<open>The first lines of a request\<close>

lemma vformat_bad:
  assumes "CHR ''%'' \<notin> set a" and "d \<noteq> CHR ''%''"
  shows "vformat (a @ CHR ''%'' # d # b) [] = Fault Bad_Format"
  using assms by (simp add: vformat_append_plain)

lemma parse_request_line_keeps:
  assumes "parse_request_line al h line = Ok (ok, h')"
  shows "r_line h' = r_line h" and "r_state h' = r_state h"
  using assms
  by (auto simp: parse_request_line_def cres_simps Let_def split: if_splits option.splits prod.splits)

lemma rq_create_fresh:
  assumes "rq_create al = Ok (Some h)"
  shows "r_state h = ST_START" and "r_line h = junk_text al 4096"
  using assms
  by (auto simp: rq_create_def str_init_def mem_set_def LINE_BUFFER_SIZE_def junk_text_def split: if_splits)

lemma request_line_read:
  assumes al: "generous al" and rl: "tokens [CHR '' '', CHR 0x09] line = m # r # p # rest" "nul_free line"
    "CHR ''%'' \<notin> set line" "length line < 4096"
  shows "\<exists>h h1. rq_create al = Ok (Some h) \<and> rq_add_line al h line = Ok h1 \<and> rq_ok h1
     \<and> r_state h1 = ST_HEADER \<and> q_pending (absq h1) = [] \<and> r_line h1 = (junk_text al 4096)[0 := NUL]"
proof -
  obtain h where h: "rq_create al = Ok (Some h)" "rq_ok h" "absq h = areq_init"
    using rq_create_ok [OF al] by blast
  have "line_safe areq_init line" using rl by (simp add: line_safe_def areq_init_def PTRDIFF_MAX_def)
  then obtain h1 where h1: "rq_add_line al h line = Ok h1" "rq_ok h1" "absq h1 = aadd_line line areq_init"
    using rq_add_line_refines [OF h(2) al, of line] h(3) by auto
  have a: "q_state (absq h1) = ST_HEADER" "q_pending (absq h1) = []"
    using h1(3) aadd_request_line [OF rl(1)] by (simp_all add: areq_init_def)
  have st: "r_state h1 = ST_HEADER" using a(1) by (simp add: absq_def)
  have st0: "r_state h = ST_START" "r_line h = junk_text al 4096"
    using rq_create_fresh [OF h(1)] by simp_all
  obtain ok hp where hp: "parse_request_line al h line = Ok (ok, hp)"
    "(if \<not> ok then Ok (hp\<lparr>r_error := True\<rparr>)
      else bindr (mem_set (r_line hp) 0 NUL) (\<lambda>m. Ok (hp\<lparr>r_state := ST_HEADER, r_line := m\<rparr>))) = Ok h1"
    using h1(1) by (auto simp: rq_add_line_def st0(1) bindr_eq_Ok)
  note keeps = parse_request_line_keeps [OF hp(1)]
  have "r_line h1 = (r_line h)[0 := NUL]"
    using hp(2) keeps st st0(1) by (auto simp: cres_simps split: if_splits)
  then show ?thesis using h h1 a st st0 by auto
qed

text \<open>A header line that fits is stored and waits.\<close>

lemma header_line_stored:
  assumes al: "generous al" and ok: "rq_ok h" and st: "r_state h = ST_HEADER" and p: "q_pending (absq h) = []"
    and l: "l \<noteq> []" "\<not> isspace (hd l)" "nul_free l" "length l < 4095"
  shows "\<exists>h'. rq_add_line al h l = Ok h' \<and> rq_ok h' \<and> r_state h' = ST_HEADER \<and> cstr (r_line h') = Ok l"
proof -
  have q: "q_state (absq h) = ST_HEADER" using st by (simp add: absq_def)
  have safe: "line_safe (absq h) l"
    using l q p by (simp add: line_safe_def header_safe_def PTRDIFF_MAX_def)
  obtain h' where h': "rq_add_line al h l = Ok h'" "rq_ok h'" "absq h' = aadd_line l (absq h)"
    using rq_add_line_refines [OF ok al safe] by blast
  have a: "q_state (absq h') = ST_HEADER" "q_pending (absq h') = l"
    using h'(3) q p l by (simp_all add: aadd_line_def aflush_def)
  then have "r_state h' = ST_HEADER" "line_text (r_line h') = l" by (auto simp: absq_def split: if_splits)
  moreover from this h'(2) have "NUL \<in> set (r_line h')" by (simp add: rq_ok_def)
  ultimately show ?thesis using h' cstr_line by metis
qed

text \<open>The empty line flushes the pending header.\<close>

lemma blank_line_flushes:
  assumes al: "generous al" and st: "r_state h = ST_HEADER" and c: "cstr (r_line h) = Ok (key @ CHR '':'' # v)"
    and k: "CHR '':'' \<notin> set key" and len: "length (key @ CHR '':'' # v) < 4096"
    and pr: "\<And>g. g = h\<lparr>r_done := True\<rparr> \<Longrightarrow> rq_process al g key (Some v) = Fault e"
  shows "rq_add_line al h [] = Fault e"
proof -
  have "strchr_split CHR '':'' (key @ CHR '':'' # v) = Some (key, v)" using k by (simp add: strchr_split_Some)
  moreover have "strdup_ok al key" "strdup_ok al v"
    using len al by (auto simp: strdup_ok_def generous_granted PTRDIFF_MAX_def)
  ultimately show ?thesis
    using st c pr by (simp add: rq_add_line_def rq_flush_def)
qed

section \<open>Three ways to harm the server\<close>

text \<open>C39: a \<open>Host\<close> header whose value holds a percent sign (other than a doubled one) makes the code call
  \<open>vsnprintf\<close> with the client's text as the format and no arguments.\<close>

theorem percent_header_faults:
  assumes al: "generous al"
    and rl: "tokens [CHR '' '', CHR 0x09] line = m # r # p # rest" "nul_free line" "CHR ''%'' \<notin> set line"
      "length line < 4096"
    and key: "strcaseeq key ''host''" and v: "dropWhile isspace v = a @ CHR ''%'' # d # b"
      "CHR ''%'' \<notin> set a" "d \<noteq> CHR ''%''"
    and fits: "key \<noteq> []" "\<not> isspace (hd key)" "CHR '':'' \<notin> set key" "nul_free (key @ v)" "length (key @ v) < 4094"
  shows "\<exists>h. rq_create al = Ok (Some h) \<and> rq_add_lines al [line, key @ CHR '':'' # v, []] h = Fault Bad_Format"
proof -
  obtain h h1 where h1: "rq_create al = Ok (Some h)" "rq_add_line al h line = Ok h1" "rq_ok h1"
    "r_state h1 = ST_HEADER" "q_pending (absq h1) = []"
    using request_line_read [OF al rl] by blast
  obtain h2 where h2: "rq_add_line al h1 (key @ CHR '':'' # v) = Ok h2" "r_state h2 = ST_HEADER"
    "cstr (r_line h2) = Ok (key @ CHR '':'' # v)"
    using header_line_stored [OF al h1(3-5), of "key @ CHR '':'' # v"] fits by auto
  have "rq_add_line al h2 [] = Fault Bad_Format"
  proof (rule blank_line_flushes [OF al h2(2,3) fits(3)])
    show "length (key @ CHR '':'' # v) < 4096" using fits(5) by simp
    show "rq_process al g key (Some v) = Fault Bad_Format" for g
      using key v by (simp add: rq_process_def rq_trim_def str_trim_beginning_eq str_set_string_def
          str_set_vstring_def vsnprintf_def vformat_bad)
  qed
  then show ?thesis using h1 h2 by auto
qed

text \<open>A \<open>Connection\<close> header that does not name \<open>Upgrade\<close>, such as \<open>Connection: close\<close>, makes the code
  use the value of a function that ended without a return statement.\<close>

theorem connection_without_upgrade_faults:
  assumes al: "generous al"
    and rl: "tokens [CHR '' '', CHR 0x09] line = m # r # p # rest" "nul_free line" "CHR ''%'' \<notin> set line"
      "length line < 4096"
    and key: "strcaseeq key ''connection''" and v: "CHR ''%'' \<notin> set v" "\<not> names_upgrade (field 64 v)"
    and fits: "key \<noteq> []" "\<not> isspace (hd key)" "CHR '':'' \<notin> set key" "nul_free (key @ v)" "length (key @ v) < 4094"
  shows "\<exists>h. rq_create al = Ok (Some h)
     \<and> rq_add_lines al [line, key @ CHR '':'' # v, []] h = Fault No_Return_Value"
proof -
  obtain h h1 where h1: "rq_create al = Ok (Some h)" "rq_add_line al h line = Ok h1" "rq_ok h1"
    "r_state h1 = ST_HEADER" "q_pending (absq h1) = []"
    using request_line_read [OF al rl] by blast
  obtain h2 where h2: "rq_add_line al h1 (key @ CHR '':'' # v) = Ok h2" "rq_ok h2" "r_state h2 = ST_HEADER"
    "cstr (r_line h2) = Ok (key @ CHR '':'' # v)"
    using header_line_stored [OF al h1(3-5), of "key @ CHR '':'' # v"] fits by auto
  have k: "\<not> strcaseeq key ''host''" "\<not> strcaseeq key ''upgrade''"
    using strcaseeq_length [OF key] strcaseeq_length [of key "''host''"] strcaseeq_length [of key "''upgrade''"]
    by auto
  have "rq_add_line al h2 [] = Fault No_Return_Value"
  proof (rule blank_line_flushes [OF al h2(3,4) fits(3)])
    show "length (key @ CHR '':'' # v) < 4096" using fits(5) by simp
    fix g assume "g = h2\<lparr>r_done := True\<rparr>"
    with h2(2) have cap: "str_cap 64 (r_connection_str g)" by (simp add: rq_ok_def)
    have nf: "nul_free v" using fits(4) by simp
    note t = rq_trim_field [OF cap v(1) nf]
    have "CHR ''%'' \<notin> set (field 64 v)" using v(1) field_subset by blast
    then show "rq_process al g key (Some v) = Fault No_Return_Value"
      using find_connection_upgrade_eq [of "g\<lparr>r_connection_str := str_store (r_connection_str g) (field 64 v)\<rparr>" al] t v(2)
      by (simp add: rq_process_def key k)
  qed
  then show ?thesis using h1 h2 by auto
qed

lemma long_line_stored:
  assumes m: "length m = 4096" and l: "4095 \<le> length l"
  shows "strncpy (m[0 := NUL]) 0 l 4095 = Ok (take 4095 l @ drop 4095 m)"
proof -
  have "length (take 4095 l @ replicate (4095 - length l) NUL) = 4095" using l by simp
  moreover have "drop 4095 (m[0 := NUL]) = drop 4095 m" by simp
  ultimately show ?thesis
    using m l by (simp add: strncpy_def mem_write_def)
qed

text \<open>C40: a header line of 4095 characters or more fills the line buffer up to its last byte and leaves it
  without a terminator, unless the byte happens to be zero: the next line makes \<open>strlen\<close> run past the
  end of the buffer.\<close>

theorem long_header_line_faults:
  assumes al: "generous al"
    and rl: "tokens [CHR '' '', CHR 0x09] line = m # r # p # rest" "nul_free line" "CHR ''%'' \<notin> set line"
      "length line < 4096"
    and long: "4095 \<le> length l" "nul_free l" "\<not> isspace (hd l)" and junk: "junk al 4095 \<noteq> 0"
  shows "\<exists>h. rq_create al = Ok (Some h) \<and> rq_add_lines al [line, l, next_line] h = Fault Out_Of_Bounds"
proof -
  obtain h h1 where h1: "rq_create al = Ok (Some h)" "rq_add_line al h line = Ok h1" "rq_ok h1"
    "r_state h1 = ST_HEADER" "r_line h1 = (junk_text al 4096)[0 := NUL]"
    using request_line_read [OF al rl] by blast
  have len: "length (junk_text al 4096) = 4096" by (simp add: junk_text_def)
  let ?m = "take 4095 l @ drop 4095 (junk_text al 4096)"
  have c0: "cstr ((junk_text al 4096)[0 := NUL]) = Ok []"
    using len by (cases "junk_text al 4096") auto
  have fl: "rq_flush al h1 = Ok (True, h1)" by (simp add: rq_flush_def h1(5) c0)
  have l: "l \<noteq> []" using long(1) by auto
  have s0: "mem_set (r_line h1) 0 NUL = Ok ((junk_text al 4096)[0 := NUL])"
    using len by (simp add: h1(5) mem_set_def)
  have h2: "rq_add_line al h1 l = Ok (h1\<lparr>r_line := ?m\<rparr>)"
    using long_line_stored [OF len long(1)] l long(3)
    by (simp add: rq_add_line_def h1(4) fl s0 c0 LINE_BUFFER_SIZE_def)
  have "drop 4095 (junk_text al 4096) = [char_of_byte (junk al 4095)]"
    by (simp add: junk_text_def malloc_block_def drop_map)
  moreover have "char_of_byte (junk al 4095) \<noteq> NUL"
    using junk char_of_byte_inverse [of "junk al 4095"] by (auto simp: byte_of_char_def)
  ultimately have "NUL \<notin> set ?m"
    using long(2) by (auto simp: nul_free_def dest: in_set_takeD)
  then have c: "cstr ?m = Fault Out_Of_Bounds" by (simp add: cstr_def)
  have "rq_add_line al (h1\<lparr>r_line := ?m\<rparr>) next_line = Fault Out_Of_Bounds"
    using c h1(4) by (simp add: rq_add_line_def rq_flush_def Let_def)
  then show ?thesis using h1 h2 by auto
qed

section \<open>Witnesses\<close>

lemma sample_line:
  "tokens [CHR '' '', CHR 0x09] ''GET / HTTP/1.1'' = [''GET'', ''/'', ''HTTP/1.1'']"
  "nul_free ''GET / HTTP/1.1''" "CHR ''%'' \<notin> set ''GET / HTTP/1.1''" "length ''GET / HTTP/1.1'' < 4096"
  by (code_simp, simp_all)

theorem percent_header_faults_witness:
  "\<exists>h. rq_create zero_alloc = Ok (Some h)
     \<and> rq_add_lines zero_alloc [''GET / HTTP/1.1'', ''Host: a%n'', []] h = Fault Bad_Format"
proof -
  have "strcaseeq ''Host'' ''host''" "dropWhile isspace '' a%n'' = ''a'' @ CHR ''%'' # CHR ''n'' # []"
    "\<not> isspace (hd ''Host'')"
    by code_simp+
  then show ?thesis
    using percent_header_faults [OF generous_zero_alloc sample_line, of "''Host''" "'' a%n''" "''a''" "CHR ''n''" "[]"]
    by simp
qed

theorem connection_without_upgrade_faults_witness:
  "\<exists>h. rq_create zero_alloc = Ok (Some h)
     \<and> rq_add_lines zero_alloc [''GET / HTTP/1.1'', ''Connection: close'', []] h = Fault No_Return_Value"
proof -
  have "strcaseeq ''Connection'' ''connection''" "\<not> names_upgrade (field 64 '' close'')"
    "\<not> isspace (hd ''Connection'')"
    by code_simp+
  then show ?thesis
    using connection_without_upgrade_faults [OF generous_zero_alloc sample_line, of "''Connection''" "'' close''"]
    by simp
qed

theorem long_header_line_faults_witness:
  "\<exists>h. rq_create \<lparr>grant = (\<lambda>_. True), junk = (\<lambda>_. 65)\<rparr> = Ok (Some h)
     \<and> rq_add_lines \<lparr>grant = (\<lambda>_. True), junk = (\<lambda>_. 65)\<rparr>
         [''GET / HTTP/1.1'', replicate 5000 CHR ''x'', []] h = Fault Out_Of_Bounds"
proof -
  have "generous \<lparr>grant = (\<lambda>_. True), junk = (\<lambda>_. 65)\<rparr>" by (simp add: generous_def)
  moreover have "nul_free (replicate 5000 CHR ''x'')" by (simp add: nul_free_def)
  moreover have "\<not> isspace (hd (replicate 5000 CHR ''x''))" by (simp add: isspace_def)
  ultimately show ?thesis
    using long_header_line_faults [OF _ sample_line, of "\<lparr>grant = (\<lambda>_. True), junk = (\<lambda>_. 65)\<rparr>" "replicate 5000 CHR ''x''" "[]"]
    by simp
qed

end
