(* ===== verification/WsMemory.thy ===== *)
theory WsMemory
  imports WsStream
begin

text \<open>
  The receiver when memory runs out: every request of a buffer for a larger block may be refused, and which ones
  are may change from call to call. With small limits no call is undefined all the same, because a buffer that
  could not grow keeps its contents and the calls look at the answer.
\<close>

section \<open>Buffers\<close>

definition kept :: "buffer_t \<Rightarrow> buffer_t \<Rightarrow> bool" where
  "kept b b' \<longleftrightarrow> buf_ok b' \<and> b_max_length b' = b_max_length b \<and> b_capacity b \<le> b_capacity b'"

lemma kept_refl: "buf_ok b \<Longrightarrow> kept b b"
  by (simp add: kept_def)

lemma append_safe:
  assumes "buf_ok b" and "small_request b n" and "buf_room b n \<le> length src"
  shows "okP (\<lambda>(res, b'). kept b b') (buffer_append al b src n)"
proof (cases "b_max_length b = 0")
  case True
  then show ?thesis
    using buffer_append_unlimited [OF assms(1,2) _ True, of src al] assms(3) by (auto simp: buf_room_def appended_def kept_def okP_iff)
next
  case False
  then show ?thesis
    using buffer_append_limited [OF assms, of al] by (auto simp: appended_def kept_def okP_iff)
qed

lemma set_data_safe:
  assumes "buf_ok b" and "n + 1024 < SIZE_MOD" and "(if b_max_length b = 0 then n else min n (b_max_length b)) \<le> length src"
  shows "okP (\<lambda>(res, b'). kept b b') (buffer_set_data al b src n)"
proof -
  have "buf_ok (b\<lparr>b_length := 0\<rparr>)" using assms(1) by (simp add: buf_ok_def)
  from append_safe [OF this, of n src al] show ?thesis
    using assms(2,3) by (cases "b_max_length b = 0") (simp_all add: buffer_set_data_def small_request_def buf_room_def kept_def)
qed

lemma move_safe:
  assumes "buf_ok src" and "buf_ok dst" and "b_max_length dst = 0" and "b_length src + 1024 < SIZE_MOD"
  shows "okP (\<lambda>(res, src', dst'). kept src src' \<and> kept dst dst') (buffer_move al src dst)"
proof -
  have "okP (\<lambda>(res, b'). kept (buffer_clear dst) b') (buffer_append al (buffer_clear dst) (b_data src) (b_length src))"
    using append_safe [of "buffer_clear dst" "b_length src" "b_data src" al] assms buf_okD(1,2) [OF assms(1)]
    by (simp add: small_request_def buf_room_def)
  then show ?thesis using assms(1) by (auto simp: okP_iff buffer_move_def kept_def)
qed

section \<open>Frames\<close>

text \<open>The frame buffer is large enough for the largest header and the longest payload that is copied.\<close>

lemma frame_body_safe:
  assumes src: "buf_ok src" and buf: "buf_ok buffer" and ml: "ml < 2 ^ 32" and hl: "hl \<le> 10"
    and lim: "0 < b_max_length buffer" "14 + b_max_length buffer \<le> b_capacity src"
  shows "okP (\<lambda>(fs, src', buffer'). kept src src' \<and> kept buffer buffer') (frame_body al src buffer fin opcode masked ml hl)"
proof -
  let ?off = "if masked then hl + 4 else hl"
  have off: "?off \<le> 14" using hl by simp
  have fl: "size_add ?off ml = ?off + ml" using ml hl by (auto simp: size_add_def SIZE_MOD_def)
  have "min ml (b_max_length buffer) \<le> length (drop ?off (b_data src))"
    using lim off buf_okD(1) [OF src] by auto
  then have "okP (\<lambda>(res, b'). kept buffer b') (buffer_set_data al buffer (drop ?off (b_data src)) ml)"
    using set_data_safe [OF buf, of ml "drop ?off (b_data src)" al] ml lim(1) by (simp add: SIZE_MOD_def)
  then obtain res b1 where b1: "buffer_set_data al buffer (drop ?off (b_data src)) ml = Ok (res, b1)" "kept buffer b1"
    by (auto simp: okP_iff)
  show ?thesis
  proof (cases "res \<and> \<not> b_length src < ?off + ml")
    case True
    have bo: "buf_ok b1" using b1(2) by (simp add: kept_def)
    obtain src1 where s1: "buffer_remove_data src (?off + ml) = Ok src1" "kept src src1"
      using buffer_remove_data_ok [OF src, of "?off + ml"] True by (auto simp: kept_def)
    obtain p where p: "(if masked then unmask (b_data b1) (b_length b1) (drop hl (b_data src)) else Ok (b_data b1)) = Ok p"
      "buf_ok (b1\<lparr>b_data := p\<rparr>)"
      using frame_payload [OF src bo, of masked hl] True by (cases masked) auto
    have "frame_body al src buffer fin opcode masked ml hl = Ok (FS_READY fin opcode masked, src1, b1\<lparr>b_data := p\<rparr>)"
      using True b1(1) s1(1) p(1) unfolding frame_body_def Let_def fl by simp
    then show ?thesis using s1(2) p(2) b1(2) by (simp add: kept_def)
  next
    case False
    then show ?thesis
      using b1 kept_refl [OF src] unfolding frame_body_def Let_def fl by (cases res) auto
  qed
qed

lemma get_frame_safe:
  assumes src: "buf_ok src" and buf: "buf_ok buffer"
    and lim: "0 < b_max_length buffer" "14 + b_max_length buffer \<le> b_capacity src"
  shows "okP (\<lambda>(fs, src', buffer'). kept src src' \<and> kept buffer buffer') (get_frame al src buffer)"
proof -
  have get: "mem_get (b_data src) 0 = Ok (contents src ! 0)" "mem_get (b_data src) 1 = Ok (contents src ! 1)" if "2 \<le> b_length src"
    using that buf_okD [OF src] by (auto simp: mem_get_def nth_contents)
  consider (short) "\<not> 2 \<le> b_length src" | (reserved) "2 \<le> b_length src" "contents src ! 0 AND 0x70 \<noteq> 0"
    | (cut) "2 \<le> b_length src" "contents src ! 0 AND 0x70 = 0" "parse_header (contents src) = None"
    | (header) ml hl where "2 \<le> b_length src" "contents src ! 0 AND 0x70 = 0" "parse_header (contents src) = Some (ml, hl)"
    by (metis option.exhaust surj_pair)
  then show ?thesis
  proof cases
    case header
    note g = get_frame_header [OF src header]
    show ?thesis unfolding g(1) by (rule frame_body_safe [OF src buf g(2,3) lim])
  qed (use get frame_header_contents [OF src] kept_refl [OF src] kept_refl [OF buf] in \<open>auto simp: get_frame_def\<close>)
qed

section \<open>Calls of the receiver\<close>

text \<open>The invariant that survives refusals: the buffers are well-formed, have their limits, and the frame buffer is
  large enough.\<close>

definition rcv_safe :: "nat \<Rightarrow> nat \<Rightarrow> wsmsg_t \<Rightarrow> bool" where
  "rcv_safe lim mlim w \<longleftrightarrow> wsmsg_ok lim mlim w \<and> 14 + lim \<le> b_capacity (w_frame_buffer w)"

lemma rcv_safe_kept:
  assumes "rcv_safe lim mlim w" and "kept (w_frame_buffer w) (w_frame_buffer w')" and "kept (w_frame_data w) (w_frame_data w')"
    and "kept (w_message_buffer w) (w_message_buffer w')"
  shows "rcv_safe lim mlim w'"
  using assms by (auto simp: rcv_safe_def wsmsg_ok_def kept_def)

lemma rcv_safe_flags [simp]:
  "rcv_safe lim mlim (w\<lparr>w_error := b\<rparr>) \<longleftrightarrow> rcv_safe lim mlim w"
  "rcv_safe lim mlim (w\<lparr>w_frame := b\<rparr>) \<longleftrightarrow> rcv_safe lim mlim w"
  "rcv_safe lim mlim (w\<lparr>w_fin := b\<rparr>) \<longleftrightarrow> rcv_safe lim mlim w"
  "rcv_safe lim mlim (w\<lparr>w_mask := b\<rparr>) \<longleftrightarrow> rcv_safe lim mlim w"
  "rcv_safe lim mlim (w\<lparr>w_message := b\<rparr>) \<longleftrightarrow> rcv_safe lim mlim w"
  "rcv_safe lim mlim (w\<lparr>w_message_started := b\<rparr>) \<longleftrightarrow> rcv_safe lim mlim w"
  "rcv_safe lim mlim (w\<lparr>w_opcode := n\<rparr>) \<longleftrightarrow> rcv_safe lim mlim w"
  "rcv_safe lim mlim (w\<lparr>w_message_opcode := n\<rparr>) \<longleftrightarrow> rcv_safe lim mlim w"
  by (simp_all add: rcv_safe_def wsmsg_ok_def)

text \<open>Limits the receiver can keep.\<close>

definition small_limits :: "nat \<Rightarrow> nat \<Rightarrow> bool" where
  "small_limits lim mlim \<longleftrightarrow> 0 < lim \<and> lim \<le> 114 \<and> 0 < mlim \<and> int mlim \<le> INT_MAX"

lemma rcv_lengths:
  assumes "rcv_safe lim mlim w" and "small_limits lim mlim"
  shows "b_length (w_frame_buffer w) \<le> 2 * lim" "b_length (w_frame_data w) \<le> lim" "b_length (w_message_buffer w) \<le> mlim"
  using assms buf_length_max by (fastforce simp: rcv_safe_def wsmsg_ok_def small_limits_def)+

lemma wsmsg_step_safe:
  assumes w: "rcv_safe lim mlim w" and l: "small_limits lim mlim"
  shows "okP (\<lambda>(again, w'). rcv_safe lim mlim w') (wsmsg_step al w)"
proof -
  have b: "buf_ok (w_frame_buffer w)" "buf_ok (w_frame_data w)" "buf_ok (w_message_buffer w)" "b_max_length (w_frame_data w) = lim"
    "14 + lim \<le> b_capacity (w_frame_buffer w)"
    using w by (auto simp: rcv_safe_def wsmsg_ok_def)
  obtain fs fb fd where g: "get_frame al (w_frame_buffer w) (w_frame_data w) = Ok (fs, fb, fd)"
    "kept (w_frame_buffer w) fb" "kept (w_frame_data w) fd"
    using get_frame_safe [OF b(1,2), of al] b(4,5) l by (auto simp: okP_iff small_limits_def)
  let ?w = "w\<lparr>w_frame_buffer := fb, w_frame_data := fd\<rparr>"
  have ws: "rcv_safe lim mlim ?w" using rcv_safe_kept [OF w, of ?w] g(2,3) kept_refl [OF b(3)] by simp
  have fd: "buf_ok fd" "b_length fd \<le> lim" using g(3) rcv_lengths(2) [OF ws l] by (auto simp: kept_def)
  have "small_request (w_message_buffer w) (b_length fd)" "buf_room (w_message_buffer w) (b_length fd) \<le> length (b_data fd)"
    using rcv_lengths(3) [OF w l] fd(2) l buf_okD(1,2) [OF fd(1)]
    by (auto simp: small_request_def small_limits_def INT_MAX_def SIZE_MOD_def buf_room_def)
  then obtain res mb where mb: "buffer_append al (w_message_buffer w) (b_data fd) (b_length fd) = Ok (res, mb)"
    "kept (w_message_buffer w) mb"
    using append_safe [OF b(3), of "b_length fd" "b_data fd" al] by (auto simp: okP_iff)
  obtain fd' where fd': "buffer_remove_data fd (b_length fd) = Ok fd'" "kept fd fd'"
    using buffer_remove_data_ok [OF fd(1), of "b_length fd"] by (auto simp: kept_def)
  have "rcv_safe lim mlim u" if "w_frame_buffer u = fb" "w_frame_data u = fd \<or> w_frame_data u = fd'" "w_message_buffer u = mb" for u
    using rcv_safe_kept [OF ws, of u] that mb(2) fd'(2) g(2,3) by (auto simp: kept_def)
  then show ?thesis
    using g(1) ws mb(1) fd'(1) by (cases fs) (auto simp: wsmsg_step_def Let_def)
qed

lemma wsmsg_process_safe:
  assumes "rcv_safe lim mlim w" and l: "small_limits lim mlim"
  shows "okP (rcv_safe lim mlim) (wsmsg_process al w)"
proof -
  have "okP (rcv_safe lim mlim) (wsmsg_process_loop al w)"
    using assms(1)
  proof (induction "b_length (w_frame_buffer w)" arbitrary: w rule: less_induct)
    case less
    obtain again w1 where w1: "wsmsg_step al w = Ok (again, w1)" "rcv_safe lim mlim w1"
      using wsmsg_step_safe [OF less.prems l, of al] by (auto simp: okP_iff)
    then show ?case
      using less.hyps [OF wsmsg_step_again_shrinks] by (cases again) (auto simp: wsmsg_process_loop.simps [of al w])
  qed
  then show ?thesis using assms(1) by (simp add: wsmsg_process_def)
qed

lemma do_op_safe:
  assumes w: "rcv_safe lim mlim w" and l: "small_limits lim mlim" and dst: "buf_ok dst" "b_max_length dst = 0" and x: "add_small x"
  shows "okP (\<lambda>(out, w', dst'). rcv_safe lim mlim w' \<and> buf_ok dst' \<and> b_max_length dst' = 0) (do_op al x (w, dst))"
proof -
  have b: "buf_ok (w_frame_buffer w)" "buf_ok (w_frame_data w)" "buf_ok (w_message_buffer w)"
    using w by (auto simp: rcv_safe_def wsmsg_ok_def)
  note len = rcv_lengths [OF w l] and lim = l [unfolded small_limits_def]
  show ?thesis
  proof (cases x)
    case (Add xs)
    have "small_request (w_frame_buffer w) (length xs)" "buf_room (w_frame_buffer w) (length xs) \<le> length xs"
      using len(1) lim x Add by (auto simp: small_request_def SIZE_MOD_def buf_room_def)
    then obtain res fb where fb: "buffer_append al (w_frame_buffer w) xs (length xs) = Ok (res, fb)" "kept (w_frame_buffer w) fb"
      using append_safe [OF b(1), of "length xs" xs al] by (auto simp: okP_iff)
    have "rcv_safe lim mlim (w\<lparr>w_frame_buffer := fb\<rparr>)" using rcv_safe_kept [OF w] fb(2) kept_refl b by simp
    then show ?thesis
      using fb(1) wsmsg_process_safe [OF _ l, of "w\<lparr>w_frame_buffer := fb\<rparr>" al] dst Add by (auto simp: wsmsg_add_def okP_iff)
  next
    case Get_message
    obtain res mb d where m: "buffer_move al (w_message_buffer w) dst = Ok (res, mb, d)" "kept (w_message_buffer w) mb" "kept dst d"
      using move_safe [OF b(3) dst, of al] len(3) lim by (auto simp: okP_iff SIZE_MOD_def INT_MAX_def)
    have "rcv_safe lim mlim (w\<lparr>w_message := False, w_message_started := False, w_message_buffer := mb\<rparr>)"
      using rcv_safe_kept [OF w] m(2) kept_refl b by simp
    from wsmsg_process_safe [OF this l, of al] show ?thesis
      using m w dst Get_message by (auto simp: wsmsg_get_message_def okP_iff kept_def)
  next
    case Get_frame
    obtain res fd d where m: "buffer_move al (w_frame_data w) dst = Ok (res, fd, d)" "kept (w_frame_data w) fd" "kept dst d"
      using move_safe [OF b(2) dst, of al] len(2) lim by (auto simp: okP_iff SIZE_MOD_def INT_MAX_def)
    have "rcv_safe lim mlim (w\<lparr>w_frame := False, w_frame_data := fd\<rparr>)"
      using rcv_safe_kept [OF w] m(2) kept_refl b by simp
    from wsmsg_process_safe [OF this l, of al] show ?thesis
      using m w dst Get_frame by (auto simp: wsmsg_get_frame_def okP_iff kept_def)
  qed
qed

text \<open>A run in which every call has its own allocator.\<close>

fun run_refused :: "(allocator \<times> wsop) list \<Rightarrow> wsmsg_t \<times> buffer_t \<Rightarrow> (wsout list \<times> wsmsg_t \<times> buffer_t) cres" where
  "run_refused [] s = Ok ([], s)"
| "run_refused ((al, x) # xs) s =
     bindr (do_op al x s) (\<lambda>(out, s'). bindr (run_refused xs s') (\<lambda>(outs, s''). Ok (out # outs, s'')))"

lemma run_refused_safe:
  assumes "rcv_safe lim mlim w" and "small_limits lim mlim" and "buf_ok dst" "b_max_length dst = 0"
    and "\<forall>(al, x) \<in> set ops. add_small x"
  shows "okP (\<lambda>(outs, w', dst'). length outs = length ops \<and> rcv_safe lim mlim w') (run_refused ops (w, dst))"
  using assms
proof (induction ops arbitrary: w dst)
  case (Cons ax ops)
  obtain al x where ax: "ax = (al, x)" by fastforce
  obtain out w1 dst1 where s: "do_op al x (w, dst) = Ok (out, w1, dst1)" "rcv_safe lim mlim w1" "buf_ok dst1" "b_max_length dst1 = 0"
    using do_op_safe [OF Cons.prems(1-4), of x al] Cons.prems(5) ax by (auto simp: okP_iff)
  then show ?case using Cons.IH [OF s(2) Cons.prems(2) s(3,4)] Cons.prems(5) ax by (auto simp: okP_iff)
qed simp

text \<open>C9: a receiver with small limits is never undefined when memory runs out. Whatever the allocator of the moment
  refuses, at its creation or in any call, and whatever bytes arrive in whatever pieces, the creation gives a
  receiver or none and every call on it runs to its end and answers, with all buffers well-formed and inside
  their limits.\<close>

theorem receiver_survives_refusals:
  assumes "cf_max_frame_size conf = int lim" and "14 \<le> lim" and "lim \<le> 114"
    and "cf_max_message_size conf = int mlim" and "0 < mlim" and "int mlim \<le> INT_MAX"
    and "buf_ok dst" and "b_max_length dst = 0" and "\<forall>(al, x) \<in> set ops. add_small x"
  shows "wsmsg_create al0 conf = Ok None
     \<or> (\<exists>w outs w' dst'. wsmsg_create al0 conf = Ok (Some w) \<and> run_refused ops (w, dst) = Ok (outs, w', dst')
          \<and> length outs = length ops \<and> wsmsg_ok lim mlim w')"
proof -
  have l: "small_limits lim mlim" using assms(2-6) by (simp add: small_limits_def)
  have sz: "size_of_int (2 * int lim) = 2 * lim" "size_of_int (int lim) = lim" "size_of_int (int mlim) = mlim" "in_int_range (2 * int lim)"
    using assms(3,6) by (simp_all add: size_of_int_def SIZE_MOD_def INT_MAX_def in_int_range_def)
  have lt: "2 * lim < SIZE_MOD" "lim < SIZE_MOD" "mlim < SIZE_MOD" using assms(3,6) by (simp_all add: SIZE_MOD_def INT_MAX_def)
  show ?thesis
  proof (cases "wsmsg_create al0 conf = Ok None")
    case False
    then obtain w fb mb fd where w: "wsmsg_create al0 conf = Ok (Some w)" "w_frame_buffer w = fb" "w_message_buffer w = mb" "w_frame_data w = fd"
      "buffer_create al0 (2 * lim) = Some fb" "buffer_create al0 mlim = Some mb" "buffer_create al0 lim = Some fd"
      using assms(1,4) sz by (auto simp: wsmsg_create_def split: if_split_asm option.split_asm)
    have "wsmsg_ok lim mlim w"
      using buffer_create_ok [OF w(5) lt(1)] buffer_create_ok [OF w(6) lt(3)] buffer_create_ok [OF w(7) lt(2)] w(2-4)
      by (simp add: wsmsg_ok_def)
    moreover have "b_capacity fb = min 128 (2 * lim)"
      using w(5) assms(2) by (auto simp: buffer_create_def Let_def INIT_BUFFER_SIZE_def split: if_split_asm)
    ultimately have "rcv_safe lim mlim w" using w(2) assms(2,3) by (simp add: rcv_safe_def)
    from run_refused_safe [OF this l assms(7-9)] show ?thesis using w(1) by (auto simp: okP_iff rcv_safe_def)
  qed simp
qed

text \<open>An allocator that has nothing left: the receiver cannot take a long message, and says so.\<close>

definition no_alloc :: allocator where
  "no_alloc = zero_alloc\<lparr>grant := (\<lambda>_. False)\<rparr>"

definition scarce_ops :: "(allocator \<times> wsop) list" where
  "scarce_ops = [(no_alloc, Add (replicate 150 0x81)), (zero_alloc, Add [0x81, 0x85]), (no_alloc, Get_message)]"

lemma scarce_ops_small: "\<forall>(al, x) \<in> set scarce_ops. add_small x" "length scarce_ops = 3"
  by (simp_all add: scarce_ops_def)

theorem receiver_survives_refusals_witness:
  "\<exists>w outs w' dst'. wsmsg_create zero_alloc limited_conf = Ok (Some w)
     \<and> run_refused scarce_ops (w, fresh_dst) = Ok (outs, w', dst')
     \<and> length outs = 3 \<and> wsmsg_ok 100 1000 w'"
proof -
  have c: "cf_max_frame_size limited_conf = int 100" "cf_max_message_size limited_conf = int 1000" "int 1000 \<le> INT_MAX"
    by (simp_all add: limited_conf_def INT_MAX_def)
  have d: "buf_ok fresh_dst" "b_max_length fresh_dst = 0" using buffer_create_ok [OF fresh_dst_created] by auto
  from receiver_survives_refusals [OF c(1) _ _ c(2) _ c(3) d scarce_ops_small(1), of zero_alloc]
  have "wsmsg_create zero_alloc limited_conf = Ok None \<or> ?thesis" by (simp add: scarce_ops_small(2))
  moreover have "wsmsg_create zero_alloc limited_conf \<noteq> Ok None"
    using wsmsg_create_ok [of zero_alloc limited_conf 100 1000] by (auto simp: limited_conf_def INT_MAX_def)
  ultimately show ?thesis by blast
qed

end
