(* ===== verification/Heap_Blocks.thy ===== *)
theory Heap_Blocks
  imports Jab_Prelude "HOL-Library.Finite_Map"
begin

text \<open>
  The heap as a finite map of live blocks, for the functions that create and free objects. An address is a
  number, 0 is the null pointer, and addresses are never handed out twice, so a dangling pointer stays one. A
  block holds the pointers of its structure; everything else in it is of no concern here. What an object owns is
  the list of the blocks its deletion has to free, in that order.
\<close>

section \<open>Blocks\<close>

type_synonym addr = nat

record wsmsg_h =
  hw_frame_buffer :: addr
  hw_frame_data :: addr
  hw_message_buffer :: addr

record request_h =
  hq_line :: addr
  hq_protocols_head :: addr

record frame_h =
  hn_index :: int
  hn_size :: int
  hn_next :: addr

record framer_h =
  hf_parser :: addr
  hf_head :: addr
  hf_tail :: addr
  hf_buffer :: addr

record streamparser_h =
  hp_parser :: addr
  hp_server :: addr

record cmanager_h =
  hm_parser :: addr
  hm_server :: addr
  hm_bev :: addr
  hm_dnsbase :: addr
  hm_buffer :: addr
  hm_framer :: addr

record wsconn_h =
  hc_bev :: addr
  hc_req :: addr
  hc_wsmsg :: addr
  hc_message_buffer :: addr
  hc_cb :: bool
  hc_custom_ctx :: addr

record origin_h =
  ho_url :: addr
  ho_next :: addr

record jsconf_h =
  hj_port :: addr
  hj_origin_list :: addr
  hj_cidr :: addr
  hj_host :: addr
  hj_resource :: addr

text \<open>\<open>Raw\<close> is an array, a string or an object of a library; \<open>Node\<close> an element of the list of
  protocols, with its pointer to the next.\<close>

datatype cell = Raw | Buffer_Cell addr | Node addr | Frame_Cell frame_h | Wsmsg_Cell wsmsg_h | Request_Cell request_h | Framer_Cell framer_h
  | Parser_Cell streamparser_h | Manager_Cell cmanager_h | Conn_Cell wsconn_h | Server_Cell addr
  | Origin_Cell origin_h | Conf_Cell jsconf_h

fun as_buffer :: "cell \<Rightarrow> addr option" where "as_buffer (Buffer_Cell d) = Some d" | "as_buffer _ = None"
fun as_node :: "cell \<Rightarrow> addr option" where
  "as_node (Node q) = Some q" | "as_node (Frame_Cell f) = Some (hn_next f)" | "as_node _ = None"
fun as_frame :: "cell \<Rightarrow> frame_h option" where "as_frame (Frame_Cell f) = Some f" | "as_frame _ = None"
fun as_wsmsg :: "cell \<Rightarrow> wsmsg_h option" where "as_wsmsg (Wsmsg_Cell w) = Some w" | "as_wsmsg _ = None"
fun as_request :: "cell \<Rightarrow> request_h option" where "as_request (Request_Cell q) = Some q" | "as_request _ = None"
fun as_framer :: "cell \<Rightarrow> framer_h option" where "as_framer (Framer_Cell f) = Some f" | "as_framer _ = None"
fun as_parser :: "cell \<Rightarrow> streamparser_h option" where "as_parser (Parser_Cell s) = Some s" | "as_parser _ = None"
fun as_manager :: "cell \<Rightarrow> cmanager_h option" where "as_manager (Manager_Cell c) = Some c" | "as_manager _ = None"
fun as_conn :: "cell \<Rightarrow> wsconn_h option" where "as_conn (Conn_Cell c) = Some c" | "as_conn _ = None"
fun as_server :: "cell \<Rightarrow> addr option" where "as_server (Server_Cell l) = Some l" | "as_server _ = None"
fun as_origin :: "cell \<Rightarrow> origin_h option" where "as_origin (Origin_Cell r) = Some r" | "as_origin _ = None"
fun as_conf :: "cell \<Rightarrow> jsconf_h option" where "as_conf (Conf_Cell j) = Some j" | "as_conf _ = None"

section \<open>The heap\<close>

text \<open>\<open>brk\<close> is the address of the next block.\<close>

record mem =
  blocks :: "(addr, cell) fmap"
  brk :: addr

definition mem_ok :: "mem \<Rightarrow> bool" where
  "mem_ok m \<longleftrightarrow> 0 < brk m \<and> (\<forall>p \<in> fmdom' (blocks m). 0 < p \<and> p < brk m)"

text \<open>Whether the request for the block at an address is granted is decided by \<open>g\<close>.\<close>

definition malloc :: "(addr \<Rightarrow> bool) \<Rightarrow> cell \<Rightarrow> mem \<Rightarrow> addr \<times> mem" where
  "malloc g c m =
     (if g (brk m) then (brk m, m\<lparr>blocks := fmupd (brk m) c (blocks m), brk := Suc (brk m)\<rparr>)
      else (0, m\<lparr>brk := Suc (brk m)\<rparr>))"

definition free :: "addr \<Rightarrow> mem \<Rightarrow> mem cres" where
  "free p m =
     (if p = 0 then Ok m
      else if fmlookup (blocks m) p \<noteq> None then Ok (m\<lparr>blocks := fmdrop p (blocks m)\<rparr>)
      else Fault Use_After_Free)"

text \<open>Following a pointer to a structure, and writing to one.\<close>

definition load :: "(cell \<Rightarrow> 'a option) \<Rightarrow> addr \<Rightarrow> mem \<Rightarrow> 'a cres" where
  "load as p m =
     (if p = 0 then Fault Null_Pointer
      else case Option.bind (fmlookup (blocks m) p) as of None \<Rightarrow> Fault Use_After_Free | Some x \<Rightarrow> Ok x)"

definition store :: "cell \<Rightarrow> addr \<Rightarrow> mem \<Rightarrow> mem cres" where
  "store c p m =
     (if p = 0 then Fault Null_Pointer
      else if fmlookup (blocks m) p \<noteq> None then Ok (m\<lparr>blocks := fmupd p c (blocks m)\<rparr>)
      else Fault Use_After_Free)"

definition release :: "addr set \<Rightarrow> mem \<Rightarrow> mem" where
  "release A m = m\<lparr>blocks := fmdrop_set A (blocks m)\<rparr>"

definition live :: "addr \<Rightarrow> mem \<Rightarrow> bool" where
  "live p m \<longleftrightarrow> p \<noteq> 0 \<and> fmlookup (blocks m) p \<noteq> None"

lemma release_release [simp]: "release A (release B m) = release (A \<union> B) m"
  by (simp add: release_def)

lemma release_empty [simp]: "release {} m = m"
  by (simp add: release_def)

lemma lookup_release [simp]: "fmlookup (blocks (release A m)) p = (if p \<in> A then None else fmlookup (blocks m) p)"
  by (simp add: release_def)

lemma live_release [simp]: "live p (release A m) \<longleftrightarrow> live p m \<and> p \<notin> A"
  by (simp add: live_def)

lemma free_live: "live p m \<Longrightarrow> free p m = Ok (release {p} m)"
  by (simp add: live_def free_def release_def)

lemma free_null [simp]: "free 0 m = Ok m"
  by (simp add: free_def)

lemma load_release: "p \<notin> A \<Longrightarrow> load as p (release A m) = load as p m"
  by (simp add: load_def)

lemma load_eq_Ok: "load as p m = Ok x \<longleftrightarrow> p \<noteq> 0 \<and> (\<exists>c. fmlookup (blocks m) p = Some c \<and> as c = Some x)"
  by (auto simp: load_def split: option.split bind_splits)

lemma load_live: "load as p m = Ok x \<Longrightarrow> live p m"
  by (auto simp: load_eq_Ok live_def)

section \<open>Objects\<close>

text \<open>Writing a structure, as a change of the heap.\<close>

definition put :: "addr \<Rightarrow> cell \<Rightarrow> mem \<Rightarrow> mem" where
  "put p c m = m\<lparr>blocks := fmupd p c (blocks m)\<rparr>"

lemma lookup_put [simp]: "fmlookup (blocks (put p c m)) q = (if q = p then Some c else fmlookup (blocks m) q)"
  by (simp add: put_def)

lemma put_twice [simp]: "put p c (put p d m) = put p c m"
  by (simp add: put_def)

lemma release_put: "release A (put p c m) = (if p \<in> A then release A m else put p c (release A m))"
proof -
  have "fmdrop_set A (fmupd p c h) = (if p \<in> A then fmdrop_set A h else fmupd p c (fmdrop_set A h))" for h
    by (auto intro!: fmap_ext)
  then show ?thesis by (simp add: release_def put_def)
qed

lemma put_same: "fmlookup (blocks m) p = Some c \<Longrightarrow> put p c m = m"
proof -
  assume "fmlookup (blocks m) p = Some c"
  then have "fmupd p c (blocks m) = blocks m" by (auto intro!: fmap_ext)
  then show ?thesis by (simp add: put_def)
qed

lemma store_put: "p \<noteq> 0 \<Longrightarrow> fmlookup (blocks m) p \<noteq> None \<Longrightarrow> store c p m = Ok (put p c m)"
  by (simp add: store_def put_def)

text \<open>An object is laid out at an address and owns some blocks. What happens to other blocks does not touch it,
  and its deletion frees its blocks, each of them once, and nothing else.\<close>

definition agree :: "addr set \<Rightarrow> mem \<Rightarrow> mem \<Rightarrow> bool" where
  "agree B m m' \<longleftrightarrow> (\<forall>b \<in> B. fmlookup (blocks m') b = fmlookup (blocks m) b)"

lemma agree_release: "B \<inter> A = {} \<Longrightarrow> agree B m (release A m)"
  by (auto simp: agree_def)

lemma agree_put: "p \<notin> B \<Longrightarrow> agree B m (put p c m)"
  by (auto simp: agree_def)

lemma agree_mono: "agree B m m' \<Longrightarrow> B' \<subseteq> B \<Longrightarrow> agree B' m m'"
  by (auto simp: agree_def)

locale heap_object =
  fixes at :: "addr \<Rightarrow> addr list \<Rightarrow> mem \<Rightarrow> bool" and delete :: "addr \<Rightarrow> mem \<Rightarrow> mem cres"
  assumes owned: "at p bs m \<Longrightarrow> p \<in> set bs \<and> distinct bs \<and> (\<forall>b \<in> set bs. live b m)"
    and elsewhere: "at p bs m \<Longrightarrow> agree (set bs) m m' \<Longrightarrow> at p bs m'"
    and deleted: "at p bs m \<Longrightarrow> delete p m = Ok (release (set bs) m)"

text \<open>A pointer to an object that may be null.\<close>

definition opt_at :: "(addr \<Rightarrow> addr list \<Rightarrow> mem \<Rightarrow> bool) \<Rightarrow> addr \<Rightarrow> addr list \<Rightarrow> mem \<Rightarrow> bool" where
  "opt_at at p bs m \<longleftrightarrow> (if p = 0 then bs = [] else at p bs m)"

text \<open>\<open>if (x->field != NULL) delete(x->field);\<close>, the same for \<open>free\<close>, which needs no test, and with \<open>x->field = NULL\<close>
  behind it.\<close>

definition delete_field ::
  "(cell \<Rightarrow> 'r option) \<Rightarrow> ('r \<Rightarrow> addr) \<Rightarrow> (addr \<Rightarrow> mem \<Rightarrow> mem cres) \<Rightarrow> addr \<Rightarrow> mem \<Rightarrow> mem cres" where
  "delete_field as fld delete p m =
     bindr (load as p m) (\<lambda>x. if fld x \<noteq> 0 then delete (fld x) m else Ok m)"

definition free_field :: "(cell \<Rightarrow> 'r option) \<Rightarrow> ('r \<Rightarrow> addr) \<Rightarrow> addr \<Rightarrow> mem \<Rightarrow> mem cres" where
  "free_field as fld p m = bindr (load as p m) (\<lambda>x. free (fld x) m)"

lemma free_field_eq: "free_field as fld = delete_field as fld free"
  by (auto simp: free_field_def delete_field_def fun_eq_iff intro!: bindr_cong)

definition clear_field ::
  "(cell \<Rightarrow> 'r option) \<Rightarrow> ('r \<Rightarrow> cell) \<Rightarrow> ('r \<Rightarrow> addr) \<Rightarrow> ('r \<Rightarrow> 'r) \<Rightarrow> (addr \<Rightarrow> mem \<Rightarrow> mem cres) \<Rightarrow> addr \<Rightarrow> mem \<Rightarrow> mem cres" where
  "clear_field as mk fld clear delete p m =
     bindr (load as p m) (\<lambda>x.
     if fld x \<noteq> 0 then bindr (delete (fld x) m) (\<lambda>m'. bindr (load as p m') (\<lambda>x'. store (mk (clear x')) p m')) else Ok m)"

context heap_object
begin

lemma opt_owned: "opt_at at p bs m \<Longrightarrow> distinct bs \<and> (\<forall>b \<in> set bs. live b m)"
  using owned by (auto simp: opt_at_def split: if_split_asm)

lemma opt_elsewhere: "opt_at at p bs m \<Longrightarrow> agree (set bs) m m' \<Longrightarrow> opt_at at p bs m'"
  using elsewhere by (auto simp: opt_at_def split: if_split_asm)

lemma opt_deleted: "opt_at at p bs m \<Longrightarrow> (if p \<noteq> 0 then delete p m else Ok m) = Ok (release (set bs) m)"
  using deleted by (auto simp: opt_at_def split: if_split_asm)

text \<open>The fields of a structure one after the other: \<open>A\<close> is what has been freed before.\<close>

lemma delete_field_eq:
  assumes "load as p m = Ok x" and "opt_at at (fld x) bs m" and "p \<notin> A" and "set bs \<inter> A = {}"
  shows "delete_field as fld delete p (release A m) = Ok (release (set bs \<union> A) m)"
  using opt_deleted [OF opt_elsewhere [OF assms(2) agree_release [OF assms(4)]]] assms(1,3)
  by (simp add: delete_field_def load_release)

lemma clear_field_eq:
  assumes "opt_at at (fld x) bs m" and "p \<noteq> 0" and "p \<notin> set bs \<union> A" and "set bs \<inter> A = {}"
    and "\<And>y. as (mk y) = Some y" and "fld x = 0 \<Longrightarrow> clear x = x"
  shows "clear_field as mk fld clear delete p (put p (mk x) (release A m)) = Ok (put p (mk (clear x)) (release (set bs \<union> A) m))"
proof -
  have "agree (set bs) m (put p (mk x) (release A m))" using assms(3,4) by (auto simp: agree_def)
  then have d: "(if fld x \<noteq> 0 then delete (fld x) (put p (mk x) (release A m)) else Ok (put p (mk x) (release A m)))
      = Ok (put p (mk x) (release (set bs \<union> A) m))"
    using opt_deleted [OF opt_elsewhere [OF assms(1)]] assms(3) by (simp add: release_put)
  have l: "load as p (put p (mk x) m') = Ok x" for m' using assms(2,5) by (simp add: load_def)
  show ?thesis
    using d l assms(1,2,6) by (cases "fld x = 0") (simp_all add: clear_field_def store_put opt_at_def)
qed

end

text \<open>Arrays and strings.\<close>

definition raw_at :: "addr \<Rightarrow> addr list \<Rightarrow> mem \<Rightarrow> bool" where
  "raw_at p bs m \<longleftrightarrow> bs = [p] \<and> p \<noteq> 0 \<and> fmlookup (blocks m) p = Some Raw"

interpretation raw: heap_object raw_at free
  by unfold_locales (auto simp: raw_at_def live_def free_live agree_def)

text \<open>Objects of a library are single blocks that its destructor gives back; \<open>XML_ParserFree\<close> takes a null pointer.\<close>

record destructors =
  XML_ParserFree :: "addr \<Rightarrow> mem \<Rightarrow> mem cres"
  bufferevent_free :: "addr \<Rightarrow> mem \<Rightarrow> mem cres"
  evdns_base_free :: "addr \<Rightarrow> mem \<Rightarrow> mem cres"
  evconnlistener_free :: "addr \<Rightarrow> mem \<Rightarrow> mem cres"

definition gives_back :: "(addr \<Rightarrow> mem \<Rightarrow> mem cres) \<Rightarrow> bool" where
  "gives_back d \<longleftrightarrow> (\<forall>p m. raw_at p [p] m \<longrightarrow> d p m = Ok (release {p} m))"

definition library_ok :: "destructors \<Rightarrow> bool" where
  "library_ok l \<longleftrightarrow> gives_back (XML_ParserFree l) \<and> (\<forall>m. XML_ParserFree l 0 m = Ok m) \<and> gives_back (bufferevent_free l) \<and> gives_back (evdns_base_free l)
     \<and> gives_back (evconnlistener_free l)"

lemma library_object: "gives_back d \<Longrightarrow> heap_object raw_at d"
  by unfold_locales (auto simp: gives_back_def raw_at_def live_def agree_def)

section \<open>Lists\<close>

text \<open>\<open>while (current != NULL) { next = current->next; free(current); current = next; }\<close>\<close>

lemma free_shrinks: "free p m = Ok m' \<Longrightarrow> p \<noteq> 0 \<Longrightarrow> card (fmdom' (blocks m')) < card (fmdom' (blocks m))"
  by (auto simp: free_def fmdom'_drop fmlookup_dom'_iff intro!: psubset_card_mono split: if_split_asm)

lemma free_no_growth: "free p m = Ok m' \<Longrightarrow> card (fmdom' (blocks m')) \<le> card (fmdom' (blocks m))"
  by (auto simp: free_def fmdom'_drop intro!: card_mono split: if_split_asm)

function free_list :: "addr \<Rightarrow> mem \<Rightarrow> mem cres" where
  "free_list current m =
     (if current = 0 then Ok m
      else bindr (load as_node current m) (\<lambda>nxt. bindr (free current m) (\<lambda>m'. free_list nxt m')))"
  by pat_completeness auto
termination
  by (relation "measure (\<lambda>(p, m). card (fmdom' (blocks m)))") (auto dest: free_shrinks)

declare free_list.simps [simp del]

fun chain :: "addr \<Rightarrow> addr list \<Rightarrow> mem \<Rightarrow> bool" where
  "chain p [] m \<longleftrightarrow> p = 0"
| "chain p (b # bs) m \<longleftrightarrow> p = b \<and> (\<exists>q. load as_node p m = Ok q \<and> chain q bs m)"

lemma chain_live: "chain p bs m \<Longrightarrow> b \<in> set bs \<Longrightarrow> live b m"
  by (induction bs arbitrary: p) (auto dest: load_live)

lemma chain_elsewhere: "chain p bs m \<Longrightarrow> agree (set bs) m m' \<Longrightarrow> chain p bs m'"
  by (induction bs arbitrary: p) (auto simp: agree_def load_eq_Ok)

lemma free_list_chain: "chain p bs m \<Longrightarrow> distinct bs \<Longrightarrow> free_list p m = Ok (release (set bs) m)"
proof (induction bs arbitrary: p m)
  case (Cons b bs)
  then obtain q where q: "p = b" "load as_node p m = Ok q" "chain q bs m" "p \<noteq> 0" by (auto simp: load_eq_Ok)
  then have "chain q bs (release {b} m)" using Cons.prems(2) chain_elsewhere agree_release by simp
  then show ?case
    using Cons.IH [of q "release {b} m"] Cons.prems(2) q load_live [OF q(2)]
    by (simp add: free_list.simps [of b] free_live)
qed (simp add: free_list.simps)

end
