(* ===== verification/Dealloc.thy ===== *)
theory Dealloc
  imports Heap_Blocks
begin

text \<open>
  The functions that free objects, on the heap of blocks: which blocks they free, in which order, and that they
  free none twice and follow no dangling pointer. The library's destructors are arguments.
\<close>

section \<open>Buffers, receivers and requests\<close>

definition buffer_delete :: "addr \<Rightarrow> mem \<Rightarrow> mem cres" where
  "buffer_delete buffer m = bindr (load as_buffer buffer m) (\<lambda>d. bindr (free d m) (\<lambda>m1. free buffer m1))"

definition wsmsg_delete :: "addr \<Rightarrow> mem \<Rightarrow> mem cres" where
  "wsmsg_delete wsmsg m =
     (if wsmsg = 0 then Ok m
      else
        bindr (delete_field as_wsmsg hw_frame_data buffer_delete wsmsg m) (\<lambda>m1.
        bindr (delete_field as_wsmsg hw_message_buffer buffer_delete wsmsg m1) (\<lambda>m2.
        bindr (delete_field as_wsmsg hw_frame_buffer buffer_delete wsmsg m2) (\<lambda>m3.
        free wsmsg m3))))"

text \<open>\<open>rq_delete\<close> frees the list of protocols and the request, and not the line.\<close>

definition rq_delete :: "addr \<Rightarrow> mem \<Rightarrow> mem cres" where
  "rq_delete h m = bindr (load as_request h m) (\<lambda>q. bindr (free_list (hq_protocols_head q) m) (\<lambda>m1. free h m1))"

section \<open>Parsers and framers\<close>

definition streamparser_delete :: "destructors \<Rightarrow> addr \<Rightarrow> mem \<Rightarrow> mem cres" where
  "streamparser_delete l parser m =
     bindr (load as_parser parser m) (\<lambda>s. bindr (XML_ParserFree l (hp_parser s) m) (\<lambda>m1.
     bindr (free_field as_parser hp_server parser m1) (\<lambda>m2. free parser m2)))"

text \<open>The head of the list is not reset.\<close>

definition framer_cleanup_h :: "destructors \<Rightarrow> addr \<Rightarrow> mem \<Rightarrow> mem cres" where
  "framer_cleanup_h l framer m =
     bindr (clear_field as_framer Framer_Cell hf_parser (hf_parser_update (\<lambda>_. 0)) (XML_ParserFree l) framer m) (\<lambda>m1.
     bindr (clear_field as_framer Framer_Cell hf_buffer (hf_buffer_update (\<lambda>_. 0)) buffer_delete framer m1) (\<lambda>m2.
     bindr (load as_framer framer m2) (\<lambda>f. free_list (hf_head f) m2)))"

definition framer_delete_h :: "destructors \<Rightarrow> addr \<Rightarrow> mem \<Rightarrow> mem cres" where
  "framer_delete_h l framer m = bindr (framer_cleanup_h l framer m) (\<lambda>m1. free framer m1)"

section \<open>The connection manager and the connection\<close>

definition cm_close_h :: "destructors \<Rightarrow> addr \<Rightarrow> mem \<Rightarrow> mem cres" where
  "cm_close_h l cm m =
     bindr (clear_field as_manager Manager_Cell hm_framer (hm_framer_update (\<lambda>_. 0)) (framer_delete_h l) cm m) (\<lambda>m1.
     bindr (clear_field as_manager Manager_Cell hm_buffer (hm_buffer_update (\<lambda>_. 0)) buffer_delete cm m1) (\<lambda>m2.
     bindr (clear_field as_manager Manager_Cell hm_parser (hm_parser_update (\<lambda>_. 0)) (streamparser_delete l) cm m2) (\<lambda>m3.
     bindr (clear_field as_manager Manager_Cell hm_bev (hm_bev_update (\<lambda>_. 0)) (bufferevent_free l) cm m3) (\<lambda>m4.
     bindr (clear_field as_manager Manager_Cell hm_dnsbase (hm_dnsbase_update (\<lambda>_. 0)) (evdns_base_free l) cm m4) (\<lambda>m5.
     clear_field as_manager Manager_Cell hm_server (hm_server_update (\<lambda>_. 0)) free cm m5)))))"

definition cm_delete_h :: "destructors \<Rightarrow> addr \<Rightarrow> mem \<Rightarrow> mem cres" where
  "cm_delete_h l ctx m = bindr (cm_close_h l ctx m) (\<lambda>m1. free ctx m1)"

text \<open>\<open>wsconn_delete\<close> with the connection manager as the client of the server. The log message behind \<open>free\<close> reads
  the connection again, when it is not filtered.\<close>

definition wsconn_delete_h :: "destructors \<Rightarrow> bool \<Rightarrow> addr \<Rightarrow> mem \<Rightarrow> mem cres" where
  "wsconn_delete_h l log_info conn m =
     bindr (delete_field as_conn hc_bev (bufferevent_free l) conn m) (\<lambda>m1.
     bindr (delete_field as_conn hc_req rq_delete conn m1) (\<lambda>m2.
     bindr (delete_field as_conn hc_message_buffer buffer_delete conn m2) (\<lambda>m3.
     bindr (delete_field as_conn hc_wsmsg wsmsg_delete conn m3) (\<lambda>m4.
     bindr (load as_conn conn m4) (\<lambda>c.
     bindr (if hc_cb c then cm_delete_h l (hc_custom_ctx c) m4 else Ok m4) (\<lambda>m5.
     bindr (free conn m5) (\<lambda>m6.
     if log_info then bindr (load as_conn conn m6) (\<lambda>_. Ok m6) else Ok m6)))))))"

section \<open>The server and the configuration\<close>

definition ws_delete :: "destructors \<Rightarrow> addr \<Rightarrow> mem \<Rightarrow> mem cres" where
  "ws_delete l ws m = bindr (delete_field as_server id (evconnlistener_free l) ws m) (\<lambda>m1. free ws m1)"

function free_origins :: "addr \<Rightarrow> mem \<Rightarrow> mem cres" where
  "free_origins current m =
     (if current = 0 then Ok m
      else bindr (load as_origin current m) (\<lambda>r.
        bindr (free (ho_url r) m) (\<lambda>m1. bindr (free current m1) (\<lambda>m2. free_origins (ho_next r) m2))))"
  by pat_completeness auto
termination
  by (relation "measure (\<lambda>(p, m). card (fmdom' (blocks m)))") (auto dest: free_shrinks free_no_growth less_le_trans)

declare free_origins.simps [simp del]

definition config_delete :: "addr \<Rightarrow> mem \<Rightarrow> mem cres" where
  "config_delete conf m =
     bindr (load as_conf conf m) (\<lambda>j.
     bindr (free_origins (hj_origin_list j) m) (\<lambda>m1.
     bindr (free_field as_conf hj_cidr conf m1) (\<lambda>m2.
     bindr (free_field as_conf hj_port conf m2) (\<lambda>m3.
     bindr (free_field as_conf hj_host conf m3) (\<lambda>m4.
     bindr (free_field as_conf hj_resource conf m4) (\<lambda>m5.
     free conf m5))))))"

section \<open>What the objects own\<close>

definition buffer_at :: "addr \<Rightarrow> addr list \<Rightarrow> mem \<Rightarrow> bool" where
  "buffer_at p bs m \<longleftrightarrow> (\<exists>d. load as_buffer p m = Ok d \<and> raw_at d [d] m \<and> bs = [d, p])"

lemma load_elsewhere: "load as p m = Ok x \<Longrightarrow> p \<in> B \<Longrightarrow> agree B m m' \<Longrightarrow> load as p m' = Ok x"
  by (auto simp: load_eq_Ok agree_def)

interpretation buffer: heap_object buffer_at buffer_delete
proof
  fix p bs m m'
  show "p \<in> set bs \<and> distinct bs \<and> (\<forall>b \<in> set bs. live b m)" if "buffer_at p bs m"
    using that load_live by (fastforce simp: buffer_at_def raw_at_def live_def load_eq_Ok)
  show "buffer_at p bs m'" if "buffer_at p bs m" "agree (set bs) m m'"
    using that by (auto simp: buffer_at_def raw_at_def agree_def load_eq_Ok)
  show "buffer_delete p m = Ok (release (set bs) m)" if at: "buffer_at p bs m"
  proof -
    obtain d where d: "load as_buffer p m = Ok d" "raw_at d [d] m" "bs = [d, p]" using at by (auto simp: buffer_at_def)
    have "d \<noteq> p" using d(1,2) by (auto simp: raw_at_def load_eq_Ok)
    then show ?thesis using d raw.deleted [OF d(2)] load_live [OF d(1)] by (simp add: buffer_delete_def free_live insert_commute)
  qed
qed

definition wsmsg_at :: "addr \<Rightarrow> addr list \<Rightarrow> mem \<Rightarrow> bool" where
  "wsmsg_at p bs m \<longleftrightarrow> (\<exists>w ds ms fs. load as_wsmsg p m = Ok w \<and> opt_at buffer_at (hw_frame_data w) ds m
     \<and> opt_at buffer_at (hw_message_buffer w) ms m \<and> opt_at buffer_at (hw_frame_buffer w) fs m
     \<and> bs = ds @ ms @ fs @ [p] \<and> distinct bs)"

interpretation wsmsg: heap_object wsmsg_at wsmsg_delete
proof
  fix p bs m m'
  show "p \<in> set bs \<and> distinct bs \<and> (\<forall>b \<in> set bs. live b m)" if "wsmsg_at p bs m"
    using that load_live buffer.opt_owned by (fastforce simp: wsmsg_at_def)
  show "wsmsg_at p bs m'" if "wsmsg_at p bs m" "agree (set bs) m m'"
    using that unfolding wsmsg_at_def
    by (fastforce elim!: load_elsewhere buffer.opt_elsewhere agree_mono)
  show "wsmsg_delete p m = Ok (release (set bs) m)" if at: "wsmsg_at p bs m"
  proof -
    obtain w ds ms fs where w: "load as_wsmsg p m = Ok w" "opt_at buffer_at (hw_frame_data w) ds m"
      "opt_at buffer_at (hw_message_buffer w) ms m" "opt_at buffer_at (hw_frame_buffer w) fs m"
      "bs = ds @ ms @ fs @ [p]" "distinct bs"
      using at by (auto simp: wsmsg_at_def)
    have "p \<noteq> 0" using w(1) by (simp add: load_eq_Ok)
    then show ?thesis
      using buffer.delete_field_eq [where fld = hw_frame_data, OF w(1,2), of "{}"]
        buffer.delete_field_eq [where fld = hw_message_buffer, OF w(1,3), of "set ds"]
        buffer.delete_field_eq [where fld = hw_frame_buffer, OF w(1,4), of "set ms \<union> set ds"] w(5,6) load_live [OF w(1)]
      by (simp add: wsmsg_delete_def free_live Int_Un_distrib ac_simps)
  qed
qed

text \<open>The blocks of a request that \<open>rq_delete\<close> frees; the line is not among them.\<close>

definition rq_at :: "addr \<Rightarrow> addr list \<Rightarrow> mem \<Rightarrow> bool" where
  "rq_at p bs m \<longleftrightarrow> (\<exists>q ns. load as_request p m = Ok q \<and> chain (hq_protocols_head q) ns m \<and> bs = ns @ [p] \<and> distinct bs)"

interpretation rq: heap_object rq_at rq_delete
proof
  fix p bs m m'
  show "p \<in> set bs \<and> distinct bs \<and> (\<forall>b \<in> set bs. live b m)" if "rq_at p bs m"
    using that load_live chain_live by (fastforce simp: rq_at_def)
  show "rq_at p bs m'" if "rq_at p bs m" "agree (set bs) m m'"
    using that unfolding rq_at_def by (fastforce elim!: load_elsewhere chain_elsewhere agree_mono)
  show "rq_delete p m = Ok (release (set bs) m)" if "rq_at p bs m"
    using that load_live by (fastforce simp: rq_at_def rq_delete_def free_list_chain free_live)
qed

definition streamparser_at :: "addr \<Rightarrow> addr list \<Rightarrow> mem \<Rightarrow> bool" where
  "streamparser_at p bs m \<longleftrightarrow> (\<exists>s xs ys. load as_parser p m = Ok s \<and> opt_at raw_at (hp_parser s) xs m
     \<and> opt_at raw_at (hp_server s) ys m \<and> bs = xs @ ys @ [p] \<and> distinct bs)"

lemma library_objects:
  assumes "library_ok l"
  shows "heap_object raw_at (XML_ParserFree l)" "heap_object raw_at (bufferevent_free l)"
    "heap_object raw_at (evdns_base_free l)" "heap_object raw_at (evconnlistener_free l)"
  using assms library_object by (simp_all add: library_ok_def)

lemma streamparser_object:
  assumes "library_ok l"
  shows "heap_object streamparser_at (streamparser_delete l)"
proof
  fix p bs m m'
  show "p \<in> set bs \<and> distinct bs \<and> (\<forall>b \<in> set bs. live b m)" if "streamparser_at p bs m"
    using that load_live raw.opt_owned by (fastforce simp: streamparser_at_def)
  show "streamparser_at p bs m'" if "streamparser_at p bs m" "agree (set bs) m m'"
    using that unfolding streamparser_at_def by (fastforce elim!: load_elsewhere raw.opt_elsewhere agree_mono)
  show "streamparser_delete l p m = Ok (release (set bs) m)" if at: "streamparser_at p bs m"
  proof -
    obtain s xs ys where s: "load as_parser p m = Ok s" "opt_at raw_at (hp_parser s) xs m" "opt_at raw_at (hp_server s) ys m"
      "bs = xs @ ys @ [p]" "distinct bs"
      using at by (auto simp: streamparser_at_def)
    have "XML_ParserFree l (hp_parser s) m = Ok (release (set xs) m)"
      using heap_object.opt_deleted [OF library_objects(1) [OF assms] s(2)] assms by (simp add: library_ok_def split: if_split_asm)
    then show ?thesis
      using raw.delete_field_eq [where fld = hp_server, OF s(1,3), of "set xs"] s load_live [OF s(1)]
      by (auto simp: streamparser_delete_def free_field_eq free_live ac_simps)
  qed
qed

definition framer_at :: "addr \<Rightarrow> addr list \<Rightarrow> mem \<Rightarrow> bool" where
  "framer_at p bs m \<longleftrightarrow> (\<exists>f xs ys ns. load as_framer p m = Ok f \<and> opt_at raw_at (hf_parser f) xs m
     \<and> opt_at buffer_at (hf_buffer f) ys m \<and> chain (hf_head f) ns m \<and> bs = xs @ ys @ ns @ [p] \<and> distinct bs)"

lemma as_cell:
  "as_framer c = Some f \<longleftrightarrow> c = Framer_Cell f" "as_manager c = Some x \<longleftrightarrow> c = Manager_Cell x"
  by (cases c; auto)+

lemma load_put_same:
  "load as_framer p m = Ok f \<Longrightarrow> put p (Framer_Cell f) m = m" "load as_manager p m = Ok x \<Longrightarrow> put p (Manager_Cell x) m = m"
  by (auto simp: load_eq_Ok as_cell put_same)

lemma framer_object:
  assumes "library_ok l"
  shows "heap_object framer_at (framer_delete_h l)"
proof
  fix p bs m m'
  show "p \<in> set bs \<and> distinct bs \<and> (\<forall>b \<in> set bs. live b m)" if "framer_at p bs m"
    using that load_live raw.opt_owned buffer.opt_owned chain_live by (fastforce simp: framer_at_def)
  show "framer_at p bs m'" if "framer_at p bs m" "agree (set bs) m m'"
    using that unfolding framer_at_def
    by (fastforce elim!: load_elsewhere raw.opt_elsewhere buffer.opt_elsewhere chain_elsewhere agree_mono)
  show "framer_delete_h l p m = Ok (release (set bs) m)" if at: "framer_at p bs m"
  proof -
    obtain f xs ys ns where f: "load as_framer p m = Ok f" "opt_at raw_at (hf_parser f) xs m" "opt_at buffer_at (hf_buffer f) ys m"
      "chain (hf_head f) ns m" "bs = xs @ ys @ ns @ [p]" "distinct bs"
      using at by (auto simp: framer_at_def)
    let ?f1 = "f\<lparr>hf_parser := 0\<rparr>" and ?f2 = "f\<lparr>hf_parser := 0, hf_buffer := 0\<rparr>"
    have p: "p \<noteq> 0" using f(1) by (simp add: load_eq_Ok)
    have 1: "clear_field as_framer Framer_Cell hf_parser (hf_parser_update (\<lambda>_. 0)) (XML_ParserFree l) p m
        = Ok (put p (Framer_Cell ?f1) (release (set xs) m))"
      using heap_object.clear_field_eq [OF library_objects(1) [OF assms], of hf_parser f xs m p "{}" as_framer Framer_Cell
          "hf_parser_update (\<lambda>_. 0)"] p f load_put_same(1) [OF f(1)] by simp
    have 2: "clear_field as_framer Framer_Cell hf_buffer (hf_buffer_update (\<lambda>_. 0)) buffer_delete p
          (put p (Framer_Cell ?f1) (release (set xs) m)) = Ok (put p (Framer_Cell ?f2) (release (set ys \<union> set xs) m))"
      using buffer.clear_field_eq [of hf_buffer ?f1 ys m p "set xs" as_framer Framer_Cell "hf_buffer_update (\<lambda>_. 0)"] p f by auto
    have "agree (set ns) m (put p (Framer_Cell ?f2) (release (set ys \<union> set xs) m))" using f(5,6) by (auto simp: agree_def)
    from free_list_chain [OF chain_elsewhere [OF f(4) this]]
    have 3: "free_list (hf_head f) (put p (Framer_Cell ?f2) (release (set ys \<union> set xs) m))
        = Ok (put p (Framer_Cell ?f2) (release (set ns \<union> (set ys \<union> set xs)) m))"
      using f(5,6) by (simp add: release_put)
    show ?thesis
      using 1 2 3 p f(5,6)
      by (simp add: framer_delete_h_def framer_cleanup_h_def load_def free_live live_def release_put ac_simps)
  qed
qed

text \<open>The manager, with the blocks of its fields in the order in which \<open>cm_close\<close> frees them.\<close>

definition cm_fields :: "cmanager_h \<Rightarrow> addr list \<Rightarrow> mem \<Rightarrow> bool" where
  "cm_fields x bs m \<longleftrightarrow> (\<exists>fs us ps vs ds ss. opt_at framer_at (hm_framer x) fs m \<and> opt_at buffer_at (hm_buffer x) us m
     \<and> opt_at streamparser_at (hm_parser x) ps m \<and> opt_at raw_at (hm_bev x) vs m \<and> opt_at raw_at (hm_dnsbase x) ds m
     \<and> opt_at raw_at (hm_server x) ss m \<and> bs = fs @ us @ ps @ vs @ ds @ ss)"

definition cm_at :: "addr \<Rightarrow> addr list \<Rightarrow> mem \<Rightarrow> bool" where
  "cm_at p bs m \<longleftrightarrow> (\<exists>x cs. load as_manager p m = Ok x \<and> cm_fields x cs m \<and> bs = cs @ [p] \<and> distinct bs)"

definition cm_empty :: cmanager_h where
  "cm_empty = \<lparr>hm_parser = 0, hm_server = 0, hm_bev = 0, hm_dnsbase = 0, hm_buffer = 0, hm_framer = 0\<rparr>"

lemma cm_close_frees:
  assumes l: "library_ok l" and x: "load as_manager p m = Ok x" and c: "cm_fields x cs m" and d: "distinct (cs @ [p])"
  shows "cm_close_h l p m = Ok (put p (Manager_Cell cm_empty) (release (set cs) m))"
proof -
  obtain fs us ps vs ds ss where o: "opt_at framer_at (hm_framer x) fs m" "opt_at buffer_at (hm_buffer x) us m"
    "opt_at streamparser_at (hm_parser x) ps m" "opt_at raw_at (hm_bev x) vs m" "opt_at raw_at (hm_dnsbase x) ds m"
    "opt_at raw_at (hm_server x) ss m" "cs = fs @ us @ ps @ vs @ ds @ ss"
    using c by (auto simp: cm_fields_def)
  note lib = library_objects [OF l]
  have p: "p \<noteq> 0" using x by (simp add: load_eq_Ok)
  let ?m = "\<lambda>y bs. put p (Manager_Cell y) (release (set bs) m)"
  let ?x1 = "x\<lparr>hm_framer := 0\<rparr>" and ?x2 = "x\<lparr>hm_framer := 0, hm_buffer := 0\<rparr>"
    and ?x3 = "x\<lparr>hm_framer := 0, hm_buffer := 0, hm_parser := 0\<rparr>" and ?x4 = "x\<lparr>hm_framer := 0, hm_buffer := 0, hm_parser := 0, hm_bev := 0\<rparr>"
    and ?x5 = "x\<lparr>hm_framer := 0, hm_buffer := 0, hm_parser := 0, hm_bev := 0, hm_dnsbase := 0\<rparr>"
  have 1: "clear_field as_manager Manager_Cell hm_framer (hm_framer_update (\<lambda>_. 0)) (framer_delete_h l) p m = Ok (?m ?x1 fs)"
    using heap_object.clear_field_eq [OF framer_object [OF l], of hm_framer x fs m p "{}" as_manager Manager_Cell
        "hm_framer_update (\<lambda>_. 0)"] p o(1,7) d load_put_same(2) [OF x] by simp
  have dis: "p \<notin> set (ss @ ds @ vs @ ps @ us @ fs)" "set us \<inter> set fs = {}" "set ps \<inter> set (us @ fs) = {}"
    "set vs \<inter> set (ps @ us @ fs) = {}" "set ds \<inter> set (vs @ ps @ us @ fs) = {}" "set ss \<inter> set (ds @ vs @ ps @ us @ fs) = {}"
    using o(7) d by auto
  have 2: "clear_field as_manager Manager_Cell hm_buffer (hm_buffer_update (\<lambda>_. 0)) buffer_delete p (?m ?x1 fs) = Ok (?m ?x2 (us @ fs))"
    using buffer.clear_field_eq [of hm_buffer ?x1 us m p "set fs" as_manager Manager_Cell "hm_buffer_update (\<lambda>_. 0)"] p o(2) dis by simp
  have 3: "clear_field as_manager Manager_Cell hm_parser (hm_parser_update (\<lambda>_. 0)) (streamparser_delete l) p (?m ?x2 (us @ fs))
      = Ok (?m ?x3 (ps @ us @ fs))"
    using heap_object.clear_field_eq [OF streamparser_object [OF l], of hm_parser ?x2 ps m p "set (us @ fs)" as_manager Manager_Cell
        "hm_parser_update (\<lambda>_. 0)"] p o(3) dis by simp
  have 4: "clear_field as_manager Manager_Cell hm_bev (hm_bev_update (\<lambda>_. 0)) (bufferevent_free l) p (?m ?x3 (ps @ us @ fs))
      = Ok (?m ?x4 (vs @ ps @ us @ fs))"
    using heap_object.clear_field_eq [OF lib(2), of hm_bev ?x3 vs m p "set (ps @ us @ fs)" as_manager Manager_Cell
        "hm_bev_update (\<lambda>_. 0)"] p o(4) dis by simp
  have 5: "clear_field as_manager Manager_Cell hm_dnsbase (hm_dnsbase_update (\<lambda>_. 0)) (evdns_base_free l) p (?m ?x4 (vs @ ps @ us @ fs))
      = Ok (?m ?x5 (ds @ vs @ ps @ us @ fs))"
    using heap_object.clear_field_eq [OF lib(3), of hm_dnsbase ?x4 ds m p "set (vs @ ps @ us @ fs)" as_manager Manager_Cell
        "hm_dnsbase_update (\<lambda>_. 0)"] p o(5) dis by simp
  have 6: "clear_field as_manager Manager_Cell hm_server (hm_server_update (\<lambda>_. 0)) free p (?m ?x5 (ds @ vs @ ps @ us @ fs))
      = Ok (?m (?x5\<lparr>hm_server := 0\<rparr>) (ss @ ds @ vs @ ps @ us @ fs))"
    using raw.clear_field_eq [of hm_server ?x5 ss m p "set (ds @ vs @ ps @ us @ fs)" as_manager Manager_Cell
        "hm_server_update (\<lambda>_. 0)"] p o(6) dis by simp
  have "?x5\<lparr>hm_server := 0\<rparr> = cm_empty" by (simp add: cm_empty_def)
  moreover have "set (ss @ ds @ vs @ ps @ us @ fs) = set cs" using o(7) by auto
  ultimately show ?thesis unfolding cm_close_h_def 1 2 3 4 5 6 bindr.simps by simp
qed

lemma cm_fields_facts:
  assumes l: "library_ok l" and "cm_fields x cs m"
  shows "b \<in> set cs \<Longrightarrow> live b m" and "agree (set cs) m m' \<Longrightarrow> cm_fields x cs m'"
proof -
  note fr = framer_object [OF l] and sp = streamparser_object [OF l]
  note own = heap_object.opt_owned [OF fr] heap_object.opt_owned [OF sp] raw.opt_owned buffer.opt_owned
    and els = heap_object.opt_elsewhere [OF fr] heap_object.opt_elsewhere [OF sp] raw.opt_elsewhere buffer.opt_elsewhere
  show "b \<in> set cs \<Longrightarrow> live b m" using assms(2) own unfolding cm_fields_def by auto
  assume agree: "agree (set cs) m m'"
  obtain fs us ps vs ds ss where o: "opt_at framer_at (hm_framer x) fs m" "opt_at buffer_at (hm_buffer x) us m"
    "opt_at streamparser_at (hm_parser x) ps m" "opt_at raw_at (hm_bev x) vs m" "opt_at raw_at (hm_dnsbase x) ds m"
    "opt_at raw_at (hm_server x) ss m" "cs = fs @ us @ ps @ vs @ ds @ ss"
    using assms(2) by (auto simp: cm_fields_def)
  have g: "agree (set fs) m m'" "agree (set us) m m'" "agree (set ps) m m'" "agree (set vs) m m'" "agree (set ds) m m'" "agree (set ss) m m'"
    using agree o(7) by (auto intro: agree_mono)
  show "cm_fields x cs m'"
    using els(1) [OF o(1) g(1)] els(4) [OF o(2) g(2)] els(2) [OF o(3) g(3)] els(3) [OF o(4) g(4)] els(3) [OF o(5) g(5)]
      els(3) [OF o(6) g(6)] o(7)
    unfolding cm_fields_def by blast
qed

lemma cm_object:
  assumes "library_ok l"
  shows "heap_object cm_at (cm_delete_h l)"
proof
  fix p bs m m'
  assume "cm_at p bs m"
  then obtain x cs where x: "load as_manager p m = Ok x" "cm_fields x cs m" "bs = cs @ [p]" "distinct (cs @ [p])"
    by (auto simp: cm_at_def)
  show "p \<in> set bs \<and> distinct bs \<and> (\<forall>b \<in> set bs. live b m)"
    using load_live [OF x(1)] cm_fields_facts(1) [OF assms x(2)] x(3,4) by auto
  have "p \<noteq> 0" using x(1) by (simp add: load_eq_Ok)
  then show "cm_delete_h l p m = Ok (release (set bs) m)"
    using cm_close_frees [OF assms x(1,2,4)] x(3,4) by (simp add: cm_delete_h_def free_live live_def release_put)
  assume agree: "agree (set bs) m m'"
  then have "cm_fields x cs m'" using cm_fields_facts(2) [OF assms x(2)] x(3) by (auto intro: agree_mono)
  moreover have "load as_manager p m' = Ok x" using load_elsewhere [OF x(1) _ agree] x(3) by simp
  ultimately show "cm_at p bs m'" using x(3,4) unfolding cm_at_def by blast
qed

text \<open>A connection. The line of its request is not among the blocks that are freed.\<close>

definition conn_at :: "addr \<Rightarrow> addr list \<Rightarrow> mem \<Rightarrow> bool" where
  "conn_at p bs m \<longleftrightarrow> (\<exists>c vs qs us ws ms. load as_conn p m = Ok c \<and> opt_at raw_at (hc_bev c) vs m
     \<and> opt_at rq_at (hc_req c) qs m \<and> opt_at buffer_at (hc_message_buffer c) us m \<and> opt_at wsmsg_at (hc_wsmsg c) ws m
     \<and> (if hc_cb c then cm_at (hc_custom_ctx c) ms m else ms = []) \<and> bs = vs @ qs @ us @ ws @ ms @ [p] \<and> distinct bs)"

lemma conn_object:
  assumes "library_ok l"
  shows "heap_object conn_at (wsconn_delete_h l False)"
proof
  fix p bs m m'
  assume "conn_at p bs m"
  then obtain c vs qs us ws ms where c: "load as_conn p m = Ok c" "opt_at raw_at (hc_bev c) vs m" "opt_at rq_at (hc_req c) qs m"
    "opt_at buffer_at (hc_message_buffer c) us m" "opt_at wsmsg_at (hc_wsmsg c) ws m"
    and ms: "if hc_cb c then cm_at (hc_custom_ctx c) ms m else ms = []" and bs: "bs = vs @ qs @ us @ ws @ ms @ [p]" "distinct bs"
    by (auto simp: conn_at_def)
  note cm = heap_object.owned [OF cm_object [OF assms]] heap_object.elsewhere [OF cm_object [OF assms]]
    heap_object.deleted [OF cm_object [OF assms]]
  have live: "\<forall>b \<in> set ms. live b m" using ms cm(1) by (auto split: if_split_asm)
  show "p \<in> set bs \<and> distinct bs \<and> (\<forall>b \<in> set bs. live b m)"
    using load_live [OF c(1)] raw.opt_owned [OF c(2)] rq.opt_owned [OF c(3)] buffer.opt_owned [OF c(4)] wsmsg.opt_owned [OF c(5)] live bs
    by auto
  have dis: "p \<notin> set (ms @ ws @ us @ qs @ vs)" "set qs \<inter> set vs = {}" "set us \<inter> set (qs @ vs) = {}" "set ws \<inter> set (us @ qs @ vs) = {}"
    "set ms \<inter> set (ws @ us @ qs @ vs) = {}"
    using bs by auto
  have 1: "delete_field as_conn hc_bev (bufferevent_free l) p m = Ok (release (set vs) m)"
    using heap_object.delete_field_eq [OF library_objects(2) [OF assms], where fld = hc_bev, OF c(1,2), of "{}"] by simp
  have 2: "delete_field as_conn hc_req rq_delete p (release (set vs) m) = Ok (release (set (qs @ vs)) m)"
    using rq.delete_field_eq [where fld = hc_req, OF c(1,3), of "set vs"] dis by simp
  have 3: "delete_field as_conn hc_message_buffer buffer_delete p (release (set (qs @ vs)) m) = Ok (release (set (us @ qs @ vs)) m)"
    using buffer.delete_field_eq [where fld = hc_message_buffer, OF c(1,4), of "set (qs @ vs)"] dis by simp
  have 4: "delete_field as_conn hc_wsmsg wsmsg_delete p (release (set (us @ qs @ vs)) m) = Ok (release (set (ws @ us @ qs @ vs)) m)"
    using wsmsg.delete_field_eq [where fld = hc_wsmsg, OF c(1,5), of "set (us @ qs @ vs)"] dis by simp
  have 5: "(if hc_cb c then cm_delete_h l (hc_custom_ctx c) (release (set (ws @ us @ qs @ vs)) m) else Ok (release (set (ws @ us @ qs @ vs)) m))
      = Ok (release (set (ms @ ws @ us @ qs @ vs)) m)"
    using ms cm(3) [OF cm(2) [OF _ agree_release [OF dis(5)]]] by (auto split: if_split_asm)
  have 6: "free p (release (set (ms @ ws @ us @ qs @ vs)) m) = Ok (release (set bs) m)"
    using free_live [of p "release (set (ms @ ws @ us @ qs @ vs)) m"] load_live [OF c(1)] dis(1) bs(1) by (simp add: ac_simps)
  have ld: "load as_conn p (release (set (ws @ us @ qs @ vs)) m) = Ok c" using c(1) dis(1) by (simp add: load_release)
  show "wsconn_delete_h l False p m = Ok (release (set bs) m)"
    unfolding wsconn_delete_h_def 1 2 3 4 ld bindr.simps 5 6 by simp
  assume agree: "agree (set bs) m m'"
  have g: "agree (set vs) m m'" "agree (set qs) m m'" "agree (set us) m m'" "agree (set ws) m m'" "agree (set ms) m m'"
    using agree bs(1) by (auto intro: agree_mono)
  have "if hc_cb c then cm_at (hc_custom_ctx c) ms m' else ms = []" using ms cm(2) g(5) by (auto split: if_split_asm)
  moreover have "load as_conn p m' = Ok c" using load_elsewhere [OF c(1) _ agree] bs(1) by simp
  ultimately show "conn_at p bs m'"
    using raw.opt_elsewhere [OF c(2) g(1)] rq.opt_elsewhere [OF c(3) g(2)] buffer.opt_elsewhere [OF c(4) g(3)]
      wsmsg.opt_elsewhere [OF c(5) g(4)] bs
    unfolding conn_at_def by blast
qed

definition ws_at :: "addr \<Rightarrow> addr list \<Rightarrow> mem \<Rightarrow> bool" where
  "ws_at p bs m \<longleftrightarrow> (\<exists>q ls. load as_server p m = Ok q \<and> opt_at raw_at q ls m \<and> bs = ls @ [p] \<and> distinct bs)"

lemma ws_object:
  assumes "library_ok l"
  shows "heap_object ws_at (ws_delete l)"
proof
  fix p bs m m'
  assume "ws_at p bs m"
  then obtain q ls where q: "load as_server p m = Ok q" "opt_at raw_at (id q) ls m" "bs = ls @ [p]" "distinct bs"
    by (auto simp: ws_at_def)
  show "p \<in> set bs \<and> distinct bs \<and> (\<forall>b \<in> set bs. live b m)"
    using load_live [OF q(1)] raw.opt_owned [OF q(2)] q(3,4) by auto
  show "ws_delete l p m = Ok (release (set bs) m)"
    using heap_object.delete_field_eq [OF library_objects(4) [OF assms], where fld = id, OF q(1,2), of "{}"] q(3,4) load_live [OF q(1)]
    by (simp add: ws_delete_def free_live)
  show "ws_at p bs m'" if "agree (set bs) m m'"
    using q load_elsewhere [OF q(1) _ that] raw.opt_elsewhere [OF q(2) agree_mono [OF that]] by (auto simp: ws_at_def)
qed

text \<open>The list of origins: the blocks of the string, if any, and the element, one after the other.\<close>

fun origins_at :: "addr \<Rightarrow> (addr list \<times> addr) list \<Rightarrow> mem \<Rightarrow> bool" where
  "origins_at p [] m \<longleftrightarrow> p = 0"
| "origins_at p ((us, n) # rs) m \<longleftrightarrow> p = n
     \<and> (\<exists>r. load as_origin p m = Ok r \<and> opt_at raw_at (ho_url r) us m \<and> origins_at (ho_next r) rs m)"

fun origin_blocks :: "(addr list \<times> addr) list \<Rightarrow> addr list" where
  "origin_blocks [] = []"
| "origin_blocks ((us, n) # rs) = us @ n # origin_blocks rs"

lemma origins_live: "origins_at p rs m \<Longrightarrow> b \<in> set (origin_blocks rs) \<Longrightarrow> live b m"
proof (induction p rs m rule: origins_at.induct)
  case (2 p us n rs m)
  then show ?case using load_live raw.opt_owned by fastforce
qed simp

lemma origins_elsewhere: "origins_at p rs m \<Longrightarrow> agree (set (origin_blocks rs)) m m' \<Longrightarrow> origins_at p rs m'"
proof (induction p rs m rule: origins_at.induct)
  case (2 p us n rs m)
  then obtain r where r: "p = n" "load as_origin p m = Ok r" "opt_at raw_at (ho_url r) us m" "origins_at (ho_next r) rs m" by auto
  have g: "agree (set us) m m'" "agree (set (origin_blocks rs)) m m'" "load as_origin p m' = Ok r"
    using 2(3) load_elsewhere [OF r(2) _ 2(3)] r(1) by (auto intro: agree_mono)
  then show ?case using 2(1) [OF r(4)] raw.opt_elsewhere [OF r(3)] r(1) by auto
qed simp

lemma free_origins_eq:
  "origins_at p rs m \<Longrightarrow> distinct (origin_blocks rs) \<Longrightarrow> free_origins p m = Ok (release (set (origin_blocks rs)) m)"
proof (induction rs arbitrary: p m)
  case (Cons un rs)
  obtain us n where un: "un = (us, n)" by fastforce
  obtain r where r: "p = n" "load as_origin n m = Ok r" "opt_at raw_at (ho_url r) us m" "origins_at (ho_next r) rs m"
    using Cons.prems(1) un by auto
  have ob: "set (origin_blocks (un # rs)) = set us \<union> {n} \<union> set (origin_blocks rs)" "n \<notin> set us"
    "set (origin_blocks rs) \<inter> (set us \<union> {n}) = {}" "distinct (origin_blocks rs)"
    using Cons.prems(2) un by auto
  have url: "free (ho_url r) m = Ok (release (set us) m)" using raw.opt_deleted [OF r(3)] by (cases "ho_url r = 0") auto
  have node: "free n (release (set us) m) = Ok (release (set us \<union> {n}) m)"
    using free_live [of n "release (set us) m"] load_live [OF r(2)] ob(2) by simp
  have "free_origins (ho_next r) (release (set us \<union> {n}) m) = Ok (release (set (origin_blocks (un # rs))) m)"
    using Cons.IH [OF origins_elsewhere [OF r(4) agree_release [OF ob(3)]] ob(4)] ob(1) by (simp add: ac_simps)
  moreover have "n \<noteq> 0" using r(2) by (simp add: load_eq_Ok)
  ultimately show ?case using r(1,2) url node by (simp add: free_origins.simps [of n])
qed (simp add: free_origins.simps)

definition conf_at :: "addr \<Rightarrow> addr list \<Rightarrow> mem \<Rightarrow> bool" where
  "conf_at p bs m \<longleftrightarrow> (\<exists>j rs cs ps hs ss. load as_conf p m = Ok j \<and> origins_at (hj_origin_list j) rs m
     \<and> opt_at raw_at (hj_cidr j) cs m \<and> opt_at raw_at (hj_port j) ps m \<and> opt_at raw_at (hj_host j) hs m
     \<and> opt_at raw_at (hj_resource j) ss m \<and> bs = origin_blocks rs @ cs @ ps @ hs @ ss @ [p] \<and> distinct bs)"

interpretation conf: heap_object conf_at config_delete
proof
  fix p bs m m'
  assume "conf_at p bs m"
  then obtain j rs cs ps hs ss where j: "load as_conf p m = Ok j" "origins_at (hj_origin_list j) rs m"
    "opt_at raw_at (hj_cidr j) cs m" "opt_at raw_at (hj_port j) ps m" "opt_at raw_at (hj_host j) hs m"
    "opt_at raw_at (hj_resource j) ss m" and bs: "bs = origin_blocks rs @ cs @ ps @ hs @ ss @ [p]" "distinct bs"
    by (auto simp: conf_at_def)
  show "p \<in> set bs \<and> distinct bs \<and> (\<forall>b \<in> set bs. live b m)"
    using load_live [OF j(1)] origins_live [OF j(2)] raw.opt_owned [OF j(3)] raw.opt_owned [OF j(4)] raw.opt_owned [OF j(5)]
      raw.opt_owned [OF j(6)] bs by auto
  let ?o = "origin_blocks rs"
  have dis: "p \<notin> set (ss @ hs @ ps @ cs @ ?o)" "set cs \<inter> set ?o = {}" "set ps \<inter> set (cs @ ?o) = {}" "set hs \<inter> set (ps @ cs @ ?o) = {}"
    "set ss \<inter> set (hs @ ps @ cs @ ?o) = {}" "distinct ?o"
    using bs by auto
  note field = raw.delete_field_eq [where as = as_conf, OF j(1)]
  have "config_delete p m = free p (release (set (ss @ hs @ ps @ cs @ ?o)) m)"
    using free_origins_eq [OF j(2) dis(6)] field [where fld = hj_cidr, OF j(3), of "set ?o"]
      field [where fld = hj_port, OF j(4), of "set (cs @ ?o)"] field [where fld = hj_host, OF j(5), of "set (ps @ cs @ ?o)"]
      field [where fld = hj_resource, OF j(6), of "set (hs @ ps @ cs @ ?o)"] j(1) dis
    by (simp add: config_delete_def free_field_eq)
  then show "config_delete p m = Ok (release (set bs) m)"
    using free_live [of p "release (set (ss @ hs @ ps @ cs @ ?o)) m"] load_live [OF j(1)] dis(1) bs(1) by (simp add: ac_simps)
  assume agree: "agree (set bs) m m'"
  have g: "agree (set ?o) m m'" "agree (set cs) m m'" "agree (set ps) m m'" "agree (set hs) m m'" "agree (set ss) m m'"
    "load as_conf p m' = Ok j"
    using agree load_elsewhere [OF j(1) _ agree] bs(1) by (auto intro: agree_mono)
  show "conf_at p bs m'"
    using g(6) origins_elsewhere [OF j(2) g(1)] raw.opt_elsewhere [OF j(3) g(2)] raw.opt_elsewhere [OF j(4) g(3)]
      raw.opt_elsewhere [OF j(5) g(4)] raw.opt_elsewhere [OF j(6) g(5)] bs
    unfolding conf_at_def by blast
qed

end
