(* ===== verification/Alloc.thy ===== *)
theory Alloc
  imports Dealloc
begin

text \<open>
  The functions that create objects, on the heap of blocks, with every request for memory granted or refused as
  the environment likes: what the object owns when it is created, and what is left when it is not.
\<close>

section \<open>Growing heaps\<close>

text \<open>The new blocks are \<open>Q\<close>; of the old ones, only those of \<open>P\<close> may have changed.\<close>

definition grew :: "addr set \<Rightarrow> addr set \<Rightarrow> mem \<Rightarrow> mem \<Rightarrow> bool" where
  "grew P Q m m' \<longleftrightarrow> mem_ok m' \<and> brk m \<le> brk m' \<and> (\<forall>b \<in> Q. brk m \<le> b \<and> b < brk m')
     \<and> (\<forall>b. b \<notin> P \<union> Q \<longrightarrow> fmlookup (blocks m') b = fmlookup (blocks m) b)"

lemma mem_ok_iff: "mem_ok m \<longleftrightarrow> 0 < brk m \<and> (\<forall>b. fmlookup (blocks m) b \<noteq> None \<longrightarrow> 0 < b \<and> b < brk m)"
  by (auto simp: mem_ok_def fmlookup_dom'_iff)

lemma brk_simps [simp]: "brk (put p c m) = brk m" "brk (release A m) = brk m"
  by (simp_all add: put_def release_def)

lemma grew_refl: "mem_ok m \<Longrightarrow> grew {} {} m m"
  by (simp add: grew_def)

lemma grew_trans:
  assumes "grew {} B m m1" and "grew P Q m1 m2" and "P \<subseteq> B"
  shows "grew {} (B \<union> Q) m m2"
proof -
  have "fmlookup (blocks m2) b = fmlookup (blocks m) b" if "b \<notin> B \<union> Q" for b
  proof -
    have "b \<notin> P \<union> Q" "b \<notin> B" using that assms(3) by auto
    then show ?thesis using assms(1,2) by (simp add: grew_def)
  qed
  moreover have "brk m \<le> b \<and> b < brk m2" if "b \<in> B \<union> Q" for b
    using that assms(1,2) by (fastforce simp: grew_def)
  ultimately show ?thesis using assms(1,2) by (simp add: grew_def)
qed

lemma grew_put:
  assumes "grew {} B m m1" and "p \<in> B" and "0 < p"
  shows "grew {} B m (put p c m1)"
  using assms by (auto simp: grew_def mem_ok_iff)

lemma fresh: "mem_ok m \<Longrightarrow> grew P B m m1 \<Longrightarrow> b \<in> B \<Longrightarrow> fmlookup (blocks m) b = None"
  by (fastforce simp: grew_def mem_ok_iff)

lemma grew_release:
  assumes "mem_ok m" and "grew {} B m m1" and "A \<subseteq> B"
  shows "grew {} (B - A) m (release A m1)"
proof -
  have "fmlookup (blocks (release A m1)) b = fmlookup (blocks m) b" if "b \<notin> B - A" for b
    using that fresh [OF assms(1,2)] assms(2,3) by (cases "b \<in> A") (auto simp: grew_def)
  moreover have "mem_ok (release A m1)" using assms(2) by (auto simp: grew_def mem_ok_iff)
  ultimately show ?thesis using assms(2) by (simp add: grew_def)
qed

lemma grew_blocks: "grew {} {} m m' \<Longrightarrow> blocks m' = blocks m"
  by (auto simp: grew_def intro!: fmap_ext)

lemma grew_disjoint: "grew {} B m m1 \<Longrightarrow> grew P Q m1 m2 \<Longrightarrow> B \<inter> Q = {}"
  by (fastforce simp: grew_def)

lemma grew_agree: "grew P Q m m' \<Longrightarrow> B \<inter> (P \<union> Q) = {} \<Longrightarrow> agree B m m'"
  by (fastforce simp: grew_def agree_def)

lemma grew_ok: "grew P Q m m' \<Longrightarrow> mem_ok m'"
  by (simp add: grew_def)

lemma malloc_cases [consumes 1, case_names granted refused]:
  assumes "mem_ok m"
  obtains (granted) m' where "malloc g c m = (brk m, m')" "grew {} {brk m} m m'" "fmlookup (blocks m') (brk m) = Some c" "0 < brk m"
    | (refused) m' where "malloc g c m = (0, m')" "grew {} {} m m'"
proof (cases "g (brk m)")
  case True
  have "mem_ok (m\<lparr>blocks := fmupd (brk m) c (blocks m), brk := Suc (brk m)\<rparr>)"
    using assms by (auto simp: mem_ok_iff less_Suc_eq)
  then show ?thesis using assms granted True by (auto simp: malloc_def grew_def mem_ok_iff [of m])
next
  case False
  then show ?thesis using assms refused by (auto simp: malloc_def grew_def mem_ok_iff less_Suc_eq)
qed

section \<open>Objects that are created whole or not at all\<close>

text \<open>A creation that fails leaves nothing behind, and one that succeeds gives an object of new blocks.\<close>

locale heap_class = heap_object +
  fixes create :: "mem \<Rightarrow> (addr \<times> mem) cres"
  assumes created: "mem_ok m \<Longrightarrow> \<exists>p bs m'. create m = Ok (p, m') \<and> opt_at at p bs m' \<and> grew {} (set bs) m m'"
begin

lemma create_then_delete:
  assumes "mem_ok m"
  obtains p bs m' m'' where "create m = Ok (p, m')" "opt_at at p bs m'"
    "(if p \<noteq> 0 then delete p m' else Ok m') = Ok m''" "blocks m'' = blocks m"
proof -
  obtain p bs m' where c: "create m = Ok (p, m')" "opt_at at p bs m'" "grew {} (set bs) m m'" using created [OF assms] by blast
  have "blocks (release (set bs) m') = blocks m" using grew_blocks grew_release [OF assms c(3), of "set bs"] by simp
  then show thesis using that c opt_deleted [OF c(2)] by blast
qed

end

text \<open>\<open>x->field = create();\<close>, with the answer whether the pointer is not null.\<close>

definition create_field ::
  "(cell \<Rightarrow> 'r option) \<Rightarrow> ('r \<Rightarrow> cell) \<Rightarrow> (addr \<Rightarrow> 'r \<Rightarrow> 'r) \<Rightarrow> (mem \<Rightarrow> (addr \<times> mem) cres) \<Rightarrow> addr \<Rightarrow> mem \<Rightarrow> (bool \<times> mem) cres" where
  "create_field as mk upd create p m =
     bindr (create m) (\<lambda>(q, m1). bindr (load as p m1) (\<lambda>x. bindr (store (mk (upd q x)) p m1) (\<lambda>m2. Ok (q \<noteq> 0, m2))))"

context heap_class
begin

lemma field_created:
  assumes "mem_ok m" and "load as p m = Ok x" and "\<And>y. as (mk y) = Some y"
  shows "\<exists>q qs m'. create_field as mk upd create p m = Ok (q \<noteq> 0, m') \<and> load as p m' = Ok (upd q x) \<and> opt_at at q qs m'
     \<and> grew {p} (set qs) m m'"
proof -
  obtain q qs m1 where c: "create m = Ok (q, m1)" "opt_at at q qs m1" "grew {} (set qs) m m1" using created [OF assms(1)] by blast
  have p: "p \<noteq> 0" "fmlookup (blocks m) p \<noteq> None" using assms(2) by (auto simp: load_eq_Ok)
  then have new: "p \<notin> set qs" using fresh [OF assms(1) c(3)] by auto
  then have same: "fmlookup (blocks m1) p = fmlookup (blocks m) p" using c(3) by (simp add: grew_def)
  then have "create_field as mk upd create p m = Ok (q \<noteq> 0, put p (mk (upd q x)) m1)"
    using assms(2) c(1) p by (simp add: create_field_def load_def store_put)
  moreover have "opt_at at q qs (put p (mk (upd q x)) m1)" using opt_elsewhere [OF c(2) agree_put [OF new]] .
  moreover have "grew {p} (set qs) m (put p (mk (upd q x)) m1)"
    using c(3) p same by (auto simp: grew_def mem_ok_iff)
  moreover have "load as p (put p (mk (upd q x)) m1) = Ok (upd q x)" using p(1) assms(3) by (simp add: load_def)
  ultimately show ?thesis by blast
qed

end

section \<open>Buffers and receivers\<close>

definition buffer_create_h :: "(addr \<Rightarrow> bool) \<Rightarrow> mem \<Rightarrow> (addr \<times> mem) cres" where
  "buffer_create_h g m =
     (let (buffer, m1) = malloc g (Buffer_Cell 0) m in
      if buffer = 0 then Ok (0, m1)
      else
        (let (d, m2) = malloc g Raw m1 in
         bindr (store (Buffer_Cell d) buffer m2) (\<lambda>m3.
         if d = 0 then bindr (buffer_delete buffer m3) (\<lambda>m4. Ok (0, m4)) else Ok (buffer, m3))))"

interpretation buffer: heap_class buffer_at buffer_delete "buffer_create_h g" for g
proof
  fix m
  assume ok: "mem_ok m"
  show "\<exists>p bs m'. buffer_create_h g m = Ok (p, m') \<and> opt_at buffer_at p bs m' \<and> grew {} (set bs) m m'"
    using ok
  proof (cases rule: malloc_cases [where g = g and c = "Buffer_Cell 0"])
    case (granted m1)
    let ?p = "brk m"
    have ok1: "mem_ok m1" "?p < brk m1" using granted(2) by (auto simp: grew_def)
    show ?thesis
      using ok1(1)
    proof (cases rule: malloc_cases [where g = g and c = Raw])
      case (granted m2)
      note g2 = this
      let ?m = "put ?p (Buffer_Cell (brk m1)) m2"
      have "fmlookup (blocks m2) ?p \<noteq> None" using g2(2) \<open>fmlookup (blocks m1) (brk m) = _\<close> ok1(2) by (simp add: grew_def)
      then have "buffer_create_h g m = Ok (?p, ?m)" using \<open>malloc g _ m = _\<close> g2(1,4) \<open>0 < brk m\<close>
        by (simp add: buffer_create_h_def store_put)
      moreover have "buffer_at ?p [brk m1, ?p] ?m"
        using g2 ok1(2) \<open>0 < brk m\<close> by (auto simp: buffer_at_def load_def raw_at_def)
      moreover have "grew {} (set [brk m1, ?p]) m ?m"
        using grew_put [OF grew_trans [OF \<open>grew {} {brk m} m m1\<close> g2(2)], of ?p "Buffer_Cell (brk m1)"] \<open>0 < brk m\<close> by (simp add: insert_commute)
      ultimately show ?thesis using \<open>0 < brk m\<close> by (auto simp: opt_at_def)
    next
      case (refused m2)
      let ?m = "put ?p (Buffer_Cell 0) m2"
      have "fmlookup (blocks m2) ?p \<noteq> None" using refused(2) granted(3) by (simp add: grew_def)
      then have "buffer_create_h g m = Ok (0, release {?p} ?m)" using granted refused(1)
        by (simp add: buffer_create_h_def store_put buffer_delete_def load_def free_live live_def)
      moreover have "grew {} {} m (release {?p} ?m)"
        using grew_release [OF ok grew_put [OF grew_trans [OF granted(2) refused(2)], of ?p "Buffer_Cell 0"], of "{?p}"] granted(4) by simp
      ultimately show ?thesis by (auto simp: opt_at_def)
    qed
  next
    case (refused m1)
    then show ?thesis by (auto simp: buffer_create_h_def opt_at_def)
  qed
qed

definition wsmsg_create_h :: "(addr \<Rightarrow> bool) \<Rightarrow> mem \<Rightarrow> (addr \<times> mem) cres" where
  "wsmsg_create_h g m =
     (let (wsmsg, m1) = malloc g (Wsmsg_Cell \<lparr>hw_frame_buffer = 0, hw_frame_data = 0, hw_message_buffer = 0\<rparr>) m;
          error = (\<lambda>m. bindr (wsmsg_delete wsmsg m) (\<lambda>m'. Ok (0, m')))
      in if wsmsg = 0 then Ok (0, m1)
      else
        bindr (create_field as_wsmsg Wsmsg_Cell (\<lambda>q. hw_frame_buffer_update (\<lambda>_. q)) (buffer_create_h g) wsmsg m1) (\<lambda>(ok, m2).
        if \<not> ok then error m2
        else
          bindr (create_field as_wsmsg Wsmsg_Cell (\<lambda>q. hw_message_buffer_update (\<lambda>_. q)) (buffer_create_h g) wsmsg m2) (\<lambda>(ok, m3).
          if \<not> ok then error m3
          else
            bindr (create_field as_wsmsg Wsmsg_Cell (\<lambda>q. hw_frame_data_update (\<lambda>_. q)) (buffer_create_h g) wsmsg m3) (\<lambda>(ok, m4).
            if \<not> ok then error m4 else Ok (wsmsg, m4)))))"

text \<open>A receiver under construction: whatever has been created since the heap \<open>m\<close> belongs to it.\<close>

definition wsmsg_new :: "mem \<Rightarrow> wsmsg_h \<Rightarrow> addr \<Rightarrow> mem \<Rightarrow> bool" where
  "wsmsg_new m w p m1 \<longleftrightarrow> (\<exists>ds ms fs. load as_wsmsg p m1 = Ok w \<and> opt_at buffer_at (hw_frame_data w) ds m1
     \<and> opt_at buffer_at (hw_message_buffer w) ms m1 \<and> opt_at buffer_at (hw_frame_buffer w) fs m1
     \<and> distinct (ds @ ms @ fs @ [p]) \<and> grew {} (set (ds @ ms @ fs @ [p])) m m1)"

lemma wsmsg_new_at: "wsmsg_new m w p m1 \<Longrightarrow> \<exists>bs. wsmsg_at p bs m1 \<and> grew {} (set bs) m m1"
  unfolding wsmsg_new_def wsmsg_at_def by blast

lemma wsmsg_new_field:
  assumes "wsmsg_new m w p m1"
    and "upd = (\<lambda>q. hw_frame_buffer_update (\<lambda>_. q)) \<and> hw_frame_buffer w = 0
       \<or> upd = (\<lambda>q. hw_message_buffer_update (\<lambda>_. q)) \<and> hw_message_buffer w = 0
       \<or> upd = (\<lambda>q. hw_frame_data_update (\<lambda>_. q)) \<and> hw_frame_data w = 0"
  shows "\<exists>q m2. create_field as_wsmsg Wsmsg_Cell upd (buffer_create_h g) p m1 = Ok (q \<noteq> 0, m2) \<and> wsmsg_new m (upd q w) p m2"
proof -
  obtain ds ms fs where w: "load as_wsmsg p m1 = Ok w" "opt_at buffer_at (hw_frame_data w) ds m1"
    "opt_at buffer_at (hw_message_buffer w) ms m1" "opt_at buffer_at (hw_frame_buffer w) fs m1"
    "distinct (ds @ ms @ fs @ [p])" "grew {} (set (ds @ ms @ fs @ [p])) m m1"
    using assms(1) by (auto simp: wsmsg_new_def)
  obtain q qs m2 where q: "create_field as_wsmsg Wsmsg_Cell upd (buffer_create_h g) p m1 = Ok (q \<noteq> 0, m2)"
    "load as_wsmsg p m2 = Ok (upd q w)" "opt_at buffer_at q qs m2" "grew {p} (set qs) m1 m2"
    using buffer.field_created [OF grew_ok [OF w(6)] w(1), of Wsmsg_Cell upd g] by auto
  have dis: "set (ds @ ms @ fs @ [p]) \<inter> set qs = {}" "distinct qs"
    using grew_disjoint [OF w(6) q(4)] buffer.opt_owned [OF q(3)] by auto
  have "agree (set (ds @ ms @ fs)) m1 m2" using grew_agree [OF q(4)] dis w(5) by auto
  then have old: "opt_at buffer_at (hw_frame_data w) ds m2" "opt_at buffer_at (hw_message_buffer w) ms m2"
    "opt_at buffer_at (hw_frame_buffer w) fs m2"
    using w(2-4) by (auto elim!: buffer.opt_elsewhere agree_mono)
  have g: "grew {} (set (ds @ ms @ fs @ [p]) \<union> set qs) m m2" using grew_trans [OF w(6) q(4)] by simp
  from assms(2) have "wsmsg_new m (upd q w) p m2"
  proof (elim disjE conjE)
    assume u: "upd = (\<lambda>q. hw_frame_buffer_update (\<lambda>_. q))" "hw_frame_buffer w = 0"
    then have "fs = []" using w(4) by (simp add: opt_at_def)
    then show ?thesis unfolding wsmsg_new_def using old q(2,3) u(1) dis w(5) g by (intro exI [of _ ds] exI [of _ ms] exI [of _ qs]) (auto simp: Un_ac)
  next
    assume u: "upd = (\<lambda>q. hw_message_buffer_update (\<lambda>_. q))" "hw_message_buffer w = 0"
    then have "ms = []" using w(3) by (simp add: opt_at_def)
    then show ?thesis unfolding wsmsg_new_def using old q(2,3) u(1) dis w(5) g by (intro exI [of _ ds] exI [of _ qs] exI [of _ fs]) (auto simp: Un_ac)
  next
    assume u: "upd = (\<lambda>q. hw_frame_data_update (\<lambda>_. q))" "hw_frame_data w = 0"
    then have "ds = []" using w(2) by (simp add: opt_at_def)
    then show ?thesis unfolding wsmsg_new_def using old q(2,3) u(1) dis w(5) g by (intro exI [of _ qs] exI [of _ ms] exI [of _ fs]) (auto simp: Un_ac)
  qed
  then show ?thesis using q(1) by blast
qed

lemma wsmsg_new_error:
  assumes "mem_ok m" and "wsmsg_new m w p m1"
  shows "\<exists>m'. wsmsg_delete p m1 = Ok m' \<and> grew {} {} m m'"
proof -
  obtain bs where "wsmsg_at p bs m1" "grew {} (set bs) m m1" using wsmsg_new_at [OF assms(2)] by blast
  then show ?thesis using wsmsg.deleted grew_release [OF assms(1), of "set bs" m1 "set bs"] by auto
qed

interpretation wsmsg: heap_class wsmsg_at wsmsg_delete "wsmsg_create_h g" for g
proof
  fix m
  assume ok: "mem_ok m"
  let ?w = "\<lparr>hw_frame_buffer = 0, hw_frame_data = 0, hw_message_buffer = 0\<rparr>"
  show "\<exists>p bs m'. wsmsg_create_h g m = Ok (p, m') \<and> opt_at wsmsg_at p bs m' \<and> grew {} (set bs) m m'"
    using ok
  proof (cases rule: malloc_cases [where g = g and c = "Wsmsg_Cell ?w"])
    case (granted m1)
    let ?p = "brk m"
    have new: "wsmsg_new m ?w ?p m1" using granted(2-4) by (simp add: wsmsg_new_def load_def opt_at_def)
    obtain q2 m2 where f2: "create_field as_wsmsg Wsmsg_Cell (\<lambda>q. hw_frame_buffer_update (\<lambda>_. q)) (buffer_create_h g) ?p m1 = Ok (q2 \<noteq> 0, m2)"
      "wsmsg_new m (?w\<lparr>hw_frame_buffer := q2\<rparr>) ?p m2"
      using wsmsg_new_field [OF new, of "\<lambda>q. hw_frame_buffer_update (\<lambda>_. q)" g] by auto
    obtain q3 m3 where f3: "create_field as_wsmsg Wsmsg_Cell (\<lambda>q. hw_message_buffer_update (\<lambda>_. q)) (buffer_create_h g) ?p m2 = Ok (q3 \<noteq> 0, m3)"
      "wsmsg_new m (?w\<lparr>hw_frame_buffer := q2, hw_message_buffer := q3\<rparr>) ?p m3"
      using wsmsg_new_field [OF f2(2), of "\<lambda>q. hw_message_buffer_update (\<lambda>_. q)" g] by auto
    obtain q4 m4 where f4: "create_field as_wsmsg Wsmsg_Cell (\<lambda>q. hw_frame_data_update (\<lambda>_. q)) (buffer_create_h g) ?p m3 = Ok (q4 \<noteq> 0, m4)"
      "wsmsg_new m (?w\<lparr>hw_frame_buffer := q2, hw_message_buffer := q3, hw_frame_data := q4\<rparr>) ?p m4"
      using wsmsg_new_field [OF f3(2), of "\<lambda>q. hw_frame_data_update (\<lambda>_. q)" g] by auto
    obtain e2 e3 e4 where e: "wsmsg_delete ?p m2 = Ok e2" "grew {} {} m e2" "wsmsg_delete ?p m3 = Ok e3" "grew {} {} m e3"
      "wsmsg_delete ?p m4 = Ok e4" "grew {} {} m e4"
      using wsmsg_new_error [OF ok f2(2)] wsmsg_new_error [OF ok f3(2)] wsmsg_new_error [OF ok f4(2)] by blast
    obtain bs where bs: "wsmsg_at ?p bs m4" "grew {} (set bs) m m4" using wsmsg_new_at [OF f4(2)] by blast
    have opt: "opt_at wsmsg_at ?p bs m4" "opt_at wsmsg_at 0 [] m'" for m' using bs(1) granted(4) by (auto simp: opt_at_def)
    have "wsmsg_create_h g m = Ok (?p, m4) \<or> (\<exists>m'. wsmsg_create_h g m = Ok (0, m') \<and> grew {} (set []) m m')"
      using granted(1,4) f2(1) f3(1) f4(1) e by (auto simp: wsmsg_create_h_def Let_def)
    then show ?thesis using bs(2) opt by blast
  next
    case (refused m1)
    then show ?thesis by (auto simp: wsmsg_create_h_def opt_at_def)
  qed
qed

section \<open>Requests, parsers and framers\<close>

definition rq_create_h :: "(addr \<Rightarrow> bool) \<Rightarrow> mem \<Rightarrow> (addr \<times> mem) cres" where
  "rq_create_h g m =
     (let (h, m1) = malloc g (Request_Cell \<lparr>hq_line = 0, hq_protocols_head = 0\<rparr>) m in
      if h = 0 then Ok (0, m1)
      else
        (let (line, m2) = malloc g Raw m1 in
         if line = 0 then bindr (free h m2) (\<lambda>m3. Ok (0, m3))
         else bindr (store (Request_Cell \<lparr>hq_line = line, hq_protocols_head = 0\<rparr>) h m2) (\<lambda>m3. Ok (h, m3))))"

text \<open>A parser of expat is a new object or null.\<close>

definition streamparser_create_h :: "(addr \<Rightarrow> bool) \<Rightarrow> mem \<Rightarrow> (addr \<times> mem) cres" where
  "streamparser_create_h g m =
     (let (parser, m1) = malloc g (Parser_Cell \<lparr>hp_parser = 0, hp_server = 0\<rparr>) m in
      if parser = 0 then Ok (0, m1)
      else
        (let (x, m2) = malloc g Raw m1 in
         bindr (store (Parser_Cell \<lparr>hp_parser = x, hp_server = 0\<rparr>) parser m2) (\<lambda>m3.
         if x = 0 then bindr (free parser m3) (\<lambda>m4. Ok (0, m4)) else Ok (parser, m3))))"

text \<open>The error path of \<open>framer_create\<close> frees the buffer and the parser, and not the framer.\<close>

definition framer_create_h :: "destructors \<Rightarrow> (addr \<Rightarrow> bool) \<Rightarrow> mem \<Rightarrow> (addr \<times> mem) cres" where
  "framer_create_h l g m =
     (let (framer, m1) = malloc g (Framer_Cell \<lparr>hf_parser = 0, hf_head = 0, hf_tail = 0, hf_buffer = 0\<rparr>) m;
          error = (\<lambda>e. bindr (delete_field as_framer hf_buffer buffer_delete framer e) (\<lambda>e1.
                       bindr (delete_field as_framer hf_parser (XML_ParserFree l) framer e1) (\<lambda>e2. Ok (0, e2))))
      in if framer = 0 then Ok (0, m1)
      else
        (let (x, m2) = malloc g Raw m1 in
         bindr (store (Framer_Cell \<lparr>hf_parser = x, hf_head = 0, hf_tail = 0, hf_buffer = 0\<rparr>) framer m2) (\<lambda>m3.
         if x = 0 then error m3
         else
           bindr (create_field as_framer Framer_Cell (\<lambda>q. hf_buffer_update (\<lambda>_. q)) (buffer_create_h g) framer m3) (\<lambda>(ok, m4).
           if \<not> ok then error m4 else Ok (framer, m4)))))"

section \<open>The connection manager and the connection\<close>

text \<open>The error path of \<open>cm_create\<close> frees the structures with \<open>free\<close>, and not what they own.\<close>

definition cm_create_h :: "destructors \<Rightarrow> (addr \<Rightarrow> bool) \<Rightarrow> mem \<Rightarrow> (addr \<times> mem) cres" where
  "cm_create_h l g m =
     (let (cm, m1) = malloc g (Manager_Cell cm_empty) m;
          error = (\<lambda>e. bindr (free_field as_manager hm_framer cm e) (\<lambda>e1. bindr (free_field as_manager hm_buffer cm e1) (\<lambda>e2.
                       bindr (free_field as_manager hm_parser cm e2) (\<lambda>e3. bindr (free cm e3) (\<lambda>e4. Ok (0, e4))))))
      in if cm = 0 then Fault Null_Pointer
      else
        bindr (create_field as_manager Manager_Cell (\<lambda>q. hm_parser_update (\<lambda>_. q)) (streamparser_create_h g) cm m1) (\<lambda>(ok, m2).
        if \<not> ok then error m2
        else
          bindr (create_field as_manager Manager_Cell (\<lambda>q. hm_buffer_update (\<lambda>_. q)) (buffer_create_h g) cm m2) (\<lambda>(ok, m3).
          if \<not> ok then error m3
          else
            bindr (create_field as_manager Manager_Cell (\<lambda>q. hm_framer_update (\<lambda>_. q)) (framer_create_h l g) cm m3) (\<lambda>(ok, m4).
            if \<not> ok then error m4 else Ok (cm, m4)))))"

text \<open>\<open>wsconn_create\<close> for the connection manager. The bufferevent is a new object or null; the error path does not
  free it, and without one \<open>bufferevent_setcb\<close> follows a null pointer.\<close>

definition conn_zero :: wsconn_h where
  "conn_zero = \<lparr>hc_bev = 0, hc_req = 0, hc_wsmsg = 0, hc_message_buffer = 0, hc_cb = True, hc_custom_ctx = 0\<rparr>"

definition wsconn_create_h :: "destructors \<Rightarrow> (addr \<Rightarrow> bool) \<Rightarrow> mem \<Rightarrow> (addr \<times> mem) cres" where
  "wsconn_create_h l g m =
     (let (conn, m1) = malloc g (Conn_Cell conn_zero) m;
          error = (\<lambda>e. bindr (delete_field as_conn hc_custom_ctx (cm_delete_h l) conn e) (\<lambda>e1.
                       bindr (delete_field as_conn hc_message_buffer buffer_delete conn e1) (\<lambda>e2.
                       bindr (delete_field as_conn hc_wsmsg wsmsg_delete conn e2) (\<lambda>e3.
                       bindr (delete_field as_conn hc_req rq_delete conn e3) (\<lambda>e4. bindr (free conn e4) (\<lambda>e5. Ok (0, e5)))))))
      in if conn = 0 then Ok (0, m1)
      else
        bindr (create_field as_conn Conn_Cell (\<lambda>q. hc_bev_update (\<lambda>_. q)) (\<lambda>m. Ok (malloc g Raw m)) conn m1) (\<lambda>(bev, m2).
        bindr (create_field as_conn Conn_Cell (\<lambda>q. hc_req_update (\<lambda>_. q)) (rq_create_h g) conn m2) (\<lambda>(ok, m3).
        if \<not> ok then error m3
        else
          bindr (create_field as_conn Conn_Cell (\<lambda>q. hc_wsmsg_update (\<lambda>_. q)) (wsmsg_create_h g) conn m3) (\<lambda>(ok, m4).
          if \<not> ok then error m4
          else
            bindr (create_field as_conn Conn_Cell (\<lambda>q. hc_message_buffer_update (\<lambda>_. q)) (buffer_create_h g) conn m4) (\<lambda>(ok, m5).
            if \<not> ok then error m5
            else
              bindr (create_field as_conn Conn_Cell (\<lambda>q. hc_custom_ctx_update (\<lambda>_. q)) (cm_create_h l g) conn m5) (\<lambda>(ok, m6).
              if \<not> ok then error m6 else if \<not> bev then Fault Null_Pointer else Ok (conn, m6)))))))"

section \<open>Objects that lose blocks\<close>

text \<open>When a creation succeeds, the new blocks are those its deletion frees, and those which the object refers to
  and nobody frees: \<open>lost p ls m\<close> says that \<open>ls\<close> are the latter.\<close>

locale heap_maker = heap_object +
  fixes create :: "mem \<Rightarrow> (addr \<times> mem) cres" and lost :: "addr \<Rightarrow> addr list \<Rightarrow> mem \<Rightarrow> bool"
  assumes lost_live: "lost p ls m \<Longrightarrow> b \<in> set ls \<Longrightarrow> live b m"
    and lost_elsewhere: "at p bs m \<Longrightarrow> lost p ls m \<Longrightarrow> agree (set bs \<union> set ls) m m' \<Longrightarrow> lost p ls m'"
    and made: "mem_ok m \<Longrightarrow> create m = Ok (p, m') \<Longrightarrow> p \<noteq> 0 \<Longrightarrow>
     \<exists>bs ls. at p bs m' \<and> lost p ls m' \<and> set bs \<inter> set ls = {} \<and> grew {} (set bs \<union> set ls) m m'"
begin

lemma make_then_delete:
  assumes "mem_ok m" and "create m = Ok (p, m')" and "p \<noteq> 0"
  obtains bs ls where "at p bs m'" "lost p ls m'" "set bs \<inter> set ls = {}" "delete p m' = Ok (release (set bs) m')"
    "mem_ok (release (set bs) m')" "agree (fmdom' (blocks m)) m (release (set bs) m')"
    "fmdom' (blocks (release (set bs) m')) = fmdom' (blocks m) \<union> set ls" "fmdom' (blocks m) \<inter> set ls = {}"
proof -
  obtain bs ls where o: "at p bs m'" "lost p ls m'" "set bs \<inter> set ls = {}" "grew {} (set bs \<union> set ls) m m'"
    using made [OF assms] by blast
  let ?m = "release (set bs) m'"
  have g: "grew {} (set ls) m ?m" using grew_release [OF assms(1) o(4), of "set bs"] o(3) by (simp add: Un_Diff Diff_triv inf_commute)
  have new: "b \<notin> fmdom' (blocks m)" if "b \<in> set ls" for b using fresh [OF assms(1) g that] by (simp add: fmlookup_dom'_iff)
  have "b \<in> fmdom' (blocks ?m) \<longleftrightarrow> b \<in> fmdom' (blocks m) \<or> b \<in> set ls" for b
    using g o(3) lost_live [OF o(2)] by (cases "b \<in> set ls") (auto simp: fmlookup_dom'_iff grew_def live_def)
  then have "fmdom' (blocks ?m) = fmdom' (blocks m) \<union> set ls" by blast
  moreover have "agree (fmdom' (blocks m)) m ?m" using grew_agree [OF g] new by auto
  ultimately show thesis using that o(1-3) deleted [OF o(1)] grew_ok [OF g] new by blast
qed

text \<open>The next field of an object under construction, whose blocks are \<open>B\<close>.\<close>

lemma add_field:
  assumes "grew {} B m m1" and "p \<in> B" and "load as p m1 = Ok x" and "\<And>y. as (mk y) = Some y"
    and "create_field as mk upd create p m1 = Ok (True, m2)"
  obtains q qs ls where "load as p m2 = Ok (upd q x)" "opt_at at q qs m2" "lost q ls m2" "set qs \<inter> set ls = {}" "distinct qs"
    "(set qs \<union> set ls) \<inter> B = {}" "agree (B - {p}) m1 m2" "grew {} (B \<union> (set qs \<union> set ls)) m m2" "q \<noteq> 0"
proof -
  obtain q m' where c: "create m1 = Ok (q, m')" "q \<noteq> 0" "m2 = put p (mk (upd q x)) m'"
  proof -
    obtain q m' x' where c: "create m1 = Ok (q, m')" "q \<noteq> 0" "load as p m' = Ok x'" "store (mk (upd q x')) p m' = Ok m2"
      using assms(5) by (auto simp: create_field_def bindr_eq_Ok split: prod.split_asm)
    obtain bs ls where "at q bs m'" "grew {} (set bs \<union> set ls) m1 m'" using made [OF grew_ok [OF assms(1)] c(1,2)] by blast
    moreover from this have "p \<notin> set bs \<union> set ls" using grew_disjoint [OF assms(1)] assms(2) by blast
    ultimately have "fmlookup (blocks m') p = fmlookup (blocks m1) p" by (simp add: grew_def)
    then have "x' = x" using c(3) assms(3) by (auto simp: load_eq_Ok)
    moreover have "m2 = put p (mk (upd q x')) m'"
      using c(3,4) store_put by (auto simp: load_eq_Ok)
    ultimately show thesis using that c by blast
  qed
  obtain qs ls where o: "at q qs m'" "lost q ls m'" "set qs \<inter> set ls = {}" "grew {} (set qs \<union> set ls) m1 m'"
    using made [OF grew_ok [OF assms(1)] c(1,2)] by blast
  have dis: "(set qs \<union> set ls) \<inter> B = {}" using grew_disjoint [OF assms(1) o(4)] by blast
  have p: "p \<notin> set qs" "p \<notin> set qs \<union> set ls" "p \<noteq> 0" using dis assms(2,3) by (auto simp: load_eq_Ok)
  have "load as p m2 = Ok (upd q x)" using c(3) p(3) assms(4) by (simp add: load_def)
  moreover have "at q qs m2" using elsewhere [OF o(1) agree_put [OF p(1)]] c(3) by simp
  moreover have "lost q ls m2" using lost_elsewhere [OF o(1,2) agree_put [OF p(2)]] c(3) by simp
  moreover have "grew {} (B \<union> (set qs \<union> set ls)) m m2"
    using grew_put [OF grew_trans [OF assms(1) o(4)]] assms(2) p(3) c(3) by simp
  moreover have "agree (B - {p}) m1 m2" using o(4) dis c(3) by (auto simp: agree_def grew_def)
  ultimately show thesis using that o(3) dis owned [OF o(1)] c(2) by (auto simp: opt_at_def)
qed

end

definition no_loss :: "addr \<Rightarrow> addr list \<Rightarrow> mem \<Rightarrow> bool" where
  [simp]: "no_loss p ls m \<longleftrightarrow> ls = []"

sublocale heap_class \<subseteq> heap_maker at delete create no_loss
proof
  fix m p m'
  assume "mem_ok m" "create m = Ok (p, m')" "p \<noteq> 0"
  then obtain bs where "at p bs m'" "grew {} (set bs) m m'" using created [of m] by (auto simp: opt_at_def)
  then show "\<exists>bs ls. at p bs m' \<and> no_loss p ls m' \<and> set bs \<inter> set ls = {} \<and> grew {} (set bs \<union> set ls) m m'"
    by (intro exI [of _ bs] exI [of _ "[]"]) simp
qed simp_all

lemma add_whole:
  assumes "heap_maker at del create no_loss" and "grew {} B m m1" and "p \<in> B" and "load as p m1 = Ok x" and "\<And>y. as (mk y) = Some y"
    and "create_field as mk upd create p m1 = Ok (True, m2)"
  obtains q qs where "load as p m2 = Ok (upd q x)" "opt_at at q qs m2" "distinct qs" "set qs \<inter> B = {}" "agree (B - {p}) m1 m2"
    "grew {} (B \<union> set qs) m m2" "q \<noteq> 0"
proof -
  from heap_maker.add_field [OF assms] obtain q qs ls where
    q: "load as p m2 = Ok (upd q x)" "opt_at at q qs m2" "distinct qs" "(set qs \<union> set ls) \<inter> B = {}" "agree (B - {p}) m1 m2"
      "grew {} (B \<union> (set qs \<union> set ls)) m m2" "q \<noteq> 0" and "no_loss q ls m2" by metis
  then show thesis using that q by simp
qed

text \<open>What the library hands out.\<close>

interpretation raw: heap_class raw_at free "\<lambda>m. Ok (malloc g Raw m)" for g
proof
  fix m
  assume "mem_ok m"
  then show "\<exists>p bs m'. Ok (malloc g Raw m) = Ok (p, m') \<and> opt_at raw_at p bs m' \<and> grew {} (set bs) m m'"
  proof (cases rule: malloc_cases [where g = g and c = Raw])
    case (granted m')
    then show ?thesis by (intro exI [of _ "brk m"] exI [of _ "[brk m]"] exI [of _ m']) (simp add: opt_at_def raw_at_def)
  next
    case (refused m')
    then show ?thesis by (auto simp: opt_at_def)
  qed
qed

text \<open>A new block with a new block in one of its fields.\<close>

lemma malloc_pair:
  assumes "mem_ok m" and "malloc g c m = (p, m1)" and "p \<noteq> 0" and "malloc g Raw m1 = (q, m2)"
  shows "mem_ok m1" "fmlookup (blocks m1) p = Some c" "grew {} {p} m m1" "fmlookup (blocks m2) p = Some c"
    "q \<noteq> 0 \<Longrightarrow> q \<noteq> p \<and> fmlookup (blocks m2) q = Some Raw \<and> grew {} {p, q} m m2" "q = 0 \<Longrightarrow> grew {} {p} m m2"
proof -
  have p: "p = brk m" "grew {} {p} m m1" "fmlookup (blocks m1) p = Some c"
    using assms(1,2,3) by (cases rule: malloc_cases [where g = g and c = c]; simp)+
  then show ok: "mem_ok m1" "grew {} {p} m m1" "fmlookup (blocks m1) p = Some c" by (auto intro: grew_ok)
  have "p < brk m1" using p(2) by (simp add: grew_def)
  from ok(1) show "fmlookup (blocks m2) p = Some c" "q \<noteq> 0 \<Longrightarrow> q \<noteq> p \<and> fmlookup (blocks m2) q = Some Raw \<and> grew {} {p, q} m m2"
    "q = 0 \<Longrightarrow> grew {} {p} m m2"
    using assms(4) \<open>p < brk m1\<close> p(3) grew_trans [OF p(2), of "{}" _ m2]
    by (cases rule: malloc_cases [where g = g and c = Raw]; fastforce simp: grew_def [of "{}" _ m1])+
qed

text \<open>The line of a request is never freed.\<close>

definition rq_lost :: "addr \<Rightarrow> addr list \<Rightarrow> mem \<Rightarrow> bool" where
  "rq_lost p ls m \<longleftrightarrow> (\<exists>q. load as_request p m = Ok q \<and> raw_at (hq_line q) ls m)"

lemma rq_lost_elsewhere:
  assumes "rq_at p bs m" and "rq_lost p ls m" and "agree (set bs \<union> set ls) m m'"
  shows "rq_lost p ls m'"
proof -
  obtain q where q: "load as_request p m = Ok q" "raw_at (hq_line q) ls m" using assms(2) by (auto simp: rq_lost_def)
  have "load as_request p m' = Ok q" using load_elsewhere [OF q(1) _ assms(3)] rq.owned [OF assms(1)] by simp
  moreover have "raw_at (hq_line q) ls m'" using raw.elsewhere [OF q(2) agree_mono [OF assms(3)]] by simp
  ultimately show ?thesis by (auto simp: rq_lost_def)
qed

interpretation rq: heap_maker rq_at rq_delete "rq_create_h g" rq_lost for g
proof
  show "live b m" if "rq_lost p ls m" "b \<in> set ls" for p ls m b
    using that raw.owned by (auto simp: rq_lost_def)
  show "rq_lost p ls m'" if "rq_at p bs m" "rq_lost p ls m" "agree (set bs \<union> set ls) m m'" for p bs ls m m'
    using rq_lost_elsewhere [OF that] .
  fix m p m'
  assume ok: "mem_ok m" and c: "rq_create_h g m = Ok (p, m')" "p \<noteq> 0"
  obtain m1 line m2 where r: "malloc g (Request_Cell \<lparr>hq_line = 0, hq_protocols_head = 0\<rparr>) m = (p, m1)" "malloc g Raw m1 = (line, m2)"
    "line \<noteq> 0" "store (Request_Cell \<lparr>hq_line = line, hq_protocols_head = 0\<rparr>) p m2 = Ok m'"
    using c by (auto simp: rq_create_h_def bindr_eq_Ok split: prod.split_asm if_split_asm)
  note a = malloc_pair [OF ok r(1) c(2) r(2)]
  have n: "line \<noteq> p" "fmlookup (blocks m2) line = Some Raw" "grew {} {p, line} m m2" using a(5) r(3) by auto
  have m': "m' = put p (Request_Cell \<lparr>hq_line = line, hq_protocols_head = 0\<rparr>) m2" using r(4) store_put [OF c(2)] a(4) by simp
  have "rq_at p [p] m'" using m' c(2) by (auto simp: rq_at_def load_def)
  moreover have "rq_lost p [line] m'" using n r(3) m' c(2) by (auto simp: rq_lost_def load_def raw_at_def)
  moreover have "grew {} (set [p] \<union> set [line]) m m'" using grew_put [OF n(3), of p] c(2) m' by (simp add: insert_commute)
  ultimately show "\<exists>bs ls. rq_at p bs m' \<and> rq_lost p ls m' \<and> set bs \<inter> set ls = {} \<and> grew {} (set bs \<union> set ls) m m'"
    using n(1) by (intro exI [of _ "[p]"] exI [of _ "[line]"]) simp
qed

lemma no_loss_maker:
  assumes "heap_object at delete" and "\<And>m p m'. mem_ok m \<Longrightarrow> create m = Ok (p, m') \<Longrightarrow> p \<noteq> 0 \<Longrightarrow>
     \<exists>bs ls. at p bs m' \<and> no_loss p ls m' \<and> set bs \<inter> set ls = {} \<and> grew {} (set bs \<union> set ls) m m'"
  shows "heap_maker at delete create no_loss"
  using assms by (intro heap_maker.intro heap_maker_axioms.intro) auto

lemma streamparser_maker:
  assumes "library_ok l"
  shows "heap_maker streamparser_at (streamparser_delete l) (streamparser_create_h g) no_loss"
proof (intro no_loss_maker streamparser_object [OF assms])
  fix m p m'
  assume ok: "mem_ok m" and c: "streamparser_create_h g m = Ok (p, m')" "p \<noteq> 0"
  obtain m1 x m2 where r: "malloc g (Parser_Cell \<lparr>hp_parser = 0, hp_server = 0\<rparr>) m = (p, m1)" "malloc g Raw m1 = (x, m2)"
    "x \<noteq> 0" "store (Parser_Cell \<lparr>hp_parser = x, hp_server = 0\<rparr>) p m2 = Ok m'"
    using c by (auto simp: streamparser_create_h_def bindr_eq_Ok split: prod.split_asm if_split_asm)
  note a = malloc_pair [OF ok r(1) c(2) r(2)]
  have n: "x \<noteq> p" "fmlookup (blocks m2) x = Some Raw" "grew {} {p, x} m m2" using a(5) r(3) by auto
  have m': "m' = put p (Parser_Cell \<lparr>hp_parser = x, hp_server = 0\<rparr>) m2" using r(4) store_put [OF c(2)] a(4) by simp
  have "streamparser_at p [x, p] m'" using m' c(2) n r(3) by (auto simp: streamparser_at_def load_def opt_at_def raw_at_def)
  moreover have "grew {} (set [x, p]) m m'" using grew_put [OF n(3), of p] c(2) m' by (simp add: insert_commute)
  ultimately show "\<exists>bs ls. streamparser_at p bs m' \<and> no_loss p ls m' \<and> set bs \<inter> set ls = {} \<and> grew {} (set bs \<union> set ls) m m'"
    by (intro exI [of _ "[x, p]"] exI [of _ "[]"]) simp
qed

lemma framer_created:
  assumes ok: "mem_ok m" and c: "framer_create_h l g m = Ok (p, m')" "p \<noteq> 0"
  obtains x q qs where "load as_framer p m' = Ok \<lparr>hf_parser = x, hf_head = 0, hf_tail = 0, hf_buffer = q\<rparr>"
    "opt_at raw_at x [x] m'" "opt_at buffer_at q qs m'" "distinct (x # qs @ [p])" "grew {} (set (x # qs @ [p])) m m'"
proof -
  obtain m1 x m2 m3 where r: "malloc g (Framer_Cell \<lparr>hf_parser = 0, hf_head = 0, hf_tail = 0, hf_buffer = 0\<rparr>) m = (p, m1)"
    "malloc g Raw m1 = (x, m2)" "x \<noteq> 0" "store (Framer_Cell \<lparr>hf_parser = x, hf_head = 0, hf_tail = 0, hf_buffer = 0\<rparr>) p m2 = Ok m3"
    "create_field as_framer Framer_Cell (\<lambda>q. hf_buffer_update (\<lambda>_. q)) (buffer_create_h g) p m3 = Ok (True, m')"
    using c by (auto simp: framer_create_h_def bindr_eq_Ok Let_def split: prod.split_asm if_split_asm)
  note a = malloc_pair [OF ok r(1) c(2) r(2)]
  have n: "x \<noteq> p" "fmlookup (blocks m2) x = Some Raw" "grew {} {p, x} m m2" using a(5) r(3) by auto
  let ?f = "\<lparr>hf_parser = x, hf_head = 0, hf_tail = 0, hf_buffer = 0\<rparr>"
  have m3: "m3 = put p (Framer_Cell ?f) m2" using r(4) store_put [OF c(2)] a(4) by simp
  have g3: "grew {} {p, x} m m3" "load as_framer p m3 = Ok ?f" using grew_put [OF n(3), of p] c(2) m3 by (auto simp: load_def)
  obtain q qs where q: "load as_framer p m' = Ok (?f\<lparr>hf_buffer := q\<rparr>)" "opt_at buffer_at q qs m'" "distinct qs"
    "set qs \<inter> {p, x} = {}" "agree ({p, x} - {p}) m3 m'" "grew {} ({p, x} \<union> set qs) m m'"
    by (rule buffer.add_field [OF g3(1) _ g3(2) _ r(5)]) auto
  have "raw_at x [x] m'" using q(5) n r(3) m3 by (auto simp: agree_def raw_at_def)
  then have "opt_at raw_at x [x] m'" using r(3) by (simp add: opt_at_def)
  moreover have "grew {} (set (x # qs @ [p])) m m'" using q(6) by (simp add: insert_commute)
  ultimately show thesis using that [of x q qs] q(1-4) n(1) by auto
qed

lemma framer_maker:
  assumes "library_ok l"
  shows "heap_maker framer_at (framer_delete_h l) (framer_create_h l g) no_loss"
proof (intro no_loss_maker framer_object [OF assms])
  fix m p m'
  assume "mem_ok m" "framer_create_h l g m = Ok (p, m')" "p \<noteq> 0"
  then obtain x q qs where f: "load as_framer p m' = Ok \<lparr>hf_parser = x, hf_head = 0, hf_tail = 0, hf_buffer = q\<rparr>"
    "opt_at raw_at x [x] m'" "opt_at buffer_at q qs m'" "distinct (x # qs @ [p])" "grew {} (set (x # qs @ [p])) m m'"
    by (rule framer_created)
  have "framer_at p (x # qs @ [p]) m'"
    unfolding framer_at_def using f(1-4)
    by (intro exI [of _ "\<lparr>hf_parser = x, hf_head = 0, hf_tail = 0, hf_buffer = q\<rparr>"] exI [of _ "[x]"] exI [of _ qs] exI [of _ "[]"]) auto
  then show "\<exists>bs ls. framer_at p bs m' \<and> no_loss p ls m' \<and> set bs \<inter> set ls = {} \<and> grew {} (set bs \<union> set ls) m m'"
    using f(5) by (intro exI [of _ "x # qs @ [p]"] exI [of _ "[]"]) simp
qed

lemma malloc_new:
  assumes "mem_ok m" and "malloc g c m = (p, m1)" and "p \<noteq> 0"
  shows "grew {} {p} m m1" "fmlookup (blocks m1) p = Some c"
  using assms by (cases rule: malloc_cases [where g = g and c = c]; simp)+

lemma cm_maker:
  assumes "library_ok l"
  shows "heap_maker cm_at (cm_delete_h l) (cm_create_h l g) no_loss"
proof (intro no_loss_maker cm_object [OF assms])
  fix m p m'
  assume ok: "mem_ok m" and c: "cm_create_h l g m = Ok (p, m')" "p \<noteq> 0"
  note mk = streamparser_maker [OF assms] framer_maker [OF assms] and els = heap_object.opt_elsewhere [OF streamparser_object [OF assms]]
  obtain m1 m2 m3 where r: "malloc g (Manager_Cell cm_empty) m = (p, m1)"
    "create_field as_manager Manager_Cell (\<lambda>q. hm_parser_update (\<lambda>_. q)) (streamparser_create_h g) p m1 = Ok (True, m2)"
    "create_field as_manager Manager_Cell (\<lambda>q. hm_buffer_update (\<lambda>_. q)) (buffer_create_h g) p m2 = Ok (True, m3)"
    "create_field as_manager Manager_Cell (\<lambda>q. hm_framer_update (\<lambda>_. q)) (framer_create_h l g) p m3 = Ok (True, m')"
    using c by (auto simp: cm_create_h_def bindr_eq_Ok Let_def split: prod.split_asm if_split_asm)
  have 1: "grew {} {p} m m1" "load as_manager p m1 = Ok cm_empty" using malloc_new [OF ok r(1) c(2)] c(2) by (auto simp: load_def)
  obtain a as where a: "load as_manager p m2 = Ok (cm_empty\<lparr>hm_parser := a\<rparr>)" "opt_at streamparser_at a as m2" "distinct as"
    "set as \<inter> {p} = {}" "grew {} ({p} \<union> set as) m m2"
    by (rule add_whole [OF mk(1) 1(1) _ 1(2) _ r(2)]) auto
  obtain b bs where b: "load as_manager p m3 = Ok (cm_empty\<lparr>hm_parser := a, hm_buffer := b\<rparr>)" "opt_at buffer_at b bs m3" "distinct bs"
    "set bs \<inter> ({p} \<union> set as) = {}" "agree ({p} \<union> set as - {p}) m2 m3" "grew {} ({p} \<union> set as \<union> set bs) m m3"
    by (rule buffer.add_field [OF a(5) _ a(1) _ r(3)]) auto
  obtain f fs where f: "load as_manager p m' = Ok (cm_empty\<lparr>hm_parser := a, hm_buffer := b, hm_framer := f\<rparr>)" "opt_at framer_at f fs m'"
    "distinct fs" "set fs \<inter> ({p} \<union> set as \<union> set bs) = {}" "agree ({p} \<union> set as \<union> set bs - {p}) m3 m'"
    "grew {} ({p} \<union> set as \<union> set bs \<union> set fs) m m'"
    by (rule add_whole [OF mk(2) b(6) _ b(1) _ r(4)]) auto
  have "agree (set as) m2 m3" "agree (set as) m3 m'" "agree (set bs) m3 m'" using b(5) f(5) a(4) b(4) by (auto intro: agree_mono)
  then have "opt_at streamparser_at a as m'" "opt_at buffer_at b bs m'" using a(2) b(2) els buffer.opt_elsewhere by blast+
  then have "cm_fields (cm_empty\<lparr>hm_parser := a, hm_buffer := b, hm_framer := f\<rparr>) (fs @ bs @ as) m'"
    unfolding cm_fields_def using f(2)
    by (intro exI [of _ fs] exI [of _ bs] exI [of _ as] exI [of _ "[]"]) (simp add: cm_empty_def opt_at_def)
  then have "cm_at p (fs @ bs @ as @ [p]) m'" unfolding cm_at_def using f(1,3,4) a(3,4) b(3,4) by fastforce
  moreover have "grew {} (set (fs @ bs @ as @ [p])) m m'" using f(6) by (simp add: ac_simps insert_commute)
  ultimately show "\<exists>bs ls. cm_at p bs m' \<and> no_loss p ls m' \<and> set bs \<inter> set ls = {} \<and> grew {} (set bs \<union> set ls) m m'"
    by (intro exI [of _ "fs @ bs @ as @ [p]"] exI [of _ "[]"]) simp
qed

lemma agree_live: "agree B m m' \<Longrightarrow> b \<in> B \<Longrightarrow> live b m' \<longleftrightarrow> live b m"
  by (simp add: agree_def live_def)

text \<open>The parts of a connection, also of one that is not complete.\<close>

definition conn_parts :: "wsconn_h \<Rightarrow> addr list \<Rightarrow> addr list \<Rightarrow> addr list \<Rightarrow> addr list \<Rightarrow> addr list \<Rightarrow> mem \<Rightarrow> bool" where
  "conn_parts c vs qs us ws xs m \<longleftrightarrow> opt_at raw_at (hc_bev c) vs m \<and> opt_at rq_at (hc_req c) qs m
     \<and> opt_at buffer_at (hc_message_buffer c) us m \<and> opt_at wsmsg_at (hc_wsmsg c) ws m \<and> opt_at cm_at (hc_custom_ctx c) xs m"

lemma conn_parts_kept:
  assumes "library_ok l" and "conn_parts c vs qs us ws xs m" and "agree B m m'" and "set (vs @ qs @ us @ ws @ xs) \<subseteq> B"
  shows "conn_parts c vs qs us ws xs m'"
proof -
  have g: "agree (set vs) m m'" "agree (set qs) m m'" "agree (set us) m m'" "agree (set ws) m m'" "agree (set xs) m m'"
    using assms(3,4) by (auto intro: agree_mono)
  have o: "opt_at raw_at (hc_bev c) vs m" "opt_at rq_at (hc_req c) qs m" "opt_at buffer_at (hc_message_buffer c) us m"
    "opt_at wsmsg_at (hc_wsmsg c) ws m" "opt_at cm_at (hc_custom_ctx c) xs m"
    using assms(2) by (auto simp: conn_parts_def)
  show ?thesis
    using raw.opt_elsewhere [OF o(1) g(1)] rq.opt_elsewhere [OF o(2) g(2)] buffer.opt_elsewhere [OF o(3) g(3)]
      wsmsg.opt_elsewhere [OF o(4) g(4)] heap_object.opt_elsewhere [OF cm_object [OF assms(1)] o(5) g(5)]
    by (simp add: conn_parts_def)
qed

lemma conn_parts_at:
  assumes "load as_conn p m = Ok c" and "conn_parts c vs qs us ws xs m" and "hc_cb c" and "hc_custom_ctx c \<noteq> 0"
    and "distinct (vs @ qs @ us @ ws @ xs @ [p])"
  shows "conn_at p (vs @ qs @ us @ ws @ xs @ [p]) m"
proof -
  have "if hc_cb c then cm_at (hc_custom_ctx c) xs m else xs = []" using assms(2-4) by (simp add: conn_parts_def opt_at_def)
  then show ?thesis using assms(1,2,5) unfolding conn_at_def conn_parts_def by blast
qed

text \<open>What a connection loses: the line of its request.\<close>

definition conn_lost :: "addr \<Rightarrow> addr list \<Rightarrow> mem \<Rightarrow> bool" where
  "conn_lost p ls m \<longleftrightarrow> (\<exists>c. load as_conn p m = Ok c \<and> rq_lost (hc_req c) ls m)"

lemma conn_lost_elsewhere:
  assumes "conn_at p bs m" and "conn_lost p ls m" and "agree (set bs \<union> set ls) m m'"
  shows "conn_lost p ls m'"
proof -
  obtain c qs where c: "load as_conn p m = Ok c" "opt_at rq_at (hc_req c) qs m" "set qs \<subseteq> set bs" "p \<in> set bs"
    using assms(1) unfolding conn_at_def by (elim exE conjE) (rule that, simp_all, blast)
  have r: "rq_lost (hc_req c) ls m" using assms(2) c(1) by (auto simp: conn_lost_def)
  then have "rq_at (hc_req c) qs m" using c(2) by (auto simp: opt_at_def rq_lost_def load_eq_Ok split: if_split_asm)
  moreover have "agree (set qs \<union> set ls) m m'" using agree_mono [OF assms(3)] c(3) by blast
  ultimately have "rq_lost (hc_req c) ls m'" using rq_lost_elsewhere r by blast
  moreover have "load as_conn p m' = Ok c" using load_elsewhere [OF c(1) _ assms(3)] c(4) by simp
  ultimately show ?thesis by (auto simp: conn_lost_def)
qed

lemma conn_lost_live: "conn_lost p ls m \<Longrightarrow> b \<in> set ls \<Longrightarrow> live b m"
  using rq.lost_live by (auto simp: conn_lost_def)

text \<open>The first half of the construction: the bufferevent and the request, with the line that is lost.\<close>

lemma conn_first_half:
  assumes l: "library_ok l" and ok: "mem_ok m" and c: "malloc g (Conn_Cell conn_zero) m = (p, m1)" "p \<noteq> 0"
    "create_field as_conn Conn_Cell (\<lambda>q. hc_bev_update (\<lambda>_. q)) (\<lambda>m. Ok (malloc g Raw m)) p m1 = Ok (True, m2)"
    "create_field as_conn Conn_Cell (\<lambda>q. hc_req_update (\<lambda>_. q)) (rq_create_h g) p m2 = Ok (True, m3)"
  obtains v vs q qs ls where "load as_conn p m3 = Ok (conn_zero\<lparr>hc_bev := v, hc_req := q\<rparr>)"
    "conn_parts (conn_zero\<lparr>hc_bev := v, hc_req := q\<rparr>) vs qs [] [] [] m3" "rq_at q qs m3" "rq_lost q ls m3"
    "distinct (vs @ qs @ [p])" "set (vs @ qs @ [p]) \<inter> set ls = {}" "grew {} (set (vs @ qs @ [p]) \<union> set ls) m m3"
proof -
  have 1: "grew {} {p} m m1" "load as_conn p m1 = Ok conn_zero" using malloc_new [OF ok c(1,2)] c(2) by (auto simp: load_def)
  obtain v vs where v: "load as_conn p m2 = Ok (conn_zero\<lparr>hc_bev := v\<rparr>)" "opt_at raw_at v vs m2" "distinct vs"
    "set vs \<inter> {p} = {}" "grew {} ({p} \<union> set vs) m m2"
    by (rule raw.add_field [OF 1(1) _ 1(2) _ c(3)]) auto
  have 2: "conn_parts (conn_zero\<lparr>hc_bev := v\<rparr>) vs [] [] [] [] m2" using v(2) by (simp add: conn_parts_def opt_at_def conn_zero_def)
  let ?V = "{p} \<union> set vs"
  obtain q qs ls where q: "load as_conn p m3 = Ok (conn_zero\<lparr>hc_bev := v, hc_req := q\<rparr>)" "opt_at rq_at q qs m3" "rq_lost q ls m3"
    "set qs \<inter> set ls = {}" "distinct qs" "(set qs \<union> set ls) \<inter> ?V = {}" "agree (?V - {p}) m2 m3"
    "grew {} (?V \<union> (set qs \<union> set ls)) m m3" "q \<noteq> 0"
    by (rule rq.add_field [OF v(5) _ v(1) _ c(4)]) auto
  have 3: "conn_parts (conn_zero\<lparr>hc_bev := v, hc_req := q\<rparr>) vs qs [] [] [] m3"
    using conn_parts_kept [OF l 2 q(7)] q(2) v(4) by (simp add: conn_parts_def)
  have "distinct (vs @ qs @ [p])" "set (vs @ qs @ [p]) \<inter> set ls = {}" using v(3,4) q(4-6) by auto
  moreover have "?V \<union> (set qs \<union> set ls) = set (vs @ qs @ [p]) \<union> set ls" by auto
  moreover have "rq_at q qs m3" using q(2,9) by (simp add: opt_at_def)
  ultimately show thesis using that q(1,3,8) 3 by metis
qed

text \<open>The second half: the receiver, the buffer and the manager.\<close>

lemma conn_second_half:
  assumes l: "library_ok l" and q: "load as_conn p m3 = Ok c" "conn_parts c vs qs [] [] [] m3" "set (vs @ qs @ [p]) \<subseteq> Q" "p \<notin> set (vs @ qs)"
      "grew {} Q m m3"
    and r: "create_field as_conn Conn_Cell (\<lambda>q. hc_wsmsg_update (\<lambda>_. q)) (wsmsg_create_h g) p m3 = Ok (True, m4)"
      "create_field as_conn Conn_Cell (\<lambda>q. hc_message_buffer_update (\<lambda>_. q)) (buffer_create_h g) p m4 = Ok (True, m5)"
      "create_field as_conn Conn_Cell (\<lambda>q. hc_custom_ctx_update (\<lambda>_. q)) (cm_create_h l g) p m5 = Ok (True, m6)"
  obtains w ws u us x xs where "load as_conn p m6 = Ok (c\<lparr>hc_wsmsg := w, hc_message_buffer := u, hc_custom_ctx := x\<rparr>)"
    "conn_parts (c\<lparr>hc_wsmsg := w, hc_message_buffer := u, hc_custom_ctx := x\<rparr>) vs qs us ws xs m6" "x \<noteq> 0"
    "distinct (us @ ws @ xs)" "set (us @ ws @ xs) \<inter> Q = {}" "agree (Q - {p}) m3 m6" "grew {} (Q \<union> set (us @ ws @ xs)) m m6"
proof -
  have p: "p \<in> Q" using q(3) by simp
  obtain w ws where w: "load as_conn p m4 = Ok (c\<lparr>hc_wsmsg := w\<rparr>)" "opt_at wsmsg_at w ws m4" "distinct ws"
    "set ws \<inter> Q = {}" "agree (Q - {p}) m3 m4" "grew {} (Q \<union> set ws) m m4"
    by (rule wsmsg.add_field [OF q(5) p q(1) _ r(1)]) auto
  have 4: "conn_parts (c\<lparr>hc_wsmsg := w\<rparr>) vs qs [] ws [] m4"
    using conn_parts_kept [OF l q(2) w(5)] w(2) q(3,4) by (simp add: conn_parts_def) blast
  let ?W = "Q \<union> set ws"
  obtain u us where u: "load as_conn p m5 = Ok (c\<lparr>hc_wsmsg := w, hc_message_buffer := u\<rparr>)"
    "opt_at buffer_at u us m5" "distinct us" "set us \<inter> ?W = {}" "agree (?W - {p}) m4 m5" "grew {} (?W \<union> set us) m m5"
    by (rule buffer.add_field [OF w(6) _ w(1) _ r(2)]) (use p in auto)
  have 5: "conn_parts (c\<lparr>hc_wsmsg := w, hc_message_buffer := u\<rparr>) vs qs us ws [] m5"
    using conn_parts_kept [OF l 4 u(5)] u(2) q(3,4) w(4) p by (simp add: conn_parts_def) blast
  let ?U = "?W \<union> set us"
  obtain x xs where x: "load as_conn p m6 = Ok (c\<lparr>hc_wsmsg := w, hc_message_buffer := u, hc_custom_ctx := x\<rparr>)"
    "opt_at cm_at x xs m6" "distinct xs" "set xs \<inter> ?U = {}" "agree (?U - {p}) m5 m6" "grew {} (?U \<union> set xs) m m6" "x \<noteq> 0"
    by (rule add_whole [OF cm_maker [OF l] u(6) _ u(1) _ r(3)], use p in simp, simp, erule (6) that)
  have "conn_parts (c\<lparr>hc_wsmsg := w, hc_message_buffer := u, hc_custom_ctx := x\<rparr>) vs qs us ws xs m6"
    using conn_parts_kept [OF l 5 x(5)] x(2) q(3,4) w(4) u(4) p by (simp add: conn_parts_def) blast
  moreover have "distinct (us @ ws @ xs)" "set (us @ ws @ xs) \<inter> Q = {}" using w(3,4) u(3,4) x(3,4) by auto
  moreover have "agree (Q - {p}) m3 m6" using w(5) u(5) x(5) by (auto simp: agree_def)
  moreover have "grew {} (Q \<union> set (us @ ws @ xs)) m m6" using x(6) by (simp add: ac_simps)
  ultimately show thesis using that x(1,7) by blast
qed

lemma conn_maker:
  assumes l: "library_ok l"
  shows "heap_maker conn_at (wsconn_delete_h l False) (wsconn_create_h l g) conn_lost"
proof (intro heap_maker.intro heap_maker_axioms.intro conn_object [OF l])
  show "live b m" if "conn_lost p ls m" "b \<in> set ls" for p ls m b using conn_lost_live [OF that] .
  show "conn_lost p ls m'" if "conn_at p bs m" "conn_lost p ls m" "agree (set bs \<union> set ls) m m'" for p bs ls m m'
    using conn_lost_elsewhere [OF that] .
  fix m p m'
  assume ok: "mem_ok m" and c: "wsconn_create_h l g m = Ok (p, m')" "p \<noteq> 0"
  let ?c = conn_zero
  obtain m1 m2 m3 m4 m5 where r: "malloc g (Conn_Cell ?c) m = (p, m1)"
    "create_field as_conn Conn_Cell (\<lambda>q. hc_bev_update (\<lambda>_. q)) (\<lambda>m. Ok (malloc g Raw m)) p m1 = Ok (True, m2)"
    "create_field as_conn Conn_Cell (\<lambda>q. hc_req_update (\<lambda>_. q)) (rq_create_h g) p m2 = Ok (True, m3)"
    "create_field as_conn Conn_Cell (\<lambda>q. hc_wsmsg_update (\<lambda>_. q)) (wsmsg_create_h g) p m3 = Ok (True, m4)"
    "create_field as_conn Conn_Cell (\<lambda>q. hc_message_buffer_update (\<lambda>_. q)) (buffer_create_h g) p m4 = Ok (True, m5)"
    "create_field as_conn Conn_Cell (\<lambda>q. hc_custom_ctx_update (\<lambda>_. q)) (cm_create_h l g) p m5 = Ok (True, m')"
    using c by (auto simp: wsconn_create_h_def bindr_eq_Ok Let_def split: prod.split_asm if_split_asm)
  obtain v vs q qs ls where q: "load as_conn p m3 = Ok (?c\<lparr>hc_bev := v, hc_req := q\<rparr>)"
    "conn_parts (?c\<lparr>hc_bev := v, hc_req := q\<rparr>) vs qs [] [] [] m3" "rq_at q qs m3" "rq_lost q ls m3"
    "distinct (vs @ qs @ [p])" "set (vs @ qs @ [p]) \<inter> set ls = {}" "grew {} (set (vs @ qs @ [p]) \<union> set ls) m m3"
    using conn_first_half [OF l ok r(1) c(2) r(2,3)] by metis
  let ?Q = "set (vs @ qs @ [p]) \<union> set ls" and ?d = "?c\<lparr>hc_bev := v, hc_req := q\<rparr>"
  have Q: "set (vs @ qs @ [p]) \<subseteq> ?Q" "p \<notin> set (vs @ qs)" using q(5) by auto
  obtain w ws u us x xs where x: "load as_conn p m' = Ok (?d\<lparr>hc_wsmsg := w, hc_message_buffer := u, hc_custom_ctx := x\<rparr>)"
    "conn_parts (?d\<lparr>hc_wsmsg := w, hc_message_buffer := u, hc_custom_ctx := x\<rparr>) vs qs us ws xs m'" "x \<noteq> 0"
    "distinct (us @ ws @ xs)" "set (us @ ws @ xs) \<inter> ?Q = {}" "agree (?Q - {p}) m3 m'" "grew {} (?Q \<union> set (us @ ws @ xs)) m m'"
    using conn_second_half [OF l q(1,2) Q q(7) r(4-6)] by metis
  let ?bs = "vs @ qs @ us @ ws @ xs @ [p]"
  have "distinct ?bs" using q(5) x(4,5) by auto
  then have "conn_at p ?bs m'" using conn_parts_at [OF x(1,2)] x(3) by (simp add: conn_zero_def)
  moreover have "conn_lost p ls m'"
  proof -
    have "set qs \<union> set ls \<subseteq> ?Q - {p}" using q(5,6) by auto
    then have "rq_lost q ls m'" using rq_lost_elsewhere [OF q(3,4) agree_mono [OF x(6)]] by blast
    then show ?thesis using x(1) by (auto simp: conn_lost_def conn_zero_def)
  qed
  moreover have "set ?bs \<inter> set ls = {}" using q(6) x(5) by auto
  moreover have "?Q \<union> set (us @ ws @ xs) = set ?bs \<union> set ls" by auto
  ultimately show "\<exists>bs ls. conn_at p bs m' \<and> conn_lost p ls m' \<and> set bs \<inter> set ls = {} \<and> grew {} (set bs \<union> set ls) m m'"
    using x(7) by metis
qed

section \<open>The life of a connection in memory\<close>

lemma delete_logged: "wsconn_delete_h l True p m = bindr (wsconn_delete_h l False p m) (\<lambda>m'. bindr (load as_conn p m') (\<lambda>_. Ok m'))"
  by (simp add: wsconn_delete_h_def bindr_assoc)

lemma delete_dangling:
  assumes "p \<noteq> 0" and "fmlookup (blocks m) p = None"
  shows "wsconn_delete_h l i p m = Fault Use_After_Free"
  using assms by (simp add: wsconn_delete_h_def delete_field_def load_def)

text \<open>C10: deleting a connection whose pointers are null or lead to objects of its own frees every block of the
  connection, of its request, its buffers, its receiver and its manager exactly once, all but one: the line of the
  request stays allocated. No dangling pointer is followed, however long the lists of protocols and of frames are and
  whether or not the manager was closed before. Nothing else changes: another connection stays as it is and
  can be deleted too. To delete the connection again would be a use after free, and so is the message that
  is logged at the end when the level \<open>LOG_INFO\<close> is on.\<close>

theorem connection_freed:
  assumes "library_ok l" and "conn_at p bs m"
  shows "wsconn_delete_h l False p m = Ok (release (set bs) m)
     \<and> (\<forall>ls. conn_lost p ls m \<and> set ls \<inter> set bs = {} \<longrightarrow> (\<forall>b \<in> set ls. live b (release (set bs) m)))
     \<and> (\<forall>q cs. conn_at q cs m \<and> set cs \<inter> set bs = {} \<longrightarrow> conn_at q cs (release (set bs) m)
          \<and> wsconn_delete_h l False q (release (set bs) m) = Ok (release (set cs \<union> set bs) m))
     \<and> wsconn_delete_h l False p (release (set bs) m) = Fault Use_After_Free
     \<and> wsconn_delete_h l True p m = Fault Use_After_Free"
proof -
  note own = heap_object.owned [OF conn_object [OF assms(1)]] and els = heap_object.elsewhere [OF conn_object [OF assms(1)]]
    and del = heap_object.deleted [OF conn_object [OF assms(1)]]
  have p: "p \<in> set bs" "p \<noteq> 0" using own [OF assms(2)] by (auto simp: live_def)
  have "conn_at q cs (release (set bs) m) \<and> wsconn_delete_h l False q (release (set bs) m) = Ok (release (set cs \<union> set bs) m)"
    if "conn_at q cs m" "set cs \<inter> set bs = {}" for q cs
    using els [OF that(1) agree_release [OF that(2)]] del [of q cs "release (set bs) m"] by simp
  moreover have "wsconn_delete_h l True p m = Fault Use_After_Free"
    using del [OF assms(2)] p by (simp add: delete_logged load_def)
  moreover have "live b (release (set bs) m)" if "conn_lost p ls m" "set ls \<inter> set bs = {}" "b \<in> set ls" for ls b
    using conn_lost_live [OF that(1,3)] that(2,3) by (auto simp: live_def)
  moreover have "wsconn_delete_h l False p (release (set bs) m) = Fault Use_After_Free"
    using delete_dangling [of p "release (set bs) m"] p by simp
  ultimately show ?thesis using del [OF assms(2)] by blast
qed

text \<open>C36: every connection leaves one block behind: when a connection is created and deleted, the blocks that were
  there before are as they were and there is exactly one more, the line buffer to which its request pointed, which
  nothing points to any more.\<close>

theorem connection_leaks_line:
  assumes "library_ok l" and "mem_ok m" and "wsconn_create_h l g m = Ok (p, m1)" and "p \<noteq> 0"
  shows "\<exists>c q m2. load as_conn p m1 = Ok c \<and> load as_request (hc_req c) m1 = Ok q
     \<and> wsconn_delete_h l False p m1 = Ok m2 \<and> mem_ok m2 \<and> agree (fmdom' (blocks m)) m m2
     \<and> hq_line q \<notin> fmdom' (blocks m) \<and> fmdom' (blocks m2) = insert (hq_line q) (fmdom' (blocks m))"
proof -
  obtain bs ls where d: "conn_at p bs m1" "conn_lost p ls m1" "wsconn_delete_h l False p m1 = Ok (release (set bs) m1)"
    "mem_ok (release (set bs) m1)" "agree (fmdom' (blocks m)) m (release (set bs) m1)"
    "fmdom' (blocks (release (set bs) m1)) = fmdom' (blocks m) \<union> set ls" "fmdom' (blocks m) \<inter> set ls = {}"
    by (rule heap_maker.make_then_delete [OF conn_maker [OF assms(1)] assms(2-4)])
  then obtain c q where c: "load as_conn p m1 = Ok c" "load as_request (hc_req c) m1 = Ok q" "ls = [hq_line q]"
    by (auto simp: conn_lost_def rq_lost_def raw_at_def)
  then show ?thesis using d(3-7) by auto
qed

text \<open>C13: a receiver is created whole or not at all, whichever requests for memory are refused: when its creation
  fails the heap holds what it held before, and when it succeeds the deletion of the receiver restores that.\<close>

theorem receiver_all_or_nothing:
  assumes "mem_ok m"
  shows "\<exists>p m1. wsmsg_create_h g m = Ok (p, m1)
     \<and> (if p = 0 then blocks m1 = blocks m else \<exists>m2. wsmsg_delete p m1 = Ok m2 \<and> blocks m2 = blocks m)"
proof -
  obtain p m1 m2 where "wsmsg_create_h g m = Ok (p, m1)" "(if p \<noteq> 0 then wsmsg_delete p m1 else Ok m1) = Ok m2" "blocks m2 = blocks m"
    using wsmsg.create_then_delete [OF assms, of g] by metis
  then show ?thesis by (cases "p = 0") auto
qed

text \<open>A manager whose creation fails at the framer is not given back whole: the parser of expat and the array
  of the buffer, which were created before, stay allocated, because the error path frees the two structures only.\<close>

theorem manager_creation_leaks:
  assumes "mem_ok m"
  shows "\<exists>m1. cm_create_h l (\<lambda>b. b \<noteq> brk m + 5) m = Ok (0, m1)
     \<and> fmdom' (blocks m1) = fmdom' (blocks m) \<union> {brk m + 2, brk m + 4}"
proof -
  have b: "0 < brk m" "\<And>b. b \<in> fmdom' (blocks m) \<Longrightarrow> b < brk m" using assms by (auto simp: mem_ok_def)
  show ?thesis
    using b(1)
    by (simp add: cm_create_h_def malloc_def create_field_def streamparser_create_h_def buffer_create_h_def framer_create_h_def
        load_def store_def free_field_def free_def cm_empty_def Let_def) (auto simp: eval_nat_numeral dest: b(2))
qed

text \<open>C11: closing a manager, which the server does when either side goes away, and deleting it later frees exactly
  the blocks that deleting it at once frees, each of them once.\<close>

theorem manager_closed_then_deleted:
  assumes "library_ok l" and "cm_at p bs m"
  shows "\<exists>m1. cm_close_h l p m = Ok m1 \<and> cm_at p [p] m1 \<and> cm_close_h l p m1 = Ok m1
     \<and> cm_delete_h l p m1 = Ok (release (set bs) m) \<and> cm_delete_h l p m = Ok (release (set bs) m)"
proof -
  obtain x cs where x: "load as_manager p m = Ok x" "cm_fields x cs m" "bs = cs @ [p]" "distinct (cs @ [p])"
    using assms(2) by (auto simp: cm_at_def)
  let ?m1 = "put p (Manager_Cell cm_empty) (release (set cs) m)"
  have p: "p \<noteq> 0" using x(1) by (simp add: load_eq_Ok)
  then have e: "load as_manager p ?m1 = Ok cm_empty" "cm_fields cm_empty [] ?m1"
    by (simp_all add: load_def cm_fields_def opt_at_def cm_empty_def)
  then have at: "cm_at p [p] ?m1" unfolding cm_at_def by fastforce
  note del = heap_object.deleted [OF cm_object [OF assms(1)]]
  have "cm_close_h l p ?m1 = Ok ?m1" using cm_close_frees [OF assms(1) e] by simp
  then show ?thesis
    using cm_close_frees [OF assms(1) x(1,2,4)] at del [OF at] del [OF assms(2)] x(3) by (simp add: release_put)
qed

section \<open>Concrete runs\<close>

text \<open>A library whose destructors only give the object back, a heap with nothing in it, and an allocator that never
  refuses.\<close>

definition plain_library :: destructors where
  "plain_library = \<lparr>XML_ParserFree = free, bufferevent_free = free, evdns_base_free = free, evconnlistener_free = free\<rparr>"

definition empty_mem :: mem where
  "empty_mem = \<lparr>blocks = fmempty, brk = 1\<rparr>"

lemma plain_library_ok: "library_ok plain_library"
  by (simp add: library_ok_def plain_library_def gives_back_def raw_at_def live_def free_live)

lemma empty_mem_ok: "mem_ok empty_mem"
  by (simp add: mem_ok_def empty_mem_def)

definition first_client :: "addr \<times> mem" where
  "first_client = (case wsconn_create_h plain_library (\<lambda>_. True) empty_mem of Ok r \<Rightarrow> r | Fault x \<Rightarrow> (0, empty_mem))"

lemma first_client_created:
  "wsconn_create_h plain_library (\<lambda>_. True) empty_mem = Ok (1, snd first_client)" "card (fmdom' (blocks (snd first_client))) = 22"
proof -
  have "is_Ok (wsconn_create_h plain_library (\<lambda>_. True) empty_mem)" "fst first_client = 1" by code_simp+
  then show "wsconn_create_h plain_library (\<lambda>_. True) empty_mem = Ok (1, snd first_client)"
    by (cases "wsconn_create_h plain_library (\<lambda>_. True) empty_mem") (auto simp: first_client_def)
  show "card (fmdom' (blocks (snd first_client))) = 22" by code_simp
qed

theorem connection_leaks_line_witness:
  "\<exists>m2. wsconn_delete_h plain_library False 1 (snd first_client) = Ok m2 \<and> (\<exists>line. fmdom' (blocks m2) = {line})"
  using connection_leaks_line [OF plain_library_ok empty_mem_ok first_client_created(1)] by (auto simp: empty_mem_def)

theorem connection_freed_witness:
  "\<exists>bs line. conn_at 1 bs (snd first_client) \<and> live line (release (set bs) (snd first_client))
     \<and> wsconn_delete_h plain_library False 1 (snd first_client) = Ok (release (set bs) (snd first_client))
     \<and> wsconn_delete_h plain_library True 1 (snd first_client) = Fault Use_After_Free"
proof -
  obtain bs ls where c: "conn_at 1 bs (snd first_client)" "conn_lost 1 ls (snd first_client)" "set ls \<inter> set bs = {}"
    using heap_maker.made [OF conn_maker [OF plain_library_ok] empty_mem_ok first_client_created(1)] by auto
  then obtain line where "line \<in> set ls" by (auto simp: conn_lost_def rq_lost_def raw_at_def)
  then show ?thesis using connection_freed [OF plain_library_ok c(1)] c by blast
qed

text \<open>A receiver whose last buffer is refused.\<close>

theorem receiver_all_or_nothing_witness:
  "\<exists>m1. wsmsg_create_h (\<lambda>b. b \<noteq> 7) empty_mem = Ok (0, m1) \<and> blocks m1 = fmempty"
proof -
  obtain p m1 where r: "wsmsg_create_h (\<lambda>b. b \<noteq> 7) empty_mem = Ok (p, m1)" "p = 0 \<longrightarrow> blocks m1 = blocks empty_mem"
    using receiver_all_or_nothing [OF empty_mem_ok, of "\<lambda>b. b \<noteq> 7"] by auto
  have "(case wsmsg_create_h (\<lambda>b. b \<noteq> 7) empty_mem of Ok (p, m) \<Rightarrow> p = 0 | _ \<Rightarrow> False)" by code_simp
  then show ?thesis using r by (simp add: empty_mem_def)
qed

theorem manager_creation_leaks_witness:
  "\<exists>m1. cm_create_h plain_library (\<lambda>b. b \<noteq> 6) empty_mem = Ok (0, m1) \<and> fmdom' (blocks m1) = {3, 5}"
  using manager_creation_leaks [OF empty_mem_ok, of plain_library] by (simp add: empty_mem_def eval_nat_numeral)

theorem manager_closed_then_deleted_witness:
  "\<exists>p bs m1. cm_at p bs (snd first_client) \<and> cm_close_h plain_library p (snd first_client) = Ok m1
     \<and> cm_delete_h plain_library p m1 = Ok (release (set bs) (snd first_client))"
proof -
  obtain bs where "conn_at 1 bs (snd first_client)"
    using heap_maker.made [OF conn_maker [OF plain_library_ok] empty_mem_ok first_client_created(1)] by auto
  then obtain c ms where c: "load as_conn 1 (snd first_client) = Ok c" "hc_cb c \<longrightarrow> cm_at (hc_custom_ctx c) ms (snd first_client)"
    by (auto simp: conn_at_def split: if_split_asm)
  have "(case load as_conn 1 (snd first_client) of Ok c \<Rightarrow> hc_cb c | _ \<Rightarrow> False)" by code_simp
  then have "cm_at (hc_custom_ctx c) ms (snd first_client)" using c by simp
  from manager_closed_then_deleted [OF plain_library_ok this] this show ?thesis by blast
qed

end
