(* ===== verification/FrameList.thy ===== *)
theory FrameList
  imports Alloc Framer
begin

text \<open>
  The list of frames of the framer, with the pointers of the code: a head, a tail and the pointer to the next
  frame in each element. It implements the list that the model of the framer has in their place.
\<close>

section \<open>The operations on pointers\<close>

text \<open>The new frame has its \<open>next\<close> set at once; its other members are written last and not read before.\<close>

definition framer_add_frame_h :: "(addr \<Rightarrow> bool) \<Rightarrow> addr \<Rightarrow> int \<Rightarrow> int \<Rightarrow> mem \<Rightarrow> mem cres" where
  "framer_add_frame_h g framer index sz m =
     (let (new_frame, m1) = malloc g (Frame_Cell \<lparr>hn_index = 0, hn_size = 0, hn_next = 0\<rparr>) m in
      if new_frame = 0 then Ok m1
      else
        bindr (load as_framer framer m1) (\<lambda>f.
        bindr (if hf_tail f \<noteq> 0
               then bindr (load as_frame (hf_tail f) m1) (\<lambda>t. store (Frame_Cell (t\<lparr>hn_next := new_frame\<rparr>)) (hf_tail f) m1)
               else store (Framer_Cell (f\<lparr>hf_head := new_frame\<rparr>)) framer m1) (\<lambda>m2.
        bindr (load as_framer framer m2) (\<lambda>f2.
        bindr (store (Framer_Cell (f2\<lparr>hf_tail := new_frame\<rparr>)) framer m2) (\<lambda>m3.
        bindr (load as_frame new_frame m3) (\<lambda>n. store (Frame_Cell (n\<lparr>hn_index := index, hn_size := sz\<rparr>)) new_frame m3))))))"

definition framer_remove_frame_h :: "addr \<Rightarrow> mem \<Rightarrow> mem cres" where
  "framer_remove_frame_h framer m =
     bindr (load as_framer framer m) (\<lambda>f.
     if hf_head f = 0 then Ok m
     else
       bindr (load as_frame (hf_head f) m) (\<lambda>tmp.
       bindr (store (Framer_Cell (f\<lparr>hf_head := hn_next tmp\<rparr>)) framer m) (\<lambda>m1.
       bindr (load as_framer framer m1) (\<lambda>f1.
       bindr (if hf_head f1 = 0 then store (Framer_Cell (f1\<lparr>hf_tail := 0\<rparr>)) framer m1 else Ok m1) (\<lambda>m2.
       free (hf_head f) m2)))))"

section \<open>The list that the pointers stand for\<close>

definition node_of :: "frame_t \<Rightarrow> addr \<Rightarrow> frame_h" where
  "node_of fr q = \<lparr>hn_index = fr_index fr, hn_size = fr_size fr, hn_next = q\<rparr>"

fun frame_chain :: "addr \<Rightarrow> (addr \<times> frame_t) list \<Rightarrow> mem \<Rightarrow> bool" where
  "frame_chain p [] m \<longleftrightarrow> p = 0"
| "frame_chain p ((b, fr) # ns) m \<longleftrightarrow> p = b \<and> p \<noteq> 0
     \<and> (\<exists>q. fmlookup (blocks m) p = Some (Frame_Cell (node_of fr q)) \<and> frame_chain q ns m)"

lemma frame_chain_chain: "frame_chain p ns m \<Longrightarrow> chain p (map fst ns) m"
  by (induction p ns m rule: frame_chain.induct) (auto simp: load_def node_of_def)

lemma frame_chain_elsewhere: "frame_chain p ns m \<Longrightarrow> agree (fst ` set ns) m m' \<Longrightarrow> frame_chain p ns m'"
  by (induction p ns m rule: frame_chain.induct) (auto simp: agree_def)

lemma frame_chain_last:
  assumes "frame_chain p (ns @ [(t, fr)]) m"
  shows "t \<noteq> 0" and "fmlookup (blocks m) t = Some (Frame_Cell (node_of fr 0))"
proof -
  have "t \<noteq> 0 \<and> fmlookup (blocks m) t = Some (Frame_Cell (node_of fr 0))"
    using assms by (induction ns arbitrary: p) auto
  then show "t \<noteq> 0" "fmlookup (blocks m) t = Some (Frame_Cell (node_of fr 0))" by auto
qed

text \<open>Linking a new frame behind the last one.\<close>

lemma frame_chain_snoc:
  assumes "frame_chain p (ns @ [(t, fr)]) m" and "t \<notin> fst ` set ns" and "agree (fst ` set ns) m m'"
    and "fmlookup (blocks m') t = Some (Frame_Cell (node_of fr q))" and "q \<noteq> 0"
    and "fmlookup (blocks m') q = Some (Frame_Cell (node_of fr' 0))"
  shows "frame_chain p (ns @ [(t, fr), (q, fr')]) m'"
  using assms
proof (induction ns arbitrary: p)
  case (Cons b ns)
  then show ?case by (cases b) (auto simp: agree_def)
qed simp

definition framer_rep :: "addr \<Rightarrow> frame_t list \<Rightarrow> mem \<Rightarrow> bool" where
  "framer_rep p frs m \<longleftrightarrow> mem_ok m \<and> (\<exists>f xs ys ns. load as_framer p m = Ok f \<and> opt_at raw_at (hf_parser f) xs m
     \<and> opt_at buffer_at (hf_buffer f) ys m \<and> frame_chain (hf_head f) ns m \<and> map snd ns = frs
     \<and> hf_tail f = (if ns = [] then 0 else fst (last ns)) \<and> distinct (xs @ ys @ map fst ns @ [p]))"

lemma framer_repI:
  "mem_ok m \<Longrightarrow> load as_framer p m = Ok f \<Longrightarrow> opt_at raw_at (hf_parser f) xs m \<Longrightarrow> opt_at buffer_at (hf_buffer f) ys m
     \<Longrightarrow> frame_chain (hf_head f) ns m \<Longrightarrow> map snd ns = frs \<Longrightarrow> hf_tail f = (if ns = [] then 0 else fst (last ns))
     \<Longrightarrow> distinct (xs @ ys @ map fst ns @ [p]) \<Longrightarrow> framer_rep p frs m"
  unfolding framer_rep_def by blast

lemma framer_rep_at: "framer_rep p frs m \<Longrightarrow> \<exists>bs. framer_at p bs m"
  unfolding framer_rep_def framer_at_def using frame_chain_chain by blast

lemma framer_rep_remove:
  assumes "framer_rep p frs m"
  shows "\<exists>m'. framer_remove_frame_h p m = Ok m' \<and> framer_rep p (drop 1 frs) m'"
proof -
  obtain f xs ys ns where f: "load as_framer p m = Ok f" "opt_at raw_at (hf_parser f) xs m" "opt_at buffer_at (hf_buffer f) ys m"
    "frame_chain (hf_head f) ns m" "map snd ns = frs" "hf_tail f = (if ns = [] then 0 else fst (last ns))"
    "distinct (xs @ ys @ map fst ns @ [p])" and ok: "mem_ok m"
    using assms by (auto simp: framer_rep_def)
  have p: "p \<noteq> 0" "fmlookup (blocks m) p = Some (Framer_Cell f)" using f(1) by (auto simp: load_eq_Ok as_cell)
  show ?thesis
  proof (cases ns)
    case Nil
    then show ?thesis using f assms by (auto simp: framer_remove_frame_h_def)
  next
    case (Cons bn ns')
    obtain b fr where bn: "bn = (b, fr)" by fastforce
    obtain q where q: "hf_head f = b" "b \<noteq> 0" "fmlookup (blocks m) b = Some (Frame_Cell (node_of fr q))" "frame_chain q ns' m"
      using f(4) Cons bn by auto
    let ?f = "f\<lparr>hf_head := q, hf_tail := (if q = 0 then 0 else hf_tail f)\<rparr>"
    let ?m = "release {b} (put p (Framer_Cell ?f) m)"
    have "b \<noteq> p" using q(3) p(2) by auto
    have "f\<lparr>hf_head := q, hf_tail := hf_tail f\<rparr> = f\<lparr>hf_head := q\<rparr>" by (cases f) simp
    then have run: "framer_remove_frame_h p m = Ok ?m"
      using f(1) p q \<open>b \<noteq> p\<close>
      by (auto simp: framer_remove_frame_h_def load_def store_put node_of_def free_live live_def)
    have dis: "set (xs @ ys) \<inter> {b, p} = {}" "fst ` set ns' \<inter> {b, p} = {}" using f(7) Cons bn by auto
    have kept: "agree (set (xs @ ys)) m ?m" "agree (fst ` set ns') m ?m" using dis by (auto simp: agree_def)
    have parts: "opt_at raw_at (hf_parser ?f) xs ?m" "opt_at buffer_at (hf_buffer ?f) ys ?m" "frame_chain (hf_head ?f) ns' ?m"
      using raw.opt_elsewhere [OF f(2) agree_mono [OF kept(1)]] buffer.opt_elsewhere [OF f(3) agree_mono [OF kept(1)]]
        frame_chain_elsewhere [OF q(4) kept(2)] by auto
    have "q = 0 \<longleftrightarrow> ns' = []" using q(4) by (cases ns') auto
    then have tail: "hf_tail ?f = (if ns' = [] then 0 else fst (last ns'))" using f(6) Cons by simp
    have "load as_framer p ?m = Ok ?f" "mem_ok ?m" using p \<open>b \<noteq> p\<close> ok by (auto simp: load_def mem_ok_iff)
    moreover have "map snd ns' = drop 1 frs" "distinct (xs @ ys @ map fst ns' @ [p])" using f(5,7) Cons bn by auto
    ultimately show ?thesis using framer_repI [OF _ _ parts _ tail] run by blast
  qed
qed

text \<open>The new frame, written into the heap that already has room for it.\<close>

lemma add_frame_granted:
  assumes m1: "malloc g (Frame_Cell \<lparr>hn_index = 0, hn_size = 0, hn_next = 0\<rparr>) m = (q, m1)" "q \<noteq> 0" "q \<noteq> p"
      "fmlookup (blocks m1) q = Some (Frame_Cell \<lparr>hn_index = 0, hn_size = 0, hn_next = 0\<rparr>)"
    and p: "p \<noteq> 0" "fmlookup (blocks m1) p = Some (Framer_Cell f)"
    and t: "hf_tail f \<noteq> 0 \<Longrightarrow> fmlookup (blocks m1) (hf_tail f) = Some (Frame_Cell (node_of fr 0)) \<and> hf_tail f \<noteq> q"
  shows "framer_add_frame_h g p i s m = Ok (put q (Frame_Cell (node_of \<lparr>fr_index = i, fr_size = s\<rparr> 0))
     (if hf_tail f \<noteq> 0 then put p (Framer_Cell (f\<lparr>hf_tail := q\<rparr>)) (put (hf_tail f) (Frame_Cell (node_of fr q)) m1)
      else put p (Framer_Cell (f\<lparr>hf_head := q, hf_tail := q\<rparr>)) m1))"
proof (cases "hf_tail f = 0")
  case True
  then show ?thesis
    using m1 p by (simp add: framer_add_frame_h_def load_def store_put node_of_def)
next
  case False
  then have "hf_tail f \<noteq> p" using t p(2) by auto
  then show ?thesis
    using False m1 p t by (simp add: framer_add_frame_h_def load_def store_put node_of_def)
qed

lemma framer_rep_same:
  assumes "framer_rep p frs m" and "mem_ok m'" and "blocks m' = blocks m"
  shows "framer_rep p frs m'"
proof -
  obtain f xs ys ns where f: "load as_framer p m = Ok f" "opt_at raw_at (hf_parser f) xs m" "opt_at buffer_at (hf_buffer f) ys m"
    "frame_chain (hf_head f) ns m" "map snd ns = frs" "hf_tail f = (if ns = [] then 0 else fst (last ns))"
    "distinct (xs @ ys @ map fst ns @ [p])"
    using assms(1) by (auto simp: framer_rep_def)
  have same: "agree B m m'" for B using assms(3) by (simp add: agree_def)
  have "load as_framer p m' = Ok f" using f(1) assms(3) by (simp add: load_eq_Ok)
  from framer_repI [OF assms(2) this raw.opt_elsewhere [OF f(2) same] buffer.opt_elsewhere [OF f(3) same]
      frame_chain_elsewhere [OF f(4) same] f(5-7)] show ?thesis .
qed

lemma framer_rep_granted:
  assumes ok: "mem_ok m" "mem_ok m1" and m1: "malloc g (Frame_Cell \<lparr>hn_index = 0, hn_size = 0, hn_next = 0\<rparr>) m = (q, m1)" "q \<noteq> 0"
      "fmlookup (blocks m1) q = Some (Frame_Cell \<lparr>hn_index = 0, hn_size = 0, hn_next = 0\<rparr>)" "q < brk m1"
    and f: "load as_framer p m1 = Ok f" "opt_at raw_at (hf_parser f) xs m1" "opt_at buffer_at (hf_buffer f) ys m1"
      "frame_chain (hf_head f) ns m1" "hf_tail f = (if ns = [] then 0 else fst (last ns))" "distinct (q # xs @ ys @ map fst ns @ [p])"
  shows "\<exists>m'. framer_add_frame_h g p i s m = Ok m' \<and> framer_rep p (map snd ns @ [\<lparr>fr_index = i, fr_size = s\<rparr>]) m'"
proof (cases ns rule: rev_cases)
  case Nil
  let ?fr = "\<lparr>fr_index = i, fr_size = s\<rparr>" and ?f = "f\<lparr>hf_head := q, hf_tail := q\<rparr>"
  let ?m = "put q (Frame_Cell (node_of ?fr 0)) (put p (Framer_Cell ?f) m1)"
  have p: "p \<noteq> 0" "fmlookup (blocks m1) p = Some (Framer_Cell f)" "q \<noteq> p" using f(1,6) by (auto simp: load_eq_Ok as_cell)
  have run: "framer_add_frame_h g p i s m = Ok ?m"
    using add_frame_granted [OF m1(1,2) p(3) m1(3) p(1,2)] f(5) Nil by simp
  have kept: "agree (set xs) m1 ?m" "agree (set ys) m1 ?m" using f(6) by (auto simp: agree_def)
  have ok': "mem_ok ?m" "load as_framer p ?m = Ok ?f" using ok(2) p m1(2,4) by (auto simp: mem_ok_iff load_def)
  have "framer_rep p ([] @ [?fr]) ?m"
    using raw.opt_elsewhere [OF f(2) kept(1)] buffer.opt_elsewhere [OF f(3) kept(2)] f(6) m1(2) Nil
    by (intro framer_repI [OF ok', of xs ys "[(q, ?fr)]"]) auto
  then show ?thesis using run Nil by auto
next
  case (snoc ns0 last)
  obtain t fr where t: "last = (t, fr)" by fastforce
  let ?fr = "\<lparr>fr_index = i, fr_size = s\<rparr>" and ?f = "f\<lparr>hf_tail := q\<rparr>"
  let ?m = "put q (Frame_Cell (node_of ?fr 0)) (put p (Framer_Cell ?f) (put t (Frame_Cell (node_of fr q)) m1))"
  have p: "p \<noteq> 0" "fmlookup (blocks m1) p = Some (Framer_Cell f)" "q \<noteq> p" using f(1,6) by (auto simp: load_eq_Ok as_cell)
  have tl: "hf_tail f = t" "t \<noteq> 0" "fmlookup (blocks m1) t = Some (Frame_Cell (node_of fr 0))" "t \<noteq> q" "t \<noteq> p"
    using f(4-6) snoc t frame_chain_last [of "hf_head f" ns0 t fr m1] by auto
  have run: "framer_add_frame_h g p i s m = Ok ?m"
    using add_frame_granted [OF m1(1,2) p(3) m1(3) p(1,2), of fr] tl by simp
  have kept: "agree (set xs) m1 ?m" "agree (set ys) m1 ?m" "agree (fst ` set ns0) m1 ?m"
    using f(6) snoc t by (auto simp: agree_def)
  have "frame_chain (hf_head f) (ns0 @ [(t, fr), (q, ?fr)]) ?m"
    using f(4,6) snoc t kept(3) tl p m1(2) by (intro frame_chain_snoc [of "hf_head f" ns0 t fr m1]) auto
  moreover have ok': "mem_ok ?m" "load as_framer p ?m = Ok ?f" using ok(2) p m1(2,4) tl by (auto simp: mem_ok_iff load_def)
  ultimately have "framer_rep p (map snd ns @ [?fr]) ?m"
    using raw.opt_elsewhere [OF f(2) kept(1)] buffer.opt_elsewhere [OF f(3) kept(2)] f(6) snoc t
    by (intro framer_repI [OF ok', of xs ys "ns0 @ [(t, fr), (q, ?fr)]"]) auto
  then show ?thesis using run by blast
qed

lemma framer_rep_add:
  assumes "framer_rep p frs m"
  shows "\<exists>m'. framer_add_frame_h g p i s m = Ok m'
     \<and> framer_rep p (if g (brk m) then frs @ [\<lparr>fr_index = i, fr_size = s\<rparr>] else frs) m'"
proof (cases "g (brk m)")
  case False
  have "mem_ok (m\<lparr>brk := Suc (brk m)\<rparr>)" using assms by (auto simp: framer_rep_def mem_ok_iff less_Suc_eq)
  from framer_rep_same [OF assms this] show ?thesis using False by (simp add: framer_add_frame_h_def malloc_def)
next
  case True
  obtain f xs ys ns where f: "load as_framer p m = Ok f" "opt_at raw_at (hf_parser f) xs m" "opt_at buffer_at (hf_buffer f) ys m"
    "frame_chain (hf_head f) ns m" "map snd ns = frs" "hf_tail f = (if ns = [] then 0 else fst (last ns))"
    "distinct (xs @ ys @ map fst ns @ [p])" and ok: "mem_ok m"
    using assms by (auto simp: framer_rep_def)
  let ?q = "brk m"
  obtain m1 where m1: "malloc g (Frame_Cell \<lparr>hn_index = 0, hn_size = 0, hn_next = 0\<rparr>) m = (?q, m1)" "?q \<noteq> 0"
    using ok True by (auto simp: malloc_def mem_ok_iff)
  note n = malloc_new [OF ok m1]
  have new: "\<not> live ?q m" using ok by (auto simp: live_def mem_ok_iff)
  have q: "?q \<notin> set (xs @ ys @ map fst ns @ [p])"
    using new load_live [OF f(1)] raw.opt_owned [OF f(2)] buffer.opt_owned [OF f(3)] chain_live [OF frame_chain_chain [OF f(4)]] by auto
  have same: "agree (set (xs @ ys @ map fst ns @ [p])) m m1" using grew_agree [OF n(1)] q by auto
  have "load as_framer p m1 = Ok f" using load_elsewhere [OF f(1) _ same] by simp
  from framer_rep_granted [OF ok grew_ok [OF n(1)] m1 n(2) _ this raw.opt_elsewhere [OF f(2) agree_mono [OF same]]
      buffer.opt_elsewhere [OF f(3) agree_mono [OF same]] frame_chain_elsewhere [OF f(4) agree_mono [OF same]] f(6)]
  show ?thesis using True q f(5,7) n(1) by (auto simp: grew_def)
qed

section \<open>Refinement\<close>

text \<open>Frames come and go; the allocator of each call decides whether there is memory for a new one.\<close>

datatype frame_op = Add_Frame allocator int int | Remove_Frame

fun frame_op_h :: "addr \<Rightarrow> frame_op \<Rightarrow> mem \<Rightarrow> mem cres" where
  "frame_op_h p (Add_Frame al index sz) m = framer_add_frame_h (\<lambda>_. granted al sizeof_frame_t) p index sz m"
| "frame_op_h p Remove_Frame m = framer_remove_frame_h p m"

fun frame_op_list :: "frame_op \<Rightarrow> framer_t \<Rightarrow> framer_t" where
  "frame_op_list (Add_Frame al index sz) f = framer_add_frame al f index sz"
| "frame_op_list Remove_Frame f = framer_remove_frame f"

fun run_frame_ops :: "addr \<Rightarrow> frame_op list \<Rightarrow> mem \<Rightarrow> mem cres" where
  "run_frame_ops p [] m = Ok m"
| "run_frame_ops p (x # xs) m = bindr (frame_op_h p x m) (run_frame_ops p xs)"

lemma frame_op_refines:
  assumes "framer_rep p (f_frames f) m"
  shows "\<exists>m'. frame_op_h p x m = Ok m' \<and> framer_rep p (f_frames (frame_op_list x f)) m'"
proof (cases x)
  case (Add_Frame al i s)
  then show ?thesis
    using framer_rep_add [OF assms, of "\<lambda>_. granted al sizeof_frame_t" i s]
    by (cases "granted al sizeof_frame_t") (simp_all add: framer_add_frame_def)
next
  case Remove_Frame
  then show ?thesis using framer_rep_remove [OF assms] by (simp add: framer_remove_frame_def)
qed

lemma framer_create_rep:
  assumes "mem_ok m" and "framer_create_h l g m = Ok (p, m')" and "p \<noteq> 0"
  shows "framer_rep p [] m'"
proof -
  obtain x q qs where f: "load as_framer p m' = Ok \<lparr>hf_parser = x, hf_head = 0, hf_tail = 0, hf_buffer = q\<rparr>"
    "opt_at raw_at x [x] m'" "opt_at buffer_at q qs m'" "distinct (x # qs @ [p])" "grew {} (set (x # qs @ [p])) m m'"
    using framer_created [OF assms] by blast
  show ?thesis using framer_repI [OF grew_ok [OF f(5)] f(1), of "[x]" qs "[]" "[]"] f(2-4) by simp
qed

text \<open>C12: the pointers of the framer implement the list of frames: in every sequence of additions, some of them
  refused for want of memory, and removals, the head, the tail and the links between the elements always stand
  for exactly the frames that the sequence leaves, no dangling pointer is followed, and in the end the framer
  can be deleted, which frees all of its blocks.\<close>

theorem frame_list_refines:
  assumes "library_ok l" and "framer_rep p (f_frames f) m"
  shows "\<exists>m' bs. run_frame_ops p ops m = Ok m' \<and> framer_rep p (f_frames (fold frame_op_list ops f)) m'
     \<and> framer_at p bs m' \<and> framer_delete_h l p m' = Ok (release (set bs) m')"
proof -
  have "\<exists>m'. run_frame_ops p ops m = Ok m' \<and> framer_rep p (f_frames (fold frame_op_list ops f)) m'"
    using assms(2)
  proof (induction ops arbitrary: f m)
    case (Cons x xs)
    obtain m1 where "frame_op_h p x m = Ok m1" "framer_rep p (f_frames (frame_op_list x f)) m1"
      using frame_op_refines [OF Cons.prems] by blast
    then show ?case using Cons.IH by simp
  qed simp
  then show ?thesis using framer_rep_at heap_object.deleted [OF framer_object [OF assms(1)]] by blast
qed

text \<open>The framer of a new connection: two frames are added, a third is refused, one is removed.\<close>

definition sample_framer :: "addr \<times> mem" where
  "sample_framer = (case framer_create_h plain_library (\<lambda>_. True) empty_mem of Ok r \<Rightarrow> r | Fault x \<Rightarrow> (0, empty_mem))"

lemma sample_framer_rep: "fst sample_framer = 1" "framer_rep 1 [] (snd sample_framer)"
proof -
  have c: "is_Ok (framer_create_h plain_library (\<lambda>_. True) empty_mem)" "fst sample_framer = 1" by code_simp+
  then have "framer_create_h plain_library (\<lambda>_. True) empty_mem = Ok (1, snd sample_framer)"
    by (cases "framer_create_h plain_library (\<lambda>_. True) empty_mem") (auto simp: sample_framer_def)
  then show "fst sample_framer = 1" "framer_rep 1 [] (snd sample_framer)" using framer_create_rep [OF empty_mem_ok] c(2) by auto
qed

definition sample_frame_ops :: "frame_op list" where
  "sample_frame_ops = [Add_Frame zero_alloc 0 5, Add_Frame zero_alloc 5 7, Add_Frame (zero_alloc\<lparr>grant := (\<lambda>_. False)\<rparr>) 12 1, Remove_Frame]"

definition sample_list :: framer_t where
  "sample_list = \<lparr>f_parser = XP_Null, f_level = 0, f_error = False, f_index = 0, f_frames = [], f_list_freed = False,
     f_buffer = None, f_buffer_index = 0\<rparr>"

theorem frame_list_refines_witness:
  "\<exists>m' bs. run_frame_ops 1 sample_frame_ops (snd sample_framer) = Ok m' \<and> framer_rep 1 [\<lparr>fr_index = 5, fr_size = 7\<rparr>] m'
     \<and> framer_delete_h plain_library 1 m' = Ok (release (set bs) m')"
proof -
  have "framer_rep 1 (f_frames sample_list) (snd sample_framer)"
    "f_frames (fold frame_op_list sample_frame_ops sample_list) = [\<lparr>fr_index = 5, fr_size = 7\<rparr>]"
    using sample_framer_rep(2)
    by (simp_all add: sample_list_def sample_frame_ops_def framer_add_frame_def framer_remove_frame_def granted_def
        zero_alloc_def sizeof_frame_t_def PTRDIFF_MAX_def)
  then show ?thesis
    using frame_list_refines [OF plain_library_ok, of 1 sample_list "snd sample_framer" sample_frame_ops] by auto
qed

end
