(* ===== verification/Spec2Isabelle.thy ===== *)
theory Spec2Isabelle
  imports Util_Runs Server MainProg RqFaults WsMemory FrameList
begin

text \<open>
  A verification library for jabsocket, a proxy between WebSocket clients and XMPP servers, written in C over
  libevent. \<^bold>\<open>How the program works.\<close> \<open>main.c\<close> reads the options and the YAML configuration
  (\<open>parseconfig.c\<close>), opens the log (\<open>log.c\<close>) and creates the WebSocket server (\<open>wsserver.c\<close>), which it gives
  the connection manager (\<open>cmanager.c\<close>) as its client: a creation, a deletion and an event callback. For each
  connection the server reads the opening handshake line by line (\<open>rqparser.c\<close>, with the accept key computed
  by SHA-1 and \<open>base64.c\<close>), then feeds the bytes of the socket to a receiver of frames (\<open>wsmessage.c\<close>) and
  calls the manager for every text message. The manager finds the server's name in the client's stream
  (\<open>streamparse.c\<close>), connects, forwards messages, and cuts the answers of the XMPP server into frames
  (\<open>framer.c\<close>) which the server writes to the client. Strings with a fixed array and growing byte buffers
  come from \<open>util.c\<close>.

  \<^bold>\<open>How it is modelled.\<close> Every operation is a function on explicit state, named as in the code. A C function
  that can go wrong returns \<open>'a cres\<close>: \<open>Ok\<close> with its result, or a \<open>Fault\<close> for behaviour that C leaves
  undefined (an access outside a block, a null or freed pointer, a bad format, signed overflow, a missing
  return value, an uninitialised variable). Error returns of the code are ordinary results. Memory blocks are
  lists of their exact size, \<open>size_t\<close> arithmetic wraps at \<open>SIZE_MOD\<close> where the code can make it wrap, bytes are
  \<open>8 word\<close>, and \<open>malloc\<close> is an \<open>allocator\<close>, a record that decides which requests are granted and what fresh
  memory holds. In this model an object is a value, and one that is freed is marked as such. A second, separate
  model keeps the heap with its addresses (\<open>Heap_Blocks\<close> and the theories on it): it has the pointers between the
  objects and leaves their other members out, so that freeing, leaking and dangling can be stated. Code that is not part of the repository is an argument: Expat (what a chunk makes it report,
  \<open>expat\<close>), libyaml (the list of tokens), libevent (the lines and bytes it has read, the event flags, whether
  it grants a bufferevent), SHA-1, \<open>fnmatch\<close>, \<open>getopt_long\<close> and the resolver. The hypotheses on them are the
  documented ones: SHA-1 gives 20 bytes, Expat reports the elements of the stream in order with their byte
  positions.

  \<^bold>\<open>The theories.\<close>
  \<^item> \<open>Jab_Prelude\<close>, \<open>C_String\<close>: results and faults with their simplification rules (collection \<open>cres_simps\<close>),
    memory blocks, allocators, \<open>size_t\<close>; characters, terminated strings, \<open>printf\<close> formats, \<open>strtok_r\<close>.
  \<^item> \<open>Util_Str\<close>, \<open>Util_Buffer\<close>, \<open>Util_Runs\<close> (\<open>util.c\<close>): \<open>str_t\<close>, \<open>data_t\<close>, \<open>buffer_t\<close> and \<open>unmask\<close>. The locale
    \<open>byte_fifo\<close> is the contract of a byte queue, interpreted by the buffer. Sequences of operations refine
    bounded texts and bounded queues.
  \<^item> \<open>ParseConfig\<close> (\<open>parseconfig.c\<close>): the token loop, what a document means, what any sequence of tokens gives, the
    origin check. \<open>Log\<close> (\<open>log.c\<close>): the mask, and the messages that pass it.
  \<^item> \<open>WsMessage\<close>, \<open>WsReceiver\<close>, \<open>WsStream\<close> (\<open>wsmessage.c\<close>): the receiver on its three buffers, an abstract
    receiver on byte lists, the refinement between them, and what a stream of RFC 6455 frames gives, however
    it is cut into reads. \<open>WsMemory\<close>: the receiver when requests for memory are refused at any time.
  \<^item> \<open>Base64\<close> (\<open>base64.c\<close>): encoder and decoder against RFC 4648.
  \<^item> \<open>RqParser\<close>, \<open>RqHandshake\<close>, \<open>RqFaults\<close> (\<open>rqparser.c\<close>): the request parser, its refinement to a request of
    plain strings and to a decision table for the answer, and the inputs on which the code is undefined.
  \<^item> \<open>WsServer\<close>, \<open>WsFrames\<close>, \<open>WsConn\<close> (\<open>wsserver.c\<close>): the connection, generic in its client, with a bound on the
    rounds of its loop; the frames it writes; the contract \<open>ws_client\<close> of a client and, under it, the
    invariant of a connection that every callback keeps.
  \<^item> \<open>Expat\<close>, \<open>Framer\<close>, \<open>FramerStream\<close> (\<open>framer.c\<close>), \<open>StreamParse\<close> (\<open>streamparse.c\<close>): the two users of Expat, the
    frames of a stream of stanzas, the server of a stream.
  \<^item> \<open>CManager\<close>, \<open>CmStream\<close>, \<open>CmClient\<close>, \<open>CmForward\<close> (\<open>cmanager.c\<close>): the manager, the way of the server's stream
    to the client and of the client's to the server, and the interpretation of \<open>ws_client\<close> by the manager.
  \<^item> \<open>Proxy\<close>, \<open>WsEvents\<close>: a connection as a whole, its callbacks in any order as a step relation with reachable
    states, the invariant over them, and what the client sees.
  \<^item> \<open>Session\<close>: the proxy from end to end, from the accepted connection over the handshake and the connection to
    the XMPP server to traffic in both directions in any order.
  \<^item> \<open>Unwinding\<close>, \<open>Server\<close>: the event loop with any number of connections. \<open>Unwinding\<close> has the general argument, the
    locale \<open>unwinding\<close> for systems whose actions each belong to one part; \<open>Server\<close> interprets it with the
    callbacks of libevent, whose connections share only the static array of \<open>cm_readcb\<close> in \<open>cmanager.c\<close>, and lifts
    the session of one client and the invariant of one connection to the whole server.
  \<^item> \<open>Heap_Blocks\<close>, \<open>Dealloc\<close>, \<open>Alloc\<close>: the heap as a finite map of live blocks and the functions that create and
    free objects (\<open>buffer_\<close>, \<open>wsmsg_\<close>, \<open>rq_\<close>, \<open>framer_\<close>, \<open>streamparser_\<close>, \<open>cm_\<close>, \<open>wsconn_\<close>, \<open>ws_delete\<close>,
    \<open>config_delete\<close>). The locales \<open>heap_object\<close> (a destructor frees what the object owns, once), \<open>heap_class\<close>
    and \<open>heap_maker\<close> (a constructor gives such an object, and blocks that its destructor forgets) are interpreted by the
    objects of the code. The destructors of Expat and libevent are arguments that free one block each.
  \<^item> \<open>FrameList\<close>: the frame list of \<open>framer.c\<close> with its head, tail and next pointers, which implements the list in
    the model of the framer.
  \<^item> \<open>MainProg\<close> (\<open>main.c\<close>): options, messages and exit codes, configuration, the start of the server and the
    signal handlers; this theory joins it to the safety of the server.

  \<^bold>\<open>What is shown.\<close> For each component what its operations compute, on inputs that the hypotheses of the theorems
  name: harmless request lines, streams whose stanzas have a namespace, block-style documents, frames within the
  limits, texts that are not empty for the decoder; safety of whole connections for receive limits between 14 and 114 bytes per frame (the blocks of
  the receiver start at 128 bytes, and \<open>get_frame\<close> reads the announced length before it has arrived, so larger
  or absent limits are not safe, which is a theorem too); the defects of the code, each as a theorem on
  concrete or general input. All loops are total functions with their measures. Fuel appears once, in
  \<open>process_rounds\<close>, the frame loop of the server with a bound on its rounds: twice the bytes in the frame buffer
  and three more are enough, because every round takes a frame or a message away.

  \<^bold>\<open>Where the model is coarser than C.\<close> An allocator decides by the size of a request, so that within one call two
  requests of the same size have the same answer, and it has no state, so that connections do not use up each
  other's memory; in the heap of blocks every request is decided on its own. Reads through pointers to wider
  integers are reads of their bytes, also where the pointer is not aligned (\<open>get_frame\<close>). Uninitialised arrays of
  characters hold anything. libevent does not call back from inside \<open>bufferevent_socket_connect_hostname\<close>. The
  ownership of a connection (\<open>conn_at\<close>) is shown to hold after its creation, and not to be kept by all callbacks:
  a framer whose reset has failed keeps a dangling parser.

  \<^bold>\<open>What is not modelled.\<close> The record of the log: the calls of \<open>LOG\<close> that print data are evaluated, for their
  formats, but their messages are not kept, and calls with a fixed text inside the callbacks are left out;
  \<open>show_bytes\<close>, which prints and is not called; the handlers of namespaces in \<open>streamparse.c\<close>, which are empty.
  The heap of blocks has the functions that create and free objects and the frame list, not the others, whose
  accesses to memory are checked in the model of values. The test framework \<open>CuTest\<close> and the tests are not part of the program.
\<close>

section \<open>From the configuration to the connections\<close>


definition proxy_doc :: yaml_doc where
  "proxy_doc = [(''port'', Scalar ''5000''), (''listen'', Scalar ''0.0.0.0''), (''log_level'', Scalar ''LOG_ERR''),
     (''max_frame_size'', Scalar ''100''), (''max_message_size'', Scalar ''1000'')]"

definition proxy_world :: world where
  "proxy_world = sample_world\<lparr>o_yaml := (\<lambda>f. Some (doc_tokens proxy_doc))\<rparr>"

lemma proxy_doc_meaning: "doc_meaning proxy_doc empty_conf = \<lparr>cf_port = Some ''5000'', cf_origin_list = [],
     cf_cidr = Some ''0.0.0.0'', cf_host = None, cf_resource = None, cf_log_level = LOG_ERR,
     cf_max_message_size = 1000, cf_max_frame_size = 100\<rparr>"
  by code_simp

lemma proxy_doc_fits: "\<forall>en \<in> set proxy_doc. entry_fits zero_alloc en"
  by (simp add: proxy_doc_def strdup_ok_def PTRDIFF_MAX_def sizeof_origin_t_def nul_free_def
      atoi_def isspace_def isdigit_def in_int_range_def INT_MAX_def)

lemma proxy_world_starts:
  "generous (o_al proxy_world)" "runs []" "length (o_key proxy_world) = 128"
  "o_yaml proxy_world (config_file [] ''/etc/jabsocket.conf'') = Some (doc_tokens proxy_doc)"
  "\<forall>en \<in> set proxy_doc. entry_fits (o_al proxy_world) en"
  "o_resolve proxy_world (Some ''0.0.0.0'') (Some ''5000'') = None" "o_base proxy_world" "o_listening proxy_world"
  using proxy_doc_fits by (simp_all add: proxy_world_def sample_world_def runs_def)


end
